(* ===== verification/Relay_Prelude.thy ===== *)
theory Relay_Prelude
  imports "HOL-Library.Word" "HOL-Library.Sublist" "HOL-Library.Monad_Syntax"
begin

text \<open>
  What every component shares: bytes and their conversion to characters, fixed-width numbers
  in little- and big-endian byte order (\<^verbatim>\<open>encoding/binary\<close>), indexing and slicing that fail as
  Go's panic does, the time constants, and the interface \<open>stream_codec\<close> that every encoding of the
  program satisfies (hex digits, address semi-octets, WebSocket frames, atserver requests).
\<close>

section \<open>Collections used by the components\<close>

named_theorems relay_defs \<open>definitions that evaluate on concrete inputs\<close>

section \<open>Bytes and characters\<close>

text \<open>
  A Go \<^verbatim>\<open>[]byte\<close> is a \<open>byte list\<close>; a Go \<^verbatim>\<open>string\<close> is a HOL \<open>string\<close>, whose characters are bytes
  too. The conversions between the two are the identity on the bytes, as in Go.
\<close>

type_synonym byte = "8 word"

definition byte_of_char :: "char \<Rightarrow> byte" where
  [relay_defs]: "byte_of_char c = of_nat (of_char c)"

definition char_of_byte :: "byte \<Rightarrow> char" where
  [relay_defs]: "char_of_byte b = char_of (unat b)"

definition bytes_of_string :: "string \<Rightarrow> byte list" where
  [relay_defs]: "bytes_of_string s = map byte_of_char s"

definition string_of_bytes :: "byte list \<Rightarrow> string" where
  [relay_defs]: "string_of_bytes bs = map char_of_byte bs"

lemma unat_byte_less [simp]: "unat (b :: byte) < 256"
  using unsigned_less [of b] by simp

lemma unat_byte_div_less [simp]: "unat (b :: byte) div 16 < 16"
  by (rule less_mult_imp_div_less) (use unat_byte_less [of b] in simp_all)

lemma unat_nibbles: "a < 16 \<Longrightarrow> b < 16 \<Longrightarrow> unat (of_nat a + 16 * of_nat b :: byte) = a + 16 * b"
  using unat_of_nat [where 'a = 8, of "a + 16 * b"] by simp

lemma take_if_longer [simp]: "(if n < length xs then take n xs else xs) = take n xs"
  by simp

lemma char_of_byte_of_char [simp]: "char_of_byte (byte_of_char c) = c"
  by (simp add: char_of_byte_def byte_of_char_def unat_of_nat)

lemma byte_of_char_of_byte [simp]: "byte_of_char (char_of_byte b) = b"
  by (simp add: char_of_byte_def byte_of_char_def)

lemma string_of_bytes_of_string [simp]: "string_of_bytes (bytes_of_string s) = s"
  by (simp add: string_of_bytes_def bytes_of_string_def comp_def)

lemma bytes_of_string_of_bytes [simp]: "bytes_of_string (string_of_bytes b) = b"
  by (simp add: string_of_bytes_def bytes_of_string_def comp_def)

lemma length_bytes_of_string [simp]: "length (bytes_of_string s) = length s"
  by (simp add: bytes_of_string_def)

lemma length_string_of_bytes [simp]: "length (string_of_bytes b) = length b"
  by (simp add: string_of_bytes_def)

section \<open>Fixed-width numbers in bytes\<close>

primrec to_le :: "nat \<Rightarrow> nat \<Rightarrow> byte list" where
  "to_le 0 v = []"
| "to_le (Suc n) v = of_nat v # to_le n (v div 256)"

primrec of_le :: "byte list \<Rightarrow> nat" where
  "of_le [] = 0"
| "of_le (b # bs) = unat b + 256 * of_le bs"

definition to_be :: "nat \<Rightarrow> nat \<Rightarrow> byte list" where
  [relay_defs]: "to_be n v = rev (to_le n v)"

definition of_be :: "byte list \<Rightarrow> nat" where
  [relay_defs]: "of_be bs = of_le (rev bs)"

lemma length_to_le [simp]: "length (to_le n v) = n"
  by (induction n arbitrary: v) auto

lemma length_to_be [simp]: "length (to_be n v) = n"
  by (simp add: to_be_def)

lemma of_le_to_le: "of_le (to_le n v) = v mod 256 ^ n"
proof (induction n arbitrary: v)
  case (Suc n)
  have "v mod (256 * 256 ^ n) = 256 * (v div 256 mod 256 ^ n) + v mod 256"
    by (rule mod_mult2_eq)
  with Suc show ?case
    by (simp add: unat_of_nat)
qed simp

lemma of_be_to_be: "of_be (to_be n v) = v mod 256 ^ n"
  by (simp add: of_be_def to_be_def of_le_to_le)

lemma of_le_less: "of_le bs < 256 ^ length bs"
proof (induction bs)
  case (Cons b bs)
  have "unat b < 256"
    by (rule unat_byte_less)
  moreover from Cons have "Suc (of_le bs) \<le> 256 ^ length bs"
    by simp
  ultimately have "unat b + 256 * of_le bs < 256 * 256 ^ length bs"
    by linarith
  then show ?case
    by simp
qed simp

lemma of_be_less: "of_be bs < 256 ^ length bs"
  using of_le_less [of "rev bs"] by (simp add: of_be_def)

section \<open>Indexing and slicing that can panic\<close>

text \<open>
  \<open>go_at p i\<close> is \<^verbatim>\<open>p[i]\<close> and \<open>go_slice p i j\<close> is \<^verbatim>\<open>p[i:j]\<close>; \<open>None\<close> is the run-time panic. Go
  checks the upper bound of a slice against the capacity; the model checks it against the
  length, the strictest capacity, and each user says why that gives the same outcome.
\<close>

definition go_at :: "'a list \<Rightarrow> nat \<Rightarrow> 'a option" where
  [relay_defs]: "go_at p i = (if i < length p then Some (p ! i) else None)"

definition go_slice :: "'a list \<Rightarrow> nat \<Rightarrow> nat \<Rightarrow> 'a list option" where
  [relay_defs]: "go_slice p i j = (if i \<le> j \<and> j \<le> length p then Some (take (j - i) (drop i p)) else None)"

lemma go_at_eq_Some: "go_at p i = Some x \<longleftrightarrow> i < length p \<and> x = p ! i"
  by (auto simp: go_at_def)

lemma go_at_eq_None: "go_at p i = None \<longleftrightarrow> length p \<le> i"
  by (auto simp: go_at_def)

lemma go_at_append_left [simp]: "i < length xs \<Longrightarrow> go_at (xs @ ys) i = go_at xs i"
  by (simp add: go_at_def nth_append)

lemma go_at_append_right: "length xs \<le> i \<Longrightarrow> go_at (xs @ ys) i = go_at ys (i - length xs)"
  by (auto simp: go_at_def nth_append)

lemma go_slice_middle:
  "i = length xs \<Longrightarrow> j = length xs + length ys \<Longrightarrow> go_slice (xs @ ys @ zs) i j = Some ys"
  by (simp add: go_slice_def)

section \<open>Durations\<close>

text \<open>\<^verbatim>\<open>time.Duration\<close> counts nanoseconds; instants are nanoseconds of the monotonic clock.\<close>

abbreviation (input) millisecond :: int where "millisecond \<equiv> 1000000"
abbreviation (input) second :: int where "second \<equiv> 1000000000"
abbreviation (input) minute :: int where "minute \<equiv> 60000000000"
abbreviation (input) hour :: int where "hour \<equiv> 3600000000000"

section \<open>Encodings that can be read back from a stream\<close>

text \<open>
  An encoder and a decoder that hands back the rest of the stream. The law is the one the
  program needs on every wire: what was written is what is read, whatever follows it.
\<close>

primrec read_n :: "('b list \<Rightarrow> ('a \<times> 'b list) option) \<Rightarrow> nat \<Rightarrow> 'b list \<Rightarrow> ('a list \<times> 'b list) option" where
  "read_n dec 0 s = Some ([], s)"
| "read_n dec (Suc n) s =
     (case dec s of None \<Rightarrow> None
      | Some (x, s') \<Rightarrow> (case read_n dec n s' of None \<Rightarrow> None | Some (xs, r) \<Rightarrow> Some (x # xs, r)))"

locale stream_codec =
  fixes enc :: "'a \<Rightarrow> 'b list"
    and dec :: "'b list \<Rightarrow> ('a \<times> 'b list) option"
    and valid :: "'a \<Rightarrow> bool"
  assumes dec_enc: "valid x \<Longrightarrow> dec (enc x @ rest) = Some (x, rest)"
begin

text \<open>A whole stream of encodings is read back in order.\<close>

lemma read_n_enc:
  "list_all valid xs \<Longrightarrow> read_n dec (length xs) (concat (map enc xs) @ rest) = Some (xs, rest)"
  by (induction xs) (simp_all add: dec_enc)

lemma enc_inj:
  assumes "valid x" and "valid y" and "enc x @ r = enc y @ s"
  shows "x = y" and "r = s"
proof -
  have "Some (x, r) = Some (y, s)"
    using dec_enc [OF assms(1), of r] dec_enc [OF assms(2), of s] assms(3) by metis
  then show "x = y" and "r = s"
    by simp_all
qed

lemma enc_prefix_free: "valid x \<Longrightarrow> valid y \<Longrightarrow> x \<noteq> y \<Longrightarrow> \<not> prefix (enc x) (enc y)"
  by (metis append_Nil2 enc_inj(1) prefix_def)

end

text \<open>A sum over a list one of whose elements is replaced.\<close>

lemma sum_list_replaced:
  fixes f :: "'a \<Rightarrow> 'b::comm_monoid_add"
  shows "i < length xs \<Longrightarrow> sum_list (map f (xs[i := y])) + f (xs ! i) = sum_list (map f xs) + f y"
proof (induction xs arbitrary: i)
  case (Cons x xs)
  then show ?case
    by (cases i) (simp_all add: ac_simps)
qed simp

end
