(* ===== verification/Gate.thy ===== *)
theory Gate
  imports Relay_Prelude
begin

text \<open>
  The timing policies of the relay: the cooldown that \<^verbatim>\<open>claimPDU\<close> (\<^verbatim>\<open>main.go\<close>) keeps per PDU, the
  backoff after failed transmissions (\<^verbatim>\<open>backoffFor\<close>) and the delay before a reconnect (\<^verbatim>\<open>wsBackoff\<close>,
  \<^verbatim>\<open>ws.go\<close>). Both delays are instances of the interface \<open>retry_policy\<close>.
\<close>

section \<open>The cooldown\<close>

text \<open>The state under \<^verbatim>\<open>stateMu\<close>. \<open>lastSent = None\<close> is the zero \<^verbatim>\<open>time.Time\<close>.\<close>

record dedup =
  lastPDU :: string
  lastSent :: "int option"

definition init_dedup :: dedup where
  "init_dedup = \<lparr>lastPDU = [], lastSent = None\<rparr>"

text \<open>\<^verbatim>\<open>time.Since\<close> saturates at the largest duration, which it is for the zero time.\<close>

definition max_duration :: int where "max_duration = 9223372036854775807"

definition time_since :: "int \<Rightarrow> int option \<Rightarrow> int" where
  "time_since now t = (case t of None \<Rightarrow> max_duration | Some t \<Rightarrow> min max_duration (now - t))"

definition claimPDU :: "int \<Rightarrow> int \<Rightarrow> string \<Rightarrow> dedup \<Rightarrow> bool \<times> dedup" where
  "claimPDU cooldown now pduHex st =
     (if pduHex = lastPDU st \<and> time_since now (lastSent st) < cooldown then (False, st)
      else (True, st\<lparr>lastPDU := pduHex, lastSent := Some now\<rparr>))"

text \<open>A sequence of claims, each at its instant, and which of them were granted.\<close>

primrec claims :: "int \<Rightarrow> (int \<times> string) list \<Rightarrow> dedup \<Rightarrow> bool list" where
  "claims cooldown [] st = []"
| "claims cooldown (c # cs) st =
     (let (ok, st') = claimPDU cooldown (fst c) (snd c) st in ok # claims cooldown cs st')"

primrec claims_state :: "int \<Rightarrow> (int \<times> string) list \<Rightarrow> dedup \<Rightarrow> dedup" where
  "claims_state cooldown [] st = st"
| "claims_state cooldown (c # cs) st =
     claims_state cooldown cs (snd (claimPDU cooldown (fst c) (snd c) st))"

definition granted :: "int \<Rightarrow> (int \<times> string) list \<Rightarrow> dedup \<Rightarrow> (int \<times> string) list" where
  "granted cooldown cs st = map fst (filter snd (zip cs (claims cooldown cs st)))"

lemma granted_Nil [simp]: "granted cooldown [] st = []"
  by (simp add: granted_def)

lemma granted_Cons:
  "granted cooldown (c # cs) st =
     (let (ok, st') = claimPDU cooldown (fst c) (snd c) st
      in (if ok then [c] else []) @ granted cooldown cs st')"
  by (auto simp: granted_def Let_def split: prod.splits)

text \<open>
  Two transmissions of one PDU that follow each other directly are a cooldown apart. This is all
  the single remembered PDU can promise: another PDU between them resets the memory.
\<close>

fun spaced :: "int \<Rightarrow> (int \<times> string) list \<Rightarrow> bool" where
  "spaced cooldown (a # b # gs) \<longleftrightarrow>
     (snd a = snd b \<longrightarrow> cooldown \<le> fst b - fst a) \<and> spaced cooldown (b # gs)"
| "spaced cooldown _ \<longleftrightarrow> True"

lemma claimPDU_refused:
  "claimPDU cooldown now p st = (False, st') \<longleftrightarrow>
     p = lastPDU st \<and> time_since now (lastSent st) < cooldown \<and> st' = st"
  by (auto simp: claimPDU_def)

lemma claimPDU_granted:
  "claimPDU cooldown now p st = (True, st') \<Longrightarrow> lastPDU st' = p \<and> lastSent st' = Some now"
  by (auto simp: claimPDU_def split: if_splits)

lemma spaced_granted_from:
  assumes "cooldown \<le> max_duration" and "lastPDU st = snd a" and "lastSent st = Some (fst a)"
  shows "spaced cooldown (a # granted cooldown cs st)"
  using assms(2,3)
proof (induction cs arbitrary: st a)
  case (Cons c cs)
  show ?case
  proof (cases "fst (claimPDU cooldown (fst c) (snd c) st)")
    case True
    then have "snd a = snd c \<longrightarrow> cooldown \<le> fst c - fst a"
      using Cons.prems assms(1) by (auto simp: claimPDU_def time_since_def split: if_splits)
    moreover have "spaced cooldown (c # granted cooldown cs (snd (claimPDU cooldown (fst c) (snd c) st)))"
      using True by (intro Cons.IH) (auto simp: claimPDU_def split: if_splits)
    ultimately show ?thesis
      using True by (simp add: granted_Cons case_prod_beta)
  next
    case False
    then have "snd (claimPDU cooldown (fst c) (snd c) st) = st"
      by (auto simp: claimPDU_def split: if_splits)
    with False show ?thesis
      using Cons by (simp add: granted_Cons case_prod_beta)
  qed
qed simp

lemma spaced_tail: "spaced cooldown (a # gs) \<Longrightarrow> spaced cooldown gs"
  by (cases gs) auto

lemma spaced_granted:
  assumes "cooldown \<le> max_duration"
  shows "spaced cooldown (granted cooldown cs st)"
proof (induction cs arbitrary: st)
  case (Cons c cs)
  let ?st = "snd (claimPDU cooldown (fst c) (snd c) st)"
  show ?case
  proof (cases "fst (claimPDU cooldown (fst c) (snd c) st)")
    case True
    then have "spaced cooldown (c # granted cooldown cs ?st)"
      by (intro spaced_granted_from assms) (auto simp: claimPDU_def split: if_splits)
    with True show ?thesis
      by (simp add: granted_Cons case_prod_beta)
  next
    case False
    with Cons show ?thesis
      by (simp add: granted_Cons case_prod_beta)
  qed
qed simp

section \<open>Delays between attempts\<close>

text \<open>
  A retry policy waits \<open>delay n\<close> after the \<open>n\<close>-th failure in a row: never longer than a cap, never
  shorter as failures go on, and at the cap from the \<open>settle\<close>-th failure.
\<close>

locale retry_policy =
  fixes delay :: "nat \<Rightarrow> int" and cap :: int and settle :: nat
  assumes delay_nonneg: "0 \<le> delay n"
    and delay_cap: "delay n \<le> cap"
    and delay_mono: "m \<le> n \<Longrightarrow> delay m \<le> delay n"
    and delay_settled: "settle \<le> n \<Longrightarrow> delay n = cap"
begin

lemma cap_nonneg: "0 \<le> cap"
  using delay_nonneg delay_cap order_trans by blast

lemma total_le: "(\<Sum>i<n. delay i) \<le> int n * cap"
  using sum_bounded_above [of "{..<n}" delay cap] by (simp add: delay_cap)

text \<open>The waiting time after \<open>n\<close> failures grows at least at the rate of the cap.\<close>

lemma total_ge: "(int n - int settle) * cap \<le> (\<Sum>i<n. delay i)"
proof (induction n)
  case 0
  show ?case
    using cap_nonneg by (simp add: mult_nonneg_nonneg)
next
  case (Suc n)
  have "(int (Suc n) - int settle) * cap \<le> (\<Sum>i<n. delay i) + delay n"
  proof (cases "settle \<le> n")
    case True
    then have "delay n = cap"
      by (rule delay_settled)
    with Suc show ?thesis
      by (simp add: algebra_simps)
  next
    case False
    then have "(int (Suc n) - int settle) * cap \<le> 0"
      using cap_nonneg by (simp add: mult_nonpos_nonneg)
    moreover have "0 \<le> (\<Sum>i<n. delay i)" and "0 \<le> delay n"
      using delay_nonneg by (simp_all add: sum_nonneg)
    ultimately show ?thesis
      by linarith
  qed
  then show ?case
    by simp
qed

text \<open>So only so many attempts fit into a stretch of time.\<close>

lemma attempts_bounded:
  assumes "0 < cap" and "(\<Sum>i<n. delay i) \<le> T"
  shows "int n \<le> int settle + T div cap"
proof -
  have "(int n - int settle) * cap \<le> T"
    using total_ge [of n] assms(2) by linarith
  then have "(int n - int settle) * cap div cap \<le> T div cap"
    using assms(1) by (intro zdiv_mono1) auto
  with assms(1) show ?thesis
    by simp
qed

end

section \<open>Backoff of the modem transport\<close>

text \<open>The loop of \<^verbatim>\<open>backoffFor\<close>, from \<open>i\<close> with the delay \<open>d\<close> so far.\<close>

function backoff_loop :: "int \<Rightarrow> int \<Rightarrow> int \<Rightarrow> int" where
  "backoff_loop i fails d =
     (if i < fails then (if 2 * hour \<le> d then d else backoff_loop (i + 1) fails (d * 2)) else d)"
  by pat_completeness auto
termination
  by (relation "measure (\<lambda>(i, fails, d). nat (fails - i))") auto

declare backoff_loop.simps [simp del]

definition backoffFor :: "int \<Rightarrow> int" where
  "backoffFor fails =
     (if fails < 3 then 0
      else let d = backoff_loop 3 fails (5 * minute) in if 2 * hour < d then 2 * hour else d)"

lemma backoff_loop_done: "fails \<le> i \<Longrightarrow> backoff_loop i fails d = d"
  by (subst backoff_loop.simps) simp

lemma backoff_loop_cap: "2 * hour \<le> d \<Longrightarrow> backoff_loop i fails d = d"
  by (subst backoff_loop.simps) simp

lemma backoff_loop_double:
  "i < fails \<Longrightarrow> d < 2 * hour \<Longrightarrow> backoff_loop i fails d = backoff_loop (i + 1) fails (d * 2)"
  by (subst backoff_loop.simps) simp

lemma backoff_loop_min:
  "0 \<le> d \<Longrightarrow> min (backoff_loop i (i + int n) d) (2 * hour) = min (d * 2 ^ n) (2 * hour)"
proof (induction n arbitrary: i d)
  case (Suc n)
  show ?case
  proof (cases "d < 2 * hour")
    case True
    with Suc.prems Suc.IH [of "d * 2" "i + 1"] show ?thesis
      by (simp add: backoff_loop_double algebra_simps)
  next
    case False
    have "(1 :: int) \<le> 2 ^ Suc n"
      by (rule one_le_power) simp
    with Suc.prems have "d \<le> d * 2 ^ Suc n"
      using mult_left_mono [of 1 "2 ^ Suc n" d] by simp
    with False have "2 * hour \<le> d * 2 ^ Suc n"
      by linarith
    with False show ?thesis
      by (simp add: backoff_loop_cap min_def del: power_Suc)
  qed
qed (simp add: backoff_loop_done)

text \<open>The closed form: five minutes, doubled per further failure, at most two hours.\<close>

lemma backoffFor_closed:
  "backoffFor fails = (if fails < 3 then 0 else min (5 * minute * 2 ^ nat (fails - 3)) (2 * hour))"
proof (cases "fails < 3")
  case False
  then have "fails = 3 + int (nat (fails - 3))"
    by simp
  then have "min (backoff_loop 3 fails (5 * minute)) (2 * hour)
      = min (5 * minute * 2 ^ nat (fails - 3)) (2 * hour)"
    using backoff_loop_min [of "5 * minute" 3 "nat (fails - 3)"] by simp
  with False show ?thesis
    by (auto simp: backoffFor_def min_def Let_def)
qed (simp add: backoffFor_def)

section \<open>Delay before a reconnect\<close>

text \<open>
  \<^verbatim>\<open>1<<uint(attempt)\<close> on the 64-bit duration: a negative attempt would be a shift by more than the
  width, which Go evaluates to 0.
\<close>

definition wsBackoff :: "int \<Rightarrow> int" where
  "wsBackoff attempt =
     (let attempt = (if attempt > 10 then 10 else attempt);
          d = second * (if attempt < 0 then 0 else 2 ^ nat attempt)
      in if 60 * second < d then 60 * second else d)"

lemma wsBackoff_closed: "0 \<le> a \<Longrightarrow> wsBackoff a = min (second * 2 ^ nat a) (60 * second)"
proof (cases "a \<le> 10")
  case False
  then have "(2 :: int) ^ 10 \<le> 2 ^ nat a"
    by (intro power_increasing) auto
  with False show ?thesis
    by (simp add: wsBackoff_def Let_def min_def)
qed (auto simp: wsBackoff_def Let_def min_def)

lemma min_power_mono:
  fixes k c :: int
  shows "0 \<le> k \<Longrightarrow> m \<le> n \<Longrightarrow> min (k * 2 ^ m) c \<le> min (k * 2 ^ n) c"
  by (rule min.mono) (auto intro: mult_left_mono power_increasing)

text \<open>Both are retry policies: two hours from the eighth failure, a minute from the sixth attempt.\<close>

interpretation modem: retry_policy "\<lambda>n. backoffFor (int n)" "2 * hour" 8
proof
  fix m n :: nat
  show "0 \<le> backoffFor (int n)" and "backoffFor (int n) \<le> 2 * hour"
    by (simp_all add: backoffFor_closed)
  show "backoffFor (int m) \<le> backoffFor (int n)" if "m \<le> n"
  proof (cases "int m < 3")
    case True
    then show ?thesis by (simp add: backoffFor_closed)
  next
    case False
    with that show ?thesis
      using min_power_mono [of "5 * minute" "nat (int m - 3)" "nat (int n - 3)" "2 * hour"]
      by (simp add: backoffFor_closed)
  qed
  show "backoffFor (int n) = 2 * hour" if "8 \<le> n"
  proof -
    have "5 * minute * 2 ^ 5 \<le> 5 * minute * 2 ^ nat (int n - 3)"
      using that by (intro mult_left_mono power_increasing) auto
    with that show ?thesis
      by (simp add: backoffFor_closed)
  qed
qed

interpretation reconnect: retry_policy "\<lambda>n. wsBackoff (int n)" "60 * second" 6
proof
  fix m n :: nat
  show "0 \<le> wsBackoff (int n)" and "wsBackoff (int n) \<le> 60 * second"
    by (simp_all add: wsBackoff_closed)
  show "wsBackoff (int m) \<le> wsBackoff (int n)" if "m \<le> n"
    using that min_power_mono [of second m n "60 * second"] by (simp add: wsBackoff_closed)
  show "wsBackoff (int n) = 60 * second" if "6 \<le> n"
  proof -
    have "second * 2 ^ 6 \<le> second * 2 ^ n"
      using that by (intro mult_left_mono power_increasing) auto
    then show ?thesis
      by (simp add: wsBackoff_closed)
  qed
qed

section \<open>What the memory of one PDU amounts to\<close>

lemma claims_append: "claims cooldown (cs @ ds) st = claims cooldown cs st @ claims cooldown ds (claims_state cooldown cs st)"
  by (induction cs arbitrary: st) (simp_all add: case_prod_beta)

lemma length_claims [simp]: "length (claims cooldown cs st) = length cs"
  by (induction cs arbitrary: st) (simp_all add: case_prod_beta)

text \<open>The state always holds the last granted claim.\<close>

lemma claims_state_last:
  "claims_state cooldown cs st =
     (if granted cooldown cs st = [] then st
      else st\<lparr>lastPDU := snd (last (granted cooldown cs st)),
              lastSent := Some (fst (last (granted cooldown cs st)))\<rparr>)"
proof (induction cs arbitrary: st)
  case (Cons c cs)
  show ?case
  proof (cases "fst (claimPDU cooldown (fst c) (snd c) st)")
    case True
    then have "snd (claimPDU cooldown (fst c) (snd c) st) = st\<lparr>lastPDU := snd c, lastSent := Some (fst c)\<rparr>"
      by (auto simp: claimPDU_def split: if_splits)
    with True Cons show ?thesis
      by (simp add: granted_Cons case_prod_beta)
  next
    case False
    then have "snd (claimPDU cooldown (fst c) (snd c) st) = st"
      by (auto simp: claimPDU_def split: if_splits)
    with False Cons show ?thesis
      by (simp add: granted_Cons case_prod_beta)
  qed
qed simp

section \<open>Properties\<close>

text \<open>C13: Deduplication over a whole run from the start of the process: after any claims \<open>cs\<close>, a claim is
  refused exactly when the last granted claim was for the same PDU less than the cooldown ago, and any
  two transmissions of one PDU in direct succession are at least the cooldown apart.\<close>

theorem claims_history:
  assumes "cooldown \<le> max_duration"
  shows "(last (claims cooldown (cs @ [(t, p)]) init_dedup) \<longleftrightarrow>
      (let gs = granted cooldown cs init_dedup in
       \<not> (gs \<noteq> [] \<and> snd (last gs) = p \<and> min max_duration (t - fst (last gs)) < cooldown)))
    \<and> spaced cooldown (granted cooldown cs init_dedup)"
proof (rule conjI)
  have "last (claims cooldown (cs @ [(t, p)]) init_dedup)
      = fst (claimPDU cooldown t p (claims_state cooldown cs init_dedup))"
    by (simp add: claims_append case_prod_beta)
  then show "last (claims cooldown (cs @ [(t, p)]) init_dedup) \<longleftrightarrow>
      (let gs = granted cooldown cs init_dedup in
       \<not> (gs \<noteq> [] \<and> snd (last gs) = p \<and> min max_duration (t - fst (last gs)) < cooldown))"
    using assms
    by (auto simp: claims_state_last claimPDU_def time_since_def init_dedup_def Let_def)
  show "spaced cooldown (granted cooldown cs init_dedup)"
    using assms by (rule spaced_granted)
qed

theorem claims_history_witness:
  "claims (90 * second) [(0, ''A''), (30 * second, ''A''), (90 * second, ''A'')] init_dedup = [True, False, True]
   \<and> spaced (90 * second) (granted (90 * second) [(0, ''A''), (30 * second, ''A''), (90 * second, ''A'')] init_dedup)"
proof -
  have "90 * second \<le> max_duration"
    by (simp add: max_duration_def)
  then show ?thesis
    using claims_history [of "90 * second" "[(0, ''A''), (30 * second, ''A''), (90 * second, ''A'')]"]
    by (simp add: claimPDU_def init_dedup_def time_since_def max_duration_def)
qed

text \<open>The cooldown does not cover PDUs that alternate: with another PDU granted in between, the same PDU is
  granted again at once, however long the cooldown.\<close>

theorem cooldown_forgets:
  assumes "a \<noteq> b" and "0 < cooldown" and "cooldown \<le> max_duration"
  shows "claims cooldown [(t, a), (t, a), (t, b), (t, a)] init_dedup = [True, False, True, True]"
  using assms by (simp add: claimPDU_def init_dedup_def time_since_def max_duration_def)

theorem cooldown_forgets_witness:
  "claims (90 * second) [(0, ''A''), (0, ''A''), (0, ''B''), (0, ''A'')] init_dedup = [True, False, True, True]"
  by (rule cooldown_forgets) (simp_all add: max_duration_def)

text \<open>\<^verbatim>\<open>backoffFor\<close> computes the documented schedule: nothing below three failures, then five minutes,
  doubled per further failure, never more than two hours; the loop stops for every count.\<close>

theorem backoffFor_schedule:
  "backoffFor fails = (if fails < 3 then 0 else min (5 * minute * 2 ^ nat (fails - 3)) (2 * hour))"
  by (rule backoffFor_closed)

text \<open>\<^verbatim>\<open>wsBackoff\<close> computes one second doubled per attempt, capped at a minute; the clamp of the exponent
  to 10 never shows. Any \<open>n\<close> reconnects in a row therefore take at least \<open>n - 6\<close> minutes.\<close>

theorem wsBackoff_schedule:
  "wsBackoff (int n) = min (second * 2 ^ n) (60 * second)
   \<and> ((\<Sum>i<n. wsBackoff (int i)) \<le> T \<longrightarrow> int n \<le> 6 + T div (60 * second))"
  using reconnect.attempts_bounded [of n T] by (simp_all add: wsBackoff_closed)

theorem wsBackoff_schedule_witness:
  "(\<Sum>i<3. wsBackoff (int i)) \<le> 7 * second \<and> int 3 \<le> 6 + (7 * second) div (60 * second)"
proof -
  have h: "(\<Sum>i<3. wsBackoff (int i)) \<le> 7 * second"
    by (simp add: wsBackoff_closed eval_nat_numeral)
  show ?thesis
    using h wsBackoff_schedule [of 3 "7 * second"] by simp
qed

end
