(* ===== verification/Go_Strings.thy ===== *)
theory Go_Strings
  imports Relay_Prelude
begin

text \<open>
  The functions of Go's \<^verbatim>\<open>strings\<close>, \<^verbatim>\<open>strconv\<close>, \<^verbatim>\<open>encoding/hex\<close> and \<^verbatim>\<open>fmt\<close> packages that the relay
  calls, on byte strings. Where Go looks at Unicode, the model looks at the same UTF-8 bytes:
  white space is the exact list of \<^verbatim>\<open>unicode.IsSpace\<close>, and case mapping knows the four code points
  outside ASCII whose upper or lower case is an ASCII letter, so every comparison with an ASCII
  text is decided as Go decides it.
\<close>

section \<open>Codes, white space and trimming\<close>

abbreviation code :: "char \<Rightarrow> nat" where "code c \<equiv> of_char c"

text \<open>The number of bytes of the white-space rune a string starts with, 0 if it starts with none.\<close>

definition space_len :: "string \<Rightarrow> nat" where
  "space_len s =
     (case map code (take 3 s) of
        [] \<Rightarrow> 0
      | a # bs \<Rightarrow>
          if (9 \<le> a \<and> a \<le> 13) \<or> a = 32 then 1
          else (case bs of
              [] \<Rightarrow> 0
            | b # cs \<Rightarrow>
                if a = 0xC2 \<and> (b = 0x85 \<or> b = 0xA0) then 2
                else (case cs of
                    [] \<Rightarrow> 0
                  | c # _ \<Rightarrow>
                      if (a = 0xE1 \<and> b = 0x9A \<and> c = 0x80)
                       \<or> (a = 0xE2 \<and> b = 0x80 \<and> (0x80 \<le> c \<and> c \<le> 0x8A \<or> c = 0xA8 \<or> c = 0xA9 \<or> c = 0xAF))
                       \<or> (a = 0xE2 \<and> b = 0x81 \<and> c = 0x9F)
                       \<or> (a = 0xE3 \<and> b = 0x80 \<and> c = 0x80)
                      then 3 else 0)))"

text \<open>The same for the rune a string ends with, reading the reversed string.\<close>

definition space_len_rev :: "string \<Rightarrow> nat" where
  "space_len_rev r =
     (if space_len (take 1 r) = 1 then 1
      else if space_len (rev (take 2 r)) = 2 then 2
      else if space_len (rev (take 3 r)) = 3 then 3
      else 0)"

function strip_by :: "(string \<Rightarrow> nat) \<Rightarrow> string \<Rightarrow> string" where
  "strip_by f s = (if s = [] \<or> f s = 0 then s else strip_by f (drop (f s) s))"
  by pat_completeness auto
termination
  by (relation "measure (\<lambda>(f, s). length s)") auto

declare strip_by.simps [simp del]

definition trim_space :: "string \<Rightarrow> string" where
  "trim_space s = rev (strip_by space_len_rev (rev (strip_by space_len s)))"

text \<open>\<^verbatim>\<open>strings.TrimRight(s, cutset)\<close> for a cut set of ASCII characters.\<close>

definition trim_right :: "string \<Rightarrow> string \<Rightarrow> string" where
  "trim_right s cutset = rev (dropWhile (\<lambda>c. c \<in> set cutset) (rev s))"

text \<open>\<^verbatim>\<open>strings.Fields\<close>: the maximal runs without white space.\<close>

function fields_from :: "string \<Rightarrow> string \<Rightarrow> string list" where
  "fields_from w [] = (if w = [] then [] else [rev w])"
| "fields_from w (c # s) =
     (if space_len (c # s) = 0 then fields_from (c # w) s
      else (if w = [] then [] else [rev w]) @ fields_from [] (drop (space_len (c # s) - 1) s))"
  by pat_completeness auto
termination
  by (relation "measure (\<lambda>(w, s). length s)") auto

definition go_fields :: "string \<Rightarrow> string list" where
  "go_fields s = fields_from [] s"

section \<open>Searching and replacing\<close>

definition crlf :: string where "crlf = [CHR 0x0D, CHR 0x0A]"

definition contains :: "string \<Rightarrow> string \<Rightarrow> bool" where
  "contains s t \<longleftrightarrow> sublist t s"

definition has_prefix :: "string \<Rightarrow> string \<Rightarrow> bool" where
  "has_prefix s t \<longleftrightarrow> prefix t s"

text \<open>\<^verbatim>\<open>strings.IndexByte\<close>, \<open>None\<close> for -1.\<close>

primrec index_byte :: "string \<Rightarrow> char \<Rightarrow> nat option" where
  "index_byte [] x = None"
| "index_byte (c # s) x = (if c = x then Some 0 else map_option Suc (index_byte s x))"

text \<open>The index of the last occurrence of a byte (\<^verbatim>\<open>strings.LastIndexByte\<close>), \<open>None\<close> for -1.\<close>

definition last_index :: "string \<Rightarrow> char \<Rightarrow> nat option" where
  "last_index s x = map_option (\<lambda>i. length s - 1 - i) (index_byte (rev s) x)"

lemma index_byte_less: "index_byte s x = Some i \<Longrightarrow> i < length s"
  by (induction s arbitrary: i) (auto split: if_splits)

lemma index_byte_eq_None: "index_byte s x = None \<longleftrightarrow> x \<notin> set s"
  by (induction s) auto

lemma index_byte_append: "x \<notin> set s \<Longrightarrow> index_byte (s @ x # t) x = Some (length s)"
  by (induction s) auto

text \<open>\<^verbatim>\<open>strings.ReplaceAll\<close> with a pattern of one byte.\<close>

definition replace_all :: "string \<Rightarrow> char \<Rightarrow> string \<Rightarrow> string" where
  "replace_all s x r = concat (map (\<lambda>c. if c = x then r else [c]) s)"

text \<open>\<^verbatim>\<open>strings.Split\<close> with a separator of one byte.\<close>

primrec split_on :: "char \<Rightarrow> string \<Rightarrow> string list" where
  "split_on x [] = [[]]"
| "split_on x (c # s) =
     (if c = x then [] # split_on x s
      else (case split_on x s of [] \<Rightarrow> [[c]] | w # ws \<Rightarrow> (c # w) # ws))"

text \<open>\<^verbatim>\<open>strings.SplitN(s, sep, 2)[1]\<close>: what follows the first \<open>sep\<close>; \<open>None\<close> is the index panic.\<close>

fun after_first :: "string \<Rightarrow> string \<Rightarrow> string option" where
  "after_first sep s =
     (if prefix sep s then Some (drop (length sep) s)
      else case s of [] \<Rightarrow> None | c # s' \<Rightarrow> after_first sep s')"

declare after_first.simps [simp del]

text \<open>\<^verbatim>\<open>strings.Join\<close>.\<close>

fun join_with :: "string \<Rightarrow> string list \<Rightarrow> string" where
  "join_with sep [] = []"
| "join_with sep [w] = w"
| "join_with sep (w # v # ws) = w @ sep @ join_with sep (v # ws)"

section \<open>Case\<close>

definition upper_char :: "char \<Rightarrow> char" where
  "upper_char c = (if 97 \<le> code c \<and> code c \<le> 122 then char_of (code c - 32) else c)"

definition lower_char :: "char \<Rightarrow> char" where
  "lower_char c = (if 65 \<le> code c \<and> code c \<le> 90 then char_of (code c + 32) else c)"

text \<open>
  \<^verbatim>\<open>strings.ToUpper\<close>: of the code points outside ASCII only U+0131 and U+017F have an upper case in
  ASCII (I and S); the others map outside ASCII and are left as they are.
\<close>

fun to_upper :: "string \<Rightarrow> string" where
  "to_upper [] = []"
| "to_upper [c] = [upper_char c]"
| "to_upper (c # d # s) =
     (if code c = 0xC4 \<and> code d = 0xB1 then CHR ''I'' # to_upper s
      else if code c = 0xC5 \<and> code d = 0xBF then CHR ''S'' # to_upper s
      else upper_char c # to_upper (d # s))"

text \<open>\<^verbatim>\<open>strings.ToLower\<close>: likewise only U+0130 and U+212A have a lower case in ASCII (i and k).\<close>

function to_lower :: "string \<Rightarrow> string" where
  "to_lower s =
     (case s of
        [] \<Rightarrow> []
      | c # s' \<Rightarrow>
          if map code (take 2 s) = [0xC4, 0xB0] then CHR ''i'' # to_lower (drop 1 s')
          else if map code (take 3 s) = [0xE2, 0x84, 0xAA] then CHR ''k'' # to_lower (drop 2 s')
          else lower_char c # to_lower s')"
  by pat_completeness auto
termination
  by (relation "measure length") auto

declare to_lower.simps [simp del]

text \<open>
  \<^verbatim>\<open>strings.EqualFold(s, t)\<close> for an ASCII \<open>t\<close>: simple case folding, under which U+017F equals s and
  U+212A equals k.
\<close>

fun equal_fold :: "string \<Rightarrow> string \<Rightarrow> bool" where
  "equal_fold s [] \<longleftrightarrow> s = []"
| "equal_fold s (x # t) \<longleftrightarrow>
     (case s of
        [] \<Rightarrow> False
      | c # s' \<Rightarrow>
          if code c < 128 then lower_char c = lower_char x \<and> equal_fold s' t
          else if map code (take 2 s) = [0xC5, 0xBF] then lower_char x = CHR ''s'' \<and> equal_fold (drop 1 s') t
          else if map code (take 3 s) = [0xE2, 0x84, 0xAA] then lower_char x = CHR ''k'' \<and> equal_fold (drop 2 s') t
          else False)"

section \<open>Decimal numbers\<close>

fun show_nat :: "nat \<Rightarrow> string" where
  "show_nat n = (if n < 10 then [char_of (48 + n)] else show_nat (n div 10) @ [char_of (48 + n mod 10)])"

declare show_nat.simps [simp del]

text \<open>\<^verbatim>\<open>fmt.Sprintf("%d", i)\<close>.\<close>

definition show_int :: "int \<Rightarrow> string" where
  "show_int i = (if i < 0 then CHR ''-'' # show_nat (nat (- i)) else show_nat (nat i))"

text \<open>
  \<^verbatim>\<open>strconv.Atoi\<close> on the 32-bit target: the value and whether the error is nil. A syntax error gives
  0; a number out of range gives the nearest bound, together with an error. The scan stops at
  the first digit that leaves the unsigned range, before it sees what follows.
\<close>

definition is_digit :: "char \<Rightarrow> bool" where
  "is_digit c \<longleftrightarrow> 48 \<le> code c \<and> code c \<le> 57"

definition uint_max :: nat where "uint_max = 4294967295"
definition int_max :: nat where "int_max = 2147483647"

text \<open>\<open>None\<close>: syntax error; \<open>Some (n, ok)\<close>: the number, or \<open>uint_max\<close> and out of range.\<close>

primrec parse_uint :: "nat \<Rightarrow> string \<Rightarrow> (nat \<times> bool) option" where
  "parse_uint acc [] = Some (acc, True)"
| "parse_uint acc (c # s) =
     (if \<not> is_digit c then None
      else let n = 10 * acc + (code c - 48) in
        if n > uint_max then Some (uint_max, False) else parse_uint n s)"

definition atoi :: "string \<Rightarrow> int \<times> bool" where
  "atoi s =
     (let neg = (s \<noteq> [] \<and> hd s = CHR ''-'');
          d = (if s \<noteq> [] \<and> (hd s = CHR ''-'' \<or> hd s = CHR ''+'') then tl s else s)
      in if d = [] then (0, False)
         else case parse_uint 0 d of
             None \<Rightarrow> (0, False)
           | Some (n, ok) \<Rightarrow>
               if \<not> neg \<and> n > int_max then (int int_max, False)
               else if neg \<and> n > Suc int_max then (- int (Suc int_max), False)
               else ((if neg then - int n else int n), ok))"

section \<open>Facts about them\<close>

lemma code_less [simp]: "code c < 256"
  by (rule nat_of_char_less_256)

lemma code_char_of: "n < 256 \<Longrightarrow> code (char_of n) = n"
  by simp

lemma code_upper_char: "code (upper_char c) = (if 97 \<le> code c \<and> code c \<le> 122 then code c - 32 else code c)"
proof (cases "97 \<le> code c \<and> code c \<le> 122")
  case True
  moreover from True have "code c - 32 < 256"
    by linarith
  ultimately show ?thesis
    by (simp add: upper_char_def code_char_of del: of_char_of)
next
  case False
  then show ?thesis
    by (simp only: upper_char_def if_False)
qed

text \<open>A character that is ASCII and not white space; what starts and ends with one is not trimmed.\<close>

definition visible :: "char \<Rightarrow> bool" where
  "visible c \<longleftrightarrow> 32 < code c \<and> code c < 127"

lemma space_len_visible [simp]: "visible c \<Longrightarrow> space_len (c # s) = 0"
  by (auto simp: space_len_def visible_def split: list.splits)

lemma space_len_le: "space_len s \<le> length s"
proof (cases s)
  case (Cons a t)
  note s = Cons
  show ?thesis
  proof (cases t)
    case Nil
    with s show ?thesis by (simp add: space_len_def)
  next
    case (Cons b u)
    with s show ?thesis by (cases u) (simp_all add: space_len_def)
  qed
qed (simp add: space_len_def)

lemma space_len_Nil [simp]: "space_len [] = 0"
  by (simp add: space_len_def)

lemma space_len_rev_visible [simp]: "visible c \<Longrightarrow> space_len_rev (c # s) = 0"
  by (cases s; cases "tl s") (auto simp: space_len_rev_def space_len_def visible_def)

lemma strip_by_stop: "s = [] \<or> f s = 0 \<Longrightarrow> strip_by f s = s"
  by (subst strip_by.simps) simp

lemma strip_by_suffix: "suffix (strip_by f s) s"
proof (induction f s rule: strip_by.induct)
  case (1 f s)
  show ?case
  proof (cases "s = [] \<or> f s = 0")
    case True
    then show ?thesis by (simp add: strip_by_stop)
  next
    case False
    with 1 have "suffix (strip_by f (drop (f s) s)) s"
      using suffix_drop suffix_order.trans by blast
    with False show ?thesis by (subst strip_by.simps) simp
  qed
qed

lemma strip_by_done: "strip_by f s = [] \<or> f (strip_by f s) = 0"
proof (induction f s rule: strip_by.induct)
  case (1 f s)
  then show ?case
    by (cases "s = [] \<or> f s = 0") (simp_all add: strip_by.simps [of f s])
qed

lemma trim_space_id:
  assumes "s = [] \<or> visible (hd s) \<and> visible (last s)"
  shows "trim_space s = s"
proof (cases "s = []")
  case False
  with assms have hd: "space_len s = 0"
    by (cases s) auto
  have "space_len_rev (rev s) = 0"
    using assms False by (cases s rule: rev_cases) auto
  with hd show ?thesis
    by (simp add: trim_space_def strip_by_stop)
qed (simp add: trim_space_def strip_by_stop)

lemma trim_space_sublist: "sublist (trim_space s) s"
proof -
  let ?l = "strip_by space_len s"
  have "suffix (rev (trim_space s)) (rev ?l)"
    using strip_by_suffix [of space_len_rev "rev ?l"] by (simp add: trim_space_def)
  then have "prefix (trim_space s) ?l"
    by (simp add: suffix_to_prefix)
  then show ?thesis
    using strip_by_suffix [of space_len s] sublist_order.order_trans
      prefix_imp_sublist suffix_imp_sublist by metis
qed

lemma trim_space_set: "set (trim_space s) \<subseteq> set s"
  using trim_space_sublist by (rule set_mono_sublist)

lemma length_trim_space: "length (trim_space s) \<le> length s"
  using trim_space_sublist by (rule sublist_length_le)

lemma replace_all_no_match: "x \<notin> set s \<Longrightarrow> replace_all s x r = s"
  by (induction s) (auto simp: replace_all_def)

lemma set_replace_all: "set (replace_all s x r) \<subseteq> set r \<union> (set s - {x})"
  by (auto simp: replace_all_def)

lemma contains_mid [simp]: "contains (a @ t @ b) t"
  by (auto simp: contains_def sublist_def)

lemma contains_append_left [simp]: "contains (t @ b) t"
  using contains_mid [of "[]" t b] by simp

lemma contains_mono: "contains s t \<Longrightarrow> contains (a @ s @ b) t"
  by (auto simp: contains_def intro: sublist_order.order_trans)

lemma contains_set: "contains s t \<Longrightarrow> set t \<subseteq> set s"
  by (auto simp: contains_def sublist_def)

lemma to_upper_ascii: "list_all (\<lambda>c. code c < 128) s \<Longrightarrow> to_upper s = map upper_char s"
  by (induction s rule: to_upper.induct) auto

lemma upper_char_upper [simp]: "upper_char (upper_char c) = upper_char c"
  using code_upper_char [of c] by (auto simp: upper_char_def [of "upper_char c"])

lemma split_on_nonempty [simp]: "split_on x s \<noteq> []"
  by (induction s) (auto split: list.splits)

lemma split_on_plain: "x \<notin> set s \<Longrightarrow> split_on x s = [s]"
  by (induction s) auto

lemma split_on_append: "split_on x (s @ x # t) = split_on x s @ split_on x t"
  by (induction s) (auto split: list.splits)

lemma split_join:
  assumes "list_all (\<lambda>w. x \<notin> set w) ws" and "ws \<noteq> []"
  shows "split_on x (join_with [x] ws) = ws"
  using assms by (induction "[x]" ws rule: join_with.induct) (simp_all add: split_on_plain split_on_append)

lemma set_split_on: "w \<in> set (split_on x s) \<Longrightarrow> set w \<subseteq> set s"
proof (induction s arbitrary: w)
  case (Cons c s)
  show ?case
  proof (cases "w = []")
    case False
    obtain v vs where v: "split_on x s = v # vs"
      using split_on_nonempty by (cases "split_on x s") auto
    with Cons.prems False have "w \<in> set (split_on x s) \<or> w = c # v"
      by (auto split: if_splits)
    with Cons.IH v show ?thesis
      by fastforce
  qed simp
qed simp

lemma show_nat_step: "10 \<le> n \<Longrightarrow> show_nat n = show_nat (n div 10) @ [char_of (48 + n mod 10)]"
  by (subst show_nat.simps) simp

lemma show_nat_digit: "n < 10 \<Longrightarrow> show_nat n = [char_of (48 + n)]"
  by (subst show_nat.simps) simp

lemma show_nat_nonempty [simp]: "show_nat n \<noteq> []"
  by (subst show_nat.simps) simp

lemma show_nat_digits: "c \<in> set (show_nat n) \<Longrightarrow> is_digit c"
proof (induction n rule: show_nat.induct)
  case (1 n)
  show ?case
  proof (cases "n < 10")
    case True
    with 1(2) show ?thesis by (auto simp: show_nat_digit is_digit_def)
  next
    case False
    with 1 show ?thesis by (auto simp: show_nat_step is_digit_def)
  qed
qed

lemma parse_uint_append:
  "parse_uint a (s @ t) = (case parse_uint a s of
     None \<Rightarrow> None
   | Some (n, ok) \<Rightarrow> if ok then parse_uint n t else Some (n, ok))"
  by (induction s arbitrary: a) (auto simp: Let_def)

text \<open>A printed number is read back, as long as it is in range.\<close>

lemma parse_uint_show_nat: "n \<le> uint_max \<Longrightarrow> parse_uint 0 (show_nat n) = Some (n, True)"
proof (induction n rule: show_nat.induct)
  case (1 n)
  show ?case
  proof (cases "n < 10")
    case True
    with 1(2) show ?thesis
      by (simp add: show_nat_digit is_digit_def uint_max_def)
  next
    case False
    with 1 have "parse_uint 0 (show_nat (n div 10)) = Some (n div 10, True)"
      by simp
    moreover have "10 * (n div 10) + n mod 10 = n"
      by simp
    ultimately show ?thesis
      using False 1(2) by (simp add: show_nat_step parse_uint_append is_digit_def)
  qed
qed

lemma atoi_show_nat:
  assumes "n \<le> int_max"
  shows "atoi (show_nat n) = (int n, True)"
proof -
  have "n \<le> uint_max"
    using assms by (simp add: int_max_def uint_max_def)
  moreover have "is_digit (hd (show_nat n))"
    using hd_in_set [OF show_nat_nonempty] by (rule show_nat_digits)
  then have "hd (show_nat n) \<noteq> CHR ''-''" and "hd (show_nat n) \<noteq> CHR ''+''"
    by (auto simp: is_digit_def)
  ultimately show ?thesis
    using assms by (simp add: atoi_def parse_uint_show_nat)
qed

lemma atoi_range: "- int (Suc int_max) \<le> fst (atoi s) \<and> fst (atoi s) \<le> int int_max"
  by (auto simp: atoi_def Let_def int_max_def split: option.splits)

section \<open>Spaces around words\<close>

definition space_char :: "char \<Rightarrow> bool" where
  "space_char c \<longleftrightarrow> 9 \<le> code c \<and> code c \<le> 13 \<or> code c = 32"

lemma space_len_space [simp]: "space_char c \<Longrightarrow> space_len (c # s) = 1"
  by (auto simp: space_len_def space_char_def)

lemma space_len_rev_space [simp]: "space_char c \<Longrightarrow> space_len_rev (c # s) = 1"
  by (simp add: space_len_rev_def)

lemma strip_by_space:
  "space_char c \<Longrightarrow> strip_by space_len (c # s) = strip_by space_len s"
  "space_char c \<Longrightarrow> strip_by space_len_rev (c # s) = strip_by space_len_rev s"
  by (subst strip_by.simps, simp)+

lemma trim_space_padded:
  assumes "v \<noteq> []" and "visible (hd v)" and "visible (last v)" and "list_all space_char pre" and "list_all space_char post"
  shows "trim_space (pre @ v @ post) = v"
proof -
  have "strip_by space_len (pre @ s) = strip_by space_len s" for s
    using assms(4) by (induction pre) (simp_all add: strip_by_space)
  moreover have "strip_by space_len (v @ post) = v @ post"
    using assms(1,2) by (intro strip_by_stop) (cases v; simp)
  moreover have "strip_by space_len_rev (us @ s) = strip_by space_len_rev s" if "list_all space_char us" for us s
    using that by (induction us) (simp_all add: strip_by_space)
  moreover have "strip_by space_len_rev (rev v) = rev v"
    using assms(1,3) by (intro strip_by_stop) (cases v rule: rev_cases; simp)
  ultimately show ?thesis
    using assms(5) by (simp add: trim_space_def)
qed

lemma fields_from_visible: "list_all visible w \<Longrightarrow> fields_from acc (w @ s) = fields_from (rev w @ acc) s"
  by (induction w arbitrary: acc) simp_all

lemma go_fields_word:
  "list_all visible w \<Longrightarrow> w \<noteq> [] \<Longrightarrow> space_char c \<Longrightarrow> go_fields (w @ c # s) = w # go_fields s"
  by (simp add: go_fields_def fields_from_visible)

lemma go_fields_space: "space_char c \<Longrightarrow> go_fields (c # s) = go_fields s"
  by (simp add: go_fields_def)

lemma go_fields_Nil [simp]: "go_fields [] = []"
  by (simp add: go_fields_def)

lemma space_char_simps [simp]: "space_char (CHR '' '')" "space_char (CHR 0x0D)" "space_char (CHR 0x0A)"
  by (simp_all add: space_char_def)

end
