(* ===== verification/Hex.thy ===== *)
theory Hex
  imports Go_Strings
begin

text \<open>
  \<^verbatim>\<open>encoding/hex\<close> and the \<^verbatim>\<open>%X\<close> verb of \<^verbatim>\<open>fmt\<close>: decoding accepts both cases, encoding writes lower
  case, \<^verbatim>\<open>%X\<close> writes upper case without leading zeros.
\<close>

definition from_hex_char :: "char \<Rightarrow> nat option" where
  "from_hex_char c =
     (if 48 \<le> code c \<and> code c \<le> 57 then Some (code c - 48)
      else if 97 \<le> code c \<and> code c \<le> 102 then Some (code c - 87)
      else if 65 \<le> code c \<and> code c \<le> 70 then Some (code c - 55)
      else None)"

text \<open>\<open>None\<close> where \<^verbatim>\<open>hex.DecodeString\<close> returns an error: a bad digit or an odd length.\<close>

fun hex_decode :: "string \<Rightarrow> byte list option" where
  "hex_decode [] = Some []"
| "hex_decode [c] = None"
| "hex_decode (c # d # s) =
     (case (from_hex_char c, from_hex_char d) of
        (Some a, Some b) \<Rightarrow> map_option ((#) (of_nat (16 * a + b))) (hex_decode s)
      | _ \<Rightarrow> None)"

definition hex_lower :: "nat \<Rightarrow> char" where
  "hex_lower n = char_of (if n < 10 then 48 + n else 87 + n)"

definition hex_upper :: "nat \<Rightarrow> char" where
  "hex_upper n = char_of (if n < 10 then 48 + n else 55 + n)"

definition hex_byte :: "byte \<Rightarrow> string" where
  "hex_byte b = [hex_lower (unat b div 16), hex_lower (unat b mod 16)]"

definition hex_encode :: "byte list \<Rightarrow> string" where
  "hex_encode bs = concat (map hex_byte bs)"

fun show_hex :: "nat \<Rightarrow> string" where
  "show_hex n = (if n < 16 then [hex_upper n] else show_hex (n div 16) @ [hex_upper (n mod 16)])"

declare show_hex.simps [simp del]

lemma show_hex_nibble [simp]: "n < 16 \<Longrightarrow> show_hex n = [hex_upper n]"
  by (subst show_hex.simps) simp

section \<open>Round trips\<close>

lemma from_hex_char_less: "from_hex_char c = Some n \<Longrightarrow> n < 16"
  by (auto simp: from_hex_char_def split: if_splits)

lemma from_hex_char_lower [simp]:
  assumes "n < 16"
  shows "from_hex_char (hex_lower n) = Some n"
proof (cases "n < 10")
  case True
  then have "code (hex_lower n) = 48 + n"
    by (simp add: hex_lower_def)
  with True show ?thesis
    by (simp add: from_hex_char_def)
next
  case False
  with assms have "code (hex_lower n) = 87 + n"
    by (simp add: hex_lower_def)
  with False assms show ?thesis
    by (simp add: from_hex_char_def)
qed

lemma from_hex_char_upper [simp]:
  assumes "n < 16"
  shows "from_hex_char (hex_upper n) = Some n"
proof (cases "n < 10")
  case True
  then have "code (hex_upper n) = 48 + n"
    by (simp add: hex_upper_def)
  with True show ?thesis
    by (simp add: from_hex_char_def)
next
  case False
  with assms have "code (hex_upper n) = 55 + n"
    by (simp add: hex_upper_def)
  with False assms show ?thesis
    by (simp add: from_hex_char_def)
qed

lemma from_hex_char_upper_char [simp]: "from_hex_char (upper_char c) = from_hex_char c"
proof (cases "97 \<le> code c \<and> code c \<le> 122")
  case True
  then obtain k where k: "code c = 97 + k"
    using le_Suc_ex by blast
  with True have "code (upper_char c) = 65 + k"
    by (simp add: code_upper_char)
  moreover from k True have "k \<le> 25"
    by simp
  ultimately show ?thesis
    using k by (simp add: from_hex_char_def)
next
  case False
  then show ?thesis
    by (simp only: upper_char_def if_False)
qed
lemma hex_upper_inj:
  assumes "m < 16" and "n < 16" and "hex_upper m = hex_upper n"
  shows "m = n"
proof -
  have "Some m = from_hex_char (hex_upper m)"
    using assms(1) by (rule from_hex_char_upper [symmetric])
  also have "\<dots> = Some n"
    unfolding assms(3) using assms(2) by (rule from_hex_char_upper)
  finally show ?thesis
    by (rule option.inject [THEN iffD1])
qed

lemma from_hex_char_visible: "from_hex_char c = Some n \<Longrightarrow> visible c"
  by (auto simp: from_hex_char_def visible_def split: if_splits)

fun dec_hex_byte :: "string \<Rightarrow> (byte \<times> string) option" where
  "dec_hex_byte (c # d # s) =
     (case (from_hex_char c, from_hex_char d) of
        (Some a, Some b) \<Rightarrow> Some (of_nat (16 * a + b), s)
      | _ \<Rightarrow> None)"
| "dec_hex_byte _ = None"

lemma dec_hex_byte: "dec_hex_byte (hex_byte b @ s) = Some (b, s)"
  by (simp add: hex_byte_def)

interpretation hexdigits: stream_codec hex_byte dec_hex_byte "\<lambda>_. True"
  by unfold_locales (rule dec_hex_byte)

lemma hex_decode_read_n: "read_n dec_hex_byte n s = Some (bs, []) \<Longrightarrow> hex_decode s = Some bs"
proof (induction n arbitrary: s bs)
  case (Suc n)
  then show ?case
    by (cases s rule: hex_decode.cases) (auto split: option.splits)
qed simp

lemma hex_decode_encode [simp]: "hex_decode (hex_encode bs) = Some bs"
proof (rule hex_decode_read_n)
  show "read_n dec_hex_byte (length bs) (hex_encode bs) = Some (bs, [])"
    using hexdigits.read_n_enc [of bs "[]"] by (simp add: hex_encode_def list_all_iff)
qed

lemma hex_encode_inj: "hex_encode a = hex_encode b \<Longrightarrow> a = b"
  using hex_decode_encode by (metis option.inject)

lemma hex_decode_length: "hex_decode s = Some bs \<Longrightarrow> length s = 2 * length bs"
proof (induction s arbitrary: bs rule: hex_decode.induct)
  case (3 c d s)
  then show ?case
    by (auto split: option.splits)
qed auto

lemma hex_decode_upper: "hex_decode (map upper_char s) = hex_decode s"
  by (induction s rule: hex_decode.induct) (auto split: option.splits)

lemma hex_decode_visible: "hex_decode s = Some bs \<Longrightarrow> list_all visible s"
proof (induction s arbitrary: bs rule: hex_decode.induct)
  case (3 c d s)
  then show ?case
    by (auto split: option.splits dest: from_hex_char_visible)
qed auto

lemma hex_decode_trim: "hex_decode s = Some bs \<Longrightarrow> trim_space s = s"
  by (cases "s = []") (auto intro!: trim_space_id dest!: hex_decode_visible simp: list_all_iff)

lemma hex_decode_ascii: "hex_decode s = Some bs \<Longrightarrow> to_upper s = map upper_char s"
  by (rule to_upper_ascii) (fastforce dest!: hex_decode_visible simp: list_all_iff visible_def)

lemma hex_decode_to_upper: "hex_decode s = Some bs \<Longrightarrow> hex_decode (to_upper s) = Some bs"
  using hex_decode_ascii hex_decode_upper by metis

lemma length_hex_encode [simp]: "length (hex_encode bs) = 2 * length bs"
  using hex_decode_length hex_decode_encode by blast

end
