(* ===== verification/Pdu.thy ===== *)
theory Pdu
  imports Hex
begin

text \<open>
  The PDU half of \<^verbatim>\<open>main.go\<close>: decoding an SMS-SUBMIT PDU, the destination allowlist, and the
  redaction of numbers in logs.
\<close>

section \<open>Decoding\<close>

record pduInfo =
  phone :: string
  dcs :: nat
  atLength :: nat
  mr :: nat

datatype pdu_error = BadHex | Truncated

text \<open>
  The body of \<^verbatim>\<open>decodeSubmitPDU\<close> after the hex decoding; \<open>None\<close> is a panic, which the deferred
  \<^verbatim>\<open>recover\<close> turns into the error. The slice of the address digits may in Go run past the length
  up to the capacity, but the read of the DCS behind it is checked against the length and
  panics then, so the outcome is the same.
\<close>

definition swap_nibbles :: "byte list \<Rightarrow> string" where
  "swap_nibbles bs =
     concat (map (\<lambda>b. show_hex (unat (and b 0x0F)) @ show_hex (unat (drop_bit 4 b))) bs)"

definition decode_fields :: "byte list \<Rightarrow> pduInfo option" where
  "decode_fields p = do {
     p0 \<leftarrow> go_at p 0;
     let i = unat p0 + 1;
     let i = i + 2;
     daLen \<leftarrow> map_option unat (go_at p i);
     let i = i + 2;
     let nb = (daLen + 1) div 2;
     da \<leftarrow> go_slice p i (i + nb);
     let digits = swap_nibbles da;
     let digits = (if length digits > daLen then take daLen digits else digits);
     let i = i + nb;
     d \<leftarrow> go_at p (i + 1);
     m \<leftarrow> go_at p (unat p0 + 2);
     Some \<lparr>phone = digits, dcs = unat d, atLength = length p - 1 - unat p0, mr = unat m\<rparr>
   }"

definition decodeSubmitPDU :: "string \<Rightarrow> pdu_error + pduInfo" where
  "decodeSubmitPDU pduHex =
     (case hex_decode (trim_space pduHex) of
        None \<Rightarrow> Inl BadHex
      | Some p \<Rightarrow> (case decode_fields p of None \<Rightarrow> Inl Truncated | Some info \<Rightarrow> Inr info))"

section \<open>The PDU it decodes\<close>

text \<open>
  The layout of an SMS-SUBMIT PDU (3GPP TS 23.040) as the specification: SMSC header, first octet,
  message reference, destination address as swapped semi-octets padded with F, PID, DCS, and
  whatever follows.
\<close>

fun semi_octets :: "nat list \<Rightarrow> byte list" where
  "semi_octets [] = []"
| "semi_octets [a] = [of_nat (a + 16 * 15)]"
| "semi_octets (a # b # ds) = of_nat (a + 16 * b) # semi_octets ds"

record submit =
  smsc :: "byte list"
  first_octet :: byte
  msg_ref :: byte
  ton_npi :: byte
  dest :: "nat list"
  proto_id :: byte
  coding :: byte
  user_data :: "byte list"

definition submit_ok :: "submit \<Rightarrow> bool" where
  "submit_ok m \<longleftrightarrow> length (smsc m) < 256 \<and> length (dest m) < 256 \<and> list_all (\<lambda>d. d < 16) (dest m)"

definition tpdu :: "submit \<Rightarrow> byte list" where
  "tpdu m = [first_octet m, msg_ref m, of_nat (length (dest m)), ton_npi m]
     @ semi_octets (dest m) @ [proto_id m, coding m] @ user_data m"

definition submit_bytes :: "submit \<Rightarrow> byte list" where
  "submit_bytes m = of_nat (length (smsc m)) # smsc m @ tpdu m"

lemma length_semi_octets [simp]: "length (semi_octets ds) = (length ds + 1) div 2"
  by (induction ds rule: semi_octets.induct) auto

lemma unat_low_nibble: "unat (and (b :: byte) 0x0F) = unat b mod 16"
proof -
  have "and b 0x0F = take_bit 4 b"
    by (simp add: take_bit_eq_mask mask_eq_exp_minus_1)
  then show ?thesis
    by (simp add: unsigned_take_bit_eq take_bit_eq_mod unat_mod_distrib)
qed

lemma unat_high_nibble: "unat (drop_bit 4 (b :: byte)) = unat b div 16"
  by (simp add: unsigned_drop_bit_eq drop_bit_eq_div take_bit_eq_mod unat_div_distrib)

lemma swap_nibbles_Nil [simp]: "swap_nibbles [] = []"
  by (simp add: swap_nibbles_def)

lemma swap_nibbles_Cons [simp]:
  "swap_nibbles (b # bs) = hex_upper (unat b mod 16) # hex_upper (unat b div 16) # swap_nibbles bs"
  by (simp add: swap_nibbles_def unat_low_nibble unat_high_nibble)

lemma length_swap_nibbles [simp]: "length (swap_nibbles bs) = 2 * length bs"
  by (induction bs) auto

lemma swap_nibbles_semi_octets:
  "list_all (\<lambda>d. d < 16) ds \<Longrightarrow> take (length ds) (swap_nibbles (semi_octets ds)) = map hex_upper ds"
proof (induction ds rule: semi_octets.induct)
  case (3 a b ds)
  then have "a < 16" and "b < 16"
    by simp_all
  then have "(a + 16 * b) mod 16 = a" and "(a + 16 * b) div 16 = b"
    by simp_all
  with 3 show ?case
    by (simp add: unat_nibbles)
next
  case (2 a)
  then have "a < 16"
    by simp
  then have "(a + 16 * 15) mod 16 = a"
    by (simp only: mod_mult_self2 mod_less)
  with 2 show ?case
    using unat_nibbles [of a 15] by simp
qed simp

text \<open>The decoder reads every field of a well-formed PDU.\<close>

lemma decode_fields_submit:
  assumes "submit_ok m"
  shows "decode_fields (submit_bytes m) =
    Some \<lparr>phone = map hex_upper (dest m), dcs = unat (coding m),
          atLength = length (tpdu m), mr = unat (msg_ref m)\<rparr>"
proof -
  let ?k = "length (smsc m)" and ?n = "length (dest m)"
  let ?p = "submit_bytes m"
  have k: "unat (of_nat ?k :: byte) = ?k" and n: "unat (of_nat ?n :: byte) = ?n"
    using assms by (auto simp: submit_ok_def unat_of_nat)
  have p: "?p = (of_nat ?k # smsc m @ [first_octet m, msg_ref m, of_nat ?n, ton_npi m])
      @ semi_octets (dest m) @ [proto_id m, coding m] @ user_data m"
    by (simp add: submit_bytes_def tpdu_def)
  have p0: "go_at ?p 0 = Some (of_nat ?k)" and m: "go_at ?p (?k + 2) = Some (msg_ref m)"
    and da: "go_at ?p (?k + 3) = Some (of_nat ?n)"
    and d: "go_at ?p (?k + 5 + (?n + 1) div 2 + 1) = Some (coding m)"
    by (auto simp: p go_at_def nth_append nth_Cons')
  have "go_slice ?p (?k + 5) (?k + 5 + (?n + 1) div 2) = Some (semi_octets (dest m))"
    unfolding p by (rule go_slice_middle) simp_all
  moreover have "take ?n (swap_nibbles (semi_octets (dest m))) = map hex_upper (dest m)"
    using assms by (intro swap_nibbles_semi_octets) (simp add: submit_ok_def)
  moreover have "length ?p - 1 - ?k = length (tpdu m)"
    by (simp add: submit_bytes_def)
  ultimately show ?thesis
    using p0 m da d k n
      by (simp add: decode_fields_def Let_def add.assoc del: One_nat_def add_2_eq_Suc add_2_eq_Suc')
qed

text \<open>
  When the decoder succeeds: the PDU is long enough for the SMSC header, the address it announces,
  and the DCS behind it. The fields are then read at the offsets of the layout.
\<close>

definition address_bytes :: "byte list \<Rightarrow> byte list" where
  "address_bytes p =
     take ((unat (p ! (unat (p ! 0) + 3)) + 1) div 2) (drop (unat (p ! 0) + 5) p)"

definition complete_pdu :: "byte list \<Rightarrow> bool" where
  "complete_pdu p \<longleftrightarrow>
     p \<noteq> [] \<and> unat (p ! 0) + 3 < length p
     \<and> unat (p ! 0) + 5 + (unat (p ! (unat (p ! 0) + 3)) + 1) div 2 + 1 < length p"

lemma decode_fields_complete:
  assumes "complete_pdu p"
  shows "decode_fields p = Some
    \<lparr>phone = take (unat (p ! (unat (p ! 0) + 3))) (swap_nibbles (address_bytes p)),
     dcs = unat (p ! (unat (p ! 0) + 5 + (unat (p ! (unat (p ! 0) + 3)) + 1) div 2 + 1)),
     atLength = length p - 1 - unat (p ! 0), mr = unat (p ! (unat (p ! 0) + 2))\<rparr>"
proof -
  let ?k = "unat (p ! 0)"
  let ?n = "unat (p ! (?k + 3))"
  have "go_at p 0 = Some (p ! 0)" and "go_at p (?k + 3) = Some (p ! (?k + 3))"
    and "go_at p (?k + 2) = Some (p ! (?k + 2))"
    and "go_at p (?k + 5 + (?n + 1) div 2 + 1) = Some (p ! (?k + 5 + (?n + 1) div 2 + 1))"
    and "go_slice p (?k + 5) (?k + 5 + (?n + 1) div 2) = Some (address_bytes p)"
    using assms by (auto simp: complete_pdu_def go_at_def go_slice_def address_bytes_def)
  then show ?thesis
    by (simp add: decode_fields_def Let_def add.assoc del: One_nat_def add_2_eq_Suc add_2_eq_Suc')
qed

lemma decode_fields_incomplete: "\<not> complete_pdu p \<Longrightarrow> decode_fields p = None"
  by (auto simp: decode_fields_def complete_pdu_def Let_def go_at_def numeral_eq_Suc
      split: Option.bind_splits if_splits)

lemma decode_fields_iff: "decode_fields p \<noteq> None \<longleftrightarrow> complete_pdu p"
  using decode_fields_complete decode_fields_incomplete by fastforce

lemma length_address_bytes:
  "complete_pdu p \<Longrightarrow> length (address_bytes p) = (unat (p ! (unat (p ! 0) + 3)) + 1) div 2"
  by (auto simp: complete_pdu_def address_bytes_def)

lemma decodeSubmitPDU_Inr:
  "decodeSubmitPDU s = Inr info \<longleftrightarrow>
   (\<exists>p. hex_decode (trim_space s) = Some p \<and> complete_pdu p \<and> decode_fields p = Some info)"
  using decode_fields_iff by (fastforce simp: decodeSubmitPDU_def split: option.splits)

lemma decodeSubmitPDU_nonempty: "decodeSubmitPDU s = Inr info \<Longrightarrow> s \<noteq> []"
  by (auto simp: decodeSubmitPDU_Inr complete_pdu_def trim_space_id)

section \<open>The destination allowlist\<close>

definition normalizeMSISDN :: "string \<Rightarrow> string" where
  "normalizeMSISDN s = filter is_digit s"

text \<open>\<open>allowTo\<close> is the value of the flag, the result the global \<^verbatim>\<open>allowedDest\<close>.\<close>

definition parseAllowList :: "string \<Rightarrow> string list" where
  "parseAllowList allowTo =
     filter (\<lambda>n. n \<noteq> []) (map normalizeMSISDN (split_on CHR '','' allowTo))"

definition destinationAllowed :: "string list \<Rightarrow> string \<Rightarrow> bool" where
  "destinationAllowed allowedDest p \<longleftrightarrow>
     (if allowedDest = [] then True
      else list_ex (\<lambda>a. a = normalizeMSISDN p) allowedDest)"

lemma normalizeMSISDN_digits: "list_all is_digit (normalizeMSISDN s)"
  by (simp add: normalizeMSISDN_def list_all_iff)

lemma normalizeMSISDN_id: "list_all is_digit s \<Longrightarrow> normalizeMSISDN s = s"
  by (simp add: normalizeMSISDN_def list_all_iff filter_id_conv)

lemma normalizeMSISDN_idem [simp]: "normalizeMSISDN (normalizeMSISDN s) = normalizeMSISDN s"
  using normalizeMSISDN_digits by (rule normalizeMSISDN_id)

lemma parseAllowList_normal:
  "a \<in> set (parseAllowList s) \<Longrightarrow> a \<noteq> [] \<and> list_all is_digit a"
  using normalizeMSISDN_digits by (auto simp: parseAllowList_def)

lemma destinationAllowed_iff:
  "destinationAllowed ds p \<longleftrightarrow> ds = [] \<or> normalizeMSISDN p \<in> set ds"
  by (auto simp: destinationAllowed_def list_ex_iff)

section \<open>Redaction\<close>

text \<open>The ellipsis of \<^verbatim>\<open>redact\<close> as its three UTF-8 bytes.\<close>

definition ellipsis :: string where
  "ellipsis = [CHR 0xE2, CHR 0x80, CHR 0xA6]"

definition redact :: "string \<Rightarrow> string" where
  "redact s =
     (if length s \<le> 6 then ellipsis
      else take 4 s @ ellipsis @ drop (length s - 2) s)"

definition redactOrNil :: "string \<Rightarrow> string option" where
  "redactOrNil s = (if s = [] then None else Some (redact s))"

definition ifStr :: "bool \<Rightarrow> string \<Rightarrow> string \<Rightarrow> string" where
  "ifStr cond a b = (if cond then a else b)"

definition oneLine :: "string \<Rightarrow> string" where
  "oneLine s = trim_space (replace_all (replace_all s (CHR 0x0D) '' '') (CHR 0x0A) '' '')"

lemma length_redact: "length (redact s) = (if length s \<le> 6 then 3 else 9)"
  by (simp add: redact_def ellipsis_def)

text \<open>
  A redacted number says no more than its first four and last two characters, and nothing of a
  number of up to six: two numbers that agree there are redacted to the same string.
\<close>

lemma redact_hides:
  "redact s = redact t \<longleftrightarrow>
     (length s \<le> 6 \<and> length t \<le> 6) \<or>
     (6 < length s \<and> 6 < length t \<and> take 4 s = take 4 t
      \<and> drop (length s - 2) s = drop (length t - 2) t)"
proof (cases "length s \<le> 6 \<longleftrightarrow> length t \<le> 6")
  case True
  then show ?thesis
    by (auto simp: redact_def append_eq_append_conv)
next
  case False
  then have "length (redact s) \<noteq> length (redact t)"
    by (auto simp: length_redact)
  with False show ?thesis
    by auto
qed

lemma oneLine_no_breaks: "CHR 0x0D \<notin> set (oneLine s) \<and> CHR 0x0A \<notin> set (oneLine s)"
proof -
  have "set (oneLine s) \<subseteq> set (replace_all (replace_all s (CHR 0x0D) '' '') (CHR 0x0A) '' '')"
    unfolding oneLine_def by (rule trim_space_set)
  also have "\<dots> \<subseteq> {CHR '' ''} \<union> ({CHR '' ''} \<union> (set s - {CHR 0x0D}) - {CHR 0x0A})"
    using set_replace_all [of s "CHR 0x0D" "'' ''"]
      set_replace_all [of "replace_all s (CHR 0x0D) '' ''" "CHR 0x0A" "'' ''"] by auto
  finally show ?thesis
    by auto
qed

section \<open>Properties\<close>

text \<open>The PDU that \<^verbatim>\<open>dryRunCMGS\<close> stores, and the README posts: one character to +380912345678.\<close>

definition testPDU :: string where
  "testPDU = ''0001000C9183902143658700000141''"

definition test_submit :: submit where
  "test_submit = \<lparr>smsc = [], first_octet = 0x01, msg_ref = 0, ton_npi = 0x91,
     dest = [3, 8, 0, 9, 1, 2, 3, 4, 5, 6, 7, 8], proto_id = 0, coding = 0, user_data = [0x01, 0x41]\<rparr>"

text \<open>C2: \<^verbatim>\<open>decodeSubmitPDU\<close> inverts the SMS-SUBMIT layout. For every well-formed message, written in lower
  or upper case hex, it returns the destination digits in order, the DCS, the message reference
  and the length \<open>AT+CMGS\<close> wants: the TPDU without the SMSC header.\<close>

theorem decodeSubmitPDU_submit:
  assumes "submit_ok m"
  shows "decodeSubmitPDU (hex_encode (submit_bytes m)) =
      Inr \<lparr>phone = map hex_upper (dest m), dcs = unat (coding m),
           atLength = length (tpdu m), mr = unat (msg_ref m)\<rparr>
    \<and> decodeSubmitPDU (to_upper (hex_encode (submit_bytes m))) =
      decodeSubmitPDU (hex_encode (submit_bytes m))"
proof -
  have "hex_decode (to_upper (hex_encode (submit_bytes m))) = Some (submit_bytes m)"
    by (rule hex_decode_to_upper) simp
  then show ?thesis
    using assms hex_decode_trim [OF hex_decode_encode]
    by (simp add: decodeSubmitPDU_def decode_fields_submit hex_decode_trim)
qed

theorem decodeSubmitPDU_submit_witness:
  "submit_ok test_submit \<and> to_upper (hex_encode (submit_bytes test_submit)) = testPDU
   \<and> decodeSubmitPDU testPDU = Inr \<lparr>phone = ''380912345678'', dcs = 0, atLength = 14, mr = 0\<rparr>"
proof -
  have ok: "submit_ok test_submit"
    by (simp add: submit_ok_def test_submit_def)
  have hex: "to_upper (hex_encode (submit_bytes test_submit)) = testPDU"
    by code_simp
  have "map hex_upper (dest test_submit) = ''380912345678''" and "length (tpdu test_submit) = 14"
    and "unat (coding test_submit) = 0" and "unat (msg_ref test_submit) = 0"
    by code_simp+
  with decodeSubmitPDU_submit [OF ok] ok hex show ?thesis
    by simp
qed

text \<open>C26: The outcome of \<^verbatim>\<open>decodeSubmitPDU\<close> on every input: text that is not hex after trimming is one error, a
  PDU that ends before its DCS the other, and every complete PDU is decoded at the offsets its own
  length bytes give; no input panics out of the function.\<close>

theorem decodeSubmitPDU_outcome:
  "decodeSubmitPDU s =
     (case hex_decode (trim_space s) of
        None \<Rightarrow> Inl BadHex
      | Some p \<Rightarrow>
          if complete_pdu p
          then Inr \<lparr>phone = take (unat (p ! (unat (p ! 0) + 3))) (swap_nibbles (address_bytes p)),
                    dcs = unat (p ! (unat (p ! 0) + 5 + length (address_bytes p) + 1)),
                    atLength = length p - 1 - unat (p ! 0), mr = unat (p ! (unat (p ! 0) + 2))\<rparr>
          else Inl Truncated)"
  by (auto simp: decodeSubmitPDU_def decode_fields_complete decode_fields_incomplete length_address_bytes
      split: option.splits)

text \<open>Bounds on a decoded PDU: at most 255 address digits, each a hex digit, byte-sized DCS and message
  reference, and a length for \<open>AT+CMGS\<close> that covers the fixed fields and the address.\<close>

theorem decodeSubmitPDU_bounds:
  assumes "decodeSubmitPDU s = Inr info"
  shows "length (phone info) \<le> 255 \<and> list_all (\<lambda>c. from_hex_char c \<noteq> None) (phone info)
    \<and> dcs info < 256 \<and> mr info < 256 \<and> 6 + (length (phone info) + 1) div 2 \<le> atLength info
    \<and> 2 * (atLength info + 1) \<le> length s"
proof -
  obtain p where p: "hex_decode (trim_space s) = Some p" "complete_pdu p" "decode_fields p = Some info"
    using assms decodeSubmitPDU_Inr by blast
  have nibbles: "list_all (\<lambda>c. from_hex_char c \<noteq> None) (swap_nibbles bs)" for bs
    by (induction bs) simp_all
  let ?n = "unat (p ! (unat (p ! 0) + 3))"
  have n: "?n < 256"
    by (rule unat_byte_less)
  have info: "phone info = take ?n (swap_nibbles (address_bytes p))"
      "dcs info < 256" "mr info < 256" "atLength info = length p - 1 - unat (p ! 0)"
    using p decode_fields_complete [OF p(2)] by auto
  have len: "length (phone info) = ?n"
    using info(1) length_address_bytes [OF p(2)] by simp
  then have "length (phone info) \<le> 255"
    using n by linarith
  moreover have "list_all (\<lambda>c. from_hex_char c \<noteq> None) (phone info)"
    using nibbles [of "address_bytes p"] info(1) by (auto simp: list_all_iff dest: in_set_takeD)
  moreover have "6 + (length (phone info) + 1) div 2 \<le> atLength info"
    using p(2) len info(4) by (auto simp: complete_pdu_def)
  moreover have "2 * (atLength info + 1) \<le> length s"
    using hex_decode_length [OF p(1)] length_trim_space [of s] info(4) p(2)
    by (auto simp: complete_pdu_def)
  ultimately show ?thesis
    using info by blast
qed

lemma decode_submit:
  assumes "submit_ok m"
  shows "decodeSubmitPDU (hex_encode (submit_bytes m)) =
      Inr \<lparr>phone = map hex_upper (dest m), dcs = unat (coding m),
           atLength = length (tpdu m), mr = unat (msg_ref m)\<rparr>"
  using assms hex_decode_trim [OF hex_decode_encode]
  by (simp add: decodeSubmitPDU_def decode_fields_submit)

lemma decode_testPDU: "decodeSubmitPDU testPDU = Inr \<lparr>phone = ''380912345678'', dcs = 0, atLength = 14, mr = 0\<rparr>"
  by code_simp

theorem decodeSubmitPDU_bounds_witness:
  "decodeSubmitPDU testPDU = Inr \<lparr>phone = ''380912345678'', dcs = 0, atLength = 14, mr = 0\<rparr>
   \<and> 6 + (length ''380912345678'' + 1) div 2 \<le> (14 :: nat)"
proof -
  show ?thesis
    using decode_testPDU decodeSubmitPDU_bounds [OF decode_testPDU] by simp
qed

text \<open>C33: With a number in the list, the allowlist admits a decimal destination exactly when it is a listed
  number, whatever punctuation the flag was written with; the empty list admits everything.\<close>

theorem allowlist_decimal:
  assumes "list_all is_digit p"
  shows "destinationAllowed (parseAllowList flag) p \<longleftrightarrow>
    parseAllowList flag = [] \<or> (\<exists>e \<in> set (split_on CHR '','' flag). normalizeMSISDN e = p \<and> p \<noteq> [])"
  using assms by (auto simp: destinationAllowed_iff normalizeMSISDN_id parseAllowList_def)

theorem allowlist_decimal_witness:
  "destinationAllowed (parseAllowList ''+380 91 234-56-78, 112'') ''112''
   \<and> \<not> destinationAllowed (parseAllowList ''+380 91 234-56-78, 112'') ''113''"
proof -
  have "list_all is_digit ''112''" and "list_all is_digit ''113''"
    by (simp_all add: is_digit_def)
  from this [THEN allowlist_decimal, of "''+380 91 234-56-78, 112''"] show ?thesis
    by (simp add: parseAllowList_def normalizeMSISDN_def is_digit_def)
qed

text \<open>The allowlist compares only decimal digits, so it admits destinations that are not listed: an address
  with the semi-octet A (the star key) between the digits of a listed number is decoded with that
  digit, passes the list, and is sent as it stands.\<close>

theorem allowlist_skips_nondecimal:
  "\<exists>pdu info. decodeSubmitPDU pdu = Inr info
     \<and> phone info \<notin> set (parseAllowList ''380912345678'')
     \<and> destinationAllowed (parseAllowList ''380912345678'') (phone info)"
proof -
  have "decodeSubmitPDU ''0001000D9183901A325476F80000'' =
      Inr \<lparr>phone = ''3809A12345678'', dcs = 0, atLength = 13, mr = 0\<rparr>"
    and "''3809A12345678'' \<notin> set (parseAllowList ''380912345678'')"
    and "destinationAllowed (parseAllowList ''380912345678'') ''3809A12345678''"
    by code_simp+
  then show ?thesis
    by force
qed

text \<open>A flag without a single digit leaves the list empty, and the relay then sends to every destination.\<close>

theorem allowlist_fails_open:
  assumes "list_all (\<lambda>c. \<not> is_digit c) flag"
  shows "destinationAllowed (parseAllowList flag) p"
proof -
  have "normalizeMSISDN e = []" if "e \<in> set (split_on CHR '','' flag)" for e
    using set_split_on [OF that] assms by (auto simp: normalizeMSISDN_def list_all_iff filter_empty_conv)
  then show ?thesis
    by (auto simp: destinationAllowed_def parseAllowList_def filter_empty_conv)
qed

theorem allowlist_fails_open_witness: "destinationAllowed (parseAllowList ''none'') ''112''"
proof (rule allowlist_fails_open)
  show "list_all (\<lambda>c. \<not> is_digit c) ''none''"
    by (simp add: is_digit_def)
qed

text \<open>What a log may show of a number: two numbers are redacted alike exactly when they share the first
  four and last two characters, or both have at most six.\<close>

theorem redact_reveals:
  "redact s = redact t \<longleftrightarrow>
     (length s \<le> 6 \<and> length t \<le> 6) \<or>
     (6 < length s \<and> 6 < length t \<and> take 4 s = take 4 t
      \<and> drop (length s - 2) s = drop (length t - 2) t)"
  by (rule redact_hides)

end
