(* ===== verification/Json.thy ===== *)
theory Json
  imports Hex
begin

text \<open>
  \<^verbatim>\<open>json.Unmarshal\<close> as the relay uses it, to decode the webhook's body, the requests of the WebSocket
  server and the identity file: a document is checked and read into a \<open>json\<close> value, then stored into
  the fields of a struct. The first part follows the scanner of \<^verbatim>\<open>encoding/json\<close> (its grammar, the
  nesting limit, the unquoting of strings), the second its rules for struct fields: names match up to
  case folding, \<^verbatim>\<open>null\<close> leaves a plain field as it was, a value of the wrong type is an error.
\<close>

section \<open>Values\<close>

text \<open>The parts of a number's literal: sign, digits, fraction with its point, exponent with its letter.\<close>

record number =
  negative :: bool
  digits :: string
  fraction :: string
  exponent :: string

datatype json =
  Null
| Bool bool
| Number number
| Text string
| Array "json list"
| Object "(string \<times> json) list"

section \<open>Strings\<close>

text \<open>\<^verbatim>\<open>utf8.EncodeRune\<close> of a code point that is no surrogate.\<close>

definition utf8_encode :: "nat \<Rightarrow> string" where
  "utf8_encode n = map char_of
     (if n < 0x80 then [n]
      else if n < 0x800 then [0xC0 + n div 64, 0x80 + n mod 64]
      else if n < 0x10000 then [0xE0 + n div 4096, 0x80 + n div 64 mod 64, 0x80 + n mod 64]
      else [0xF0 + n div 262144, 0x80 + n div 4096 mod 64, 0x80 + n div 64 mod 64, 0x80 + n mod 64])"

definition replacement :: string where "replacement = map char_of [0xEF, 0xBF, 0xBD :: nat]"

definition tail_byte :: "nat \<Rightarrow> bool" where
  "tail_byte b \<longleftrightarrow> 0x80 \<le> b \<and> b \<le> 0xBF"

text \<open>The UTF-8 sequences, and the length of the one a string starts with, 0 if it starts with none.\<close>

definition utf8_seq :: "nat list \<Rightarrow> bool" where
  "utf8_seq bs =
     (case bs of
        [a] \<Rightarrow> a < 0x80
      | [a, b] \<Rightarrow> 0xC2 \<le> a \<and> a \<le> 0xDF \<and> tail_byte b
      | [a, b, c] \<Rightarrow>
          0xE0 \<le> a \<and> a \<le> 0xEF \<and> tail_byte b \<and> tail_byte c \<and> (a = 0xE0 \<longrightarrow> 0xA0 \<le> b) \<and> (a = 0xED \<longrightarrow> b \<le> 0x9F)
      | [a, b, c, d] \<Rightarrow>
          0xF0 \<le> a \<and> a \<le> 0xF4 \<and> tail_byte b \<and> tail_byte c \<and> tail_byte d
          \<and> (a = 0xF0 \<longrightarrow> 0x90 \<le> b) \<and> (a = 0xF4 \<longrightarrow> b \<le> 0x8F)
      | _ \<Rightarrow> False)"

definition seq_size :: "nat \<Rightarrow> nat" where
  "seq_size a = (if a < 0x80 then 1 else if a < 0xE0 then 2 else if a < 0xF0 then 3 else 4)"

definition utf8_len :: "string \<Rightarrow> nat" where
  "utf8_len s =
     (case s of
        [] \<Rightarrow> 0
      | c # _ \<Rightarrow> if utf8_seq (map code (take (seq_size (code c)) s)) then seq_size (code c) else 0)"

text \<open>The four hex digits after \<^verbatim>\<open>\u\<close>.\<close>

definition hex4 :: "string \<Rightarrow> (nat \<times> string) option" where
  "hex4 s =
     (case map from_hex_char (take 4 s) of
        [Some a, Some b, Some c, Some d] \<Rightarrow> Some (4096 * a + 256 * b + 16 * c + d, drop 4 s)
      | _ \<Rightarrow> None)"

text \<open>A surrogate is joined with the low surrogate escaped right after it, or replaced.\<close>

definition utf16_escape :: "nat \<Rightarrow> string \<Rightarrow> string \<times> string" where
  "utf16_escape n r =
     (if n < 0xD800 \<or> 0xE000 \<le> n then (utf8_encode n, r)
      else case (if take 2 r = [CHR 0x5C, CHR ''u''] then hex4 (drop 2 r) else None) of
          None \<Rightarrow> (replacement, r)
        | Some (m, q) \<Rightarrow>
            if n < 0xDC00 \<and> 0xDC00 \<le> m \<and> m < 0xE000
            then (utf8_encode (0x10000 + 1024 * (n - 0xD800) + (m - 0xDC00)), q)
            else (replacement, r))"

text \<open>What follows a backslash: the bytes it stands for and the rest.\<close>

definition scan_escape :: "string \<Rightarrow> (string \<times> string) option" where
  "scan_escape s =
     (case s of
        [] \<Rightarrow> None
      | e # r \<Rightarrow>
          if e \<in> {CHR 0x22, CHR 0x5C, CHR ''/''} then Some ([e], r)
          else if e = CHR ''b'' then Some ([CHR 8], r)
          else if e = CHR ''f'' then Some ([CHR 12], r)
          else if e = CHR ''n'' then Some ([CHR 10], r)
          else if e = CHR ''r'' then Some ([CHR 13], r)
          else if e = CHR ''t'' then Some ([CHR 9], r)
          else if e = CHR ''u'' then map_option (\<lambda>(n, r). utf16_escape n r) (hex4 r)
          else None)"

lemma hex4_shorter: "hex4 s = Some (n, r) \<Longrightarrow> length r < length s"
  by (cases s) (auto simp: hex4_def split: list.splits option.splits)

lemma utf16_escape_shorter: "length (snd (utf16_escape n r)) \<le> length r"
  by (auto simp: utf16_escape_def split: option.split dest: hex4_shorter)

lemma scan_escape_shorter: "scan_escape s = Some (w, r) \<Longrightarrow> length r < length s"
proof -
  have "length r < length t" if u: "map_option (\<lambda>(n, r). utf16_escape n r) (hex4 t) = Some (w, r)" for t
  proof -
    obtain n q where q: "hex4 t = Some (n, q)" and "utf16_escape n q = (w, r)"
      using u by (cases "hex4 t") auto
    then show ?thesis
      using hex4_shorter [OF q] utf16_escape_shorter [of n q] by simp
  qed
  then show "scan_escape s = Some (w, r) \<Longrightarrow> length r < length s"
    by (fastforce simp: scan_escape_def split: list.splits if_splits)
qed

text \<open>
  The string after its opening quote, unquoted, and what follows the closing one. Control characters
  are errors; bytes that are no UTF-8 become U+FFFD.
\<close>

function scan_string :: "string \<Rightarrow> (string \<times> string) option" where
  "scan_string s =
     (case s of
        [] \<Rightarrow> None
      | c # t \<Rightarrow>
          if c = CHR 0x22 then Some ([], t)
          else if c = CHR 0x5C then
            (case scan_escape t of
               None \<Rightarrow> None
             | Some (w, r) \<Rightarrow> map_option (apfst ((@) w)) (scan_string r))
          else if code c < 0x20 then None
          else if utf8_len s = 0 then map_option (apfst ((@) replacement)) (scan_string t)
          else map_option (apfst ((@) (take (utf8_len s) s))) (scan_string (drop (utf8_len s) s)))"
  by pat_completeness auto
termination
  by (relation "measure length") (auto dest: scan_escape_shorter)

declare scan_string.simps [simp del]

lemma scan_string_simps [simp]:
  "scan_string [] = None"
  "scan_string (CHR 0x22 # t) = Some ([], t)"
  "scan_string (CHR 0x5C # t) =
     (case scan_escape t of None \<Rightarrow> None | Some (w, r) \<Rightarrow> map_option (apfst ((@) w)) (scan_string r))"
  by (simp_all add: scan_string.simps [of "_ # _"] scan_string.simps [of "[]"])

lemma scan_string_other:
  "c \<noteq> CHR 0x22 \<Longrightarrow> c \<noteq> CHR 0x5C \<Longrightarrow> scan_string (c # t) =
     (if code c < 0x20 then None
      else if utf8_len (c # t) = 0 then map_option (apfst ((@) replacement)) (scan_string t)
      else map_option (apfst ((@) (take (utf8_len (c # t)) (c # t)))) (scan_string (drop (utf8_len (c # t)) (c # t))))"
  by (simp add: scan_string.simps [of "_ # _"])

lemma scan_string_shorter: "scan_string s = Some (w, r) \<Longrightarrow> length r < length s"
proof (induction s arbitrary: w r rule: scan_string.induct)
  case (1 s)
  show ?case
  proof (cases s)
    case (Cons c t)
    consider "c = CHR 0x22" | "c = CHR 0x5C" | "c \<noteq> CHR 0x22" "c \<noteq> CHR 0x5C"
      by blast
    then show ?thesis
    proof cases
      case 1
      with "1.prems" Cons show ?thesis
        by simp
    next
      case 2
      then obtain u q v where esc: "scan_escape t = Some (u, q)" and "scan_string q = Some (v, r)"
        using "1.prems" Cons by (auto split: option.splits)
      then show ?thesis
        using "1.IH"(1) [OF Cons _ 2 esc refl] Cons 2 scan_escape_shorter [OF esc] by fastforce
    next
      case 3
      then show ?thesis
        using "1.IH"(2,3) [OF Cons 3] "1.prems" Cons
        by (fastforce simp: scan_string_other split: if_splits)
    qed
  qed (use "1.prems" in simp)
qed

section \<open>Numbers\<close>

definition starts :: "char set \<Rightarrow> string \<Rightarrow> bool" where
  "starts cs s \<longleftrightarrow> s \<noteq> [] \<and> hd s \<in> cs"

definition scan_fraction :: "string \<Rightarrow> (string \<times> string) option" where
  "scan_fraction s =
     (if starts {CHR ''.''} s
      then let ds = takeWhile is_digit (tl s) in
           if ds = [] then None else Some (hd s # ds, dropWhile is_digit (tl s))
      else Some ([], s))"

definition scan_exponent :: "string \<Rightarrow> (string \<times> string) option" where
  "scan_exponent s =
     (if starts {CHR ''e'', CHR ''E''} s
      then let n = (if starts {CHR ''+'', CHR ''-''} (tl s) then 2 else 1);
               ds = takeWhile is_digit (drop n s) in
           if ds = [] then None else Some (take n s @ ds, dropWhile is_digit (drop n s))
      else Some ([], s))"

definition scan_number :: "string \<Rightarrow> (number \<times> string) option" where
  "scan_number s =
     (let neg = starts {CHR ''-''} s; t = (if neg then tl s else s);
          k = (if starts {CHR ''0''} t then 1 else length (takeWhile is_digit t)) in
      if k = 0 then None
      else do {
        (f, r) \<leftarrow> scan_fraction (drop k t);
        (e, r) \<leftarrow> scan_exponent r;
        Some (\<lparr>negative = neg, digits = take k t, fraction = f, exponent = e\<rparr>, r)
      })"

lemma scan_fraction_suffix: "scan_fraction s = Some (f, r) \<Longrightarrow> s = f @ r"
  by (cases s) (auto simp: scan_fraction_def starts_def Let_def split: if_splits)

lemma scan_exponent_suffix: "scan_exponent s = Some (e, r) \<Longrightarrow> s = e @ r"
proof -
  have "take n t @ takeWhile is_digit (drop n t) @ dropWhile is_digit (drop n t) = t" for n t
    by simp
  then show "scan_exponent s = Some (e, r) \<Longrightarrow> s = e @ r"
    by (auto simp: scan_exponent_def Let_def simp del: takeWhile_dropWhile_id split: if_splits)
qed

text \<open>The literal of a number.\<close>

definition number_text :: "number \<Rightarrow> string" where
  "number_text n = (if negative n then ''-'' else []) @ digits n @ fraction n @ exponent n"

lemma scan_number_text:
  assumes "scan_number s = Some (n, r)"
  shows "s = number_text n @ r" and "digits n \<noteq> []"
proof -
  define neg where "neg = starts {CHR ''-''} s"
  define t where "t = (if neg then tl s else s)"
  define k where "k = (if starts {CHR ''0''} t then 1 else length (takeWhile is_digit t))"
  have run: "scan_number s = (if k = 0 then None else do {
        (f, r) \<leftarrow> scan_fraction (drop k t);
        (e, r) \<leftarrow> scan_exponent r;
        Some (\<lparr>negative = neg, digits = take k t, fraction = f, exponent = e\<rparr>, r)
      })"
    by (simp only: scan_number_def Let_def k_def t_def neg_def)
  then have k: "k \<noteq> 0"
    using assms by (rule_tac notI) simp
  then obtain f q e where f: "scan_fraction (drop k t) = Some (f, q)" and e: "scan_exponent q = Some (e, r)"
    and n: "n = \<lparr>negative = neg, digits = take k t, fraction = f, exponent = e\<rparr>"
    using assms unfolding run by (auto simp: bind_eq_Some_conv split: prod.splits)
  have "s = (if neg then ''-'' else []) @ t"
    by (cases s) (auto simp: starts_def neg_def t_def)
  moreover have "t = take k t @ f @ e @ r"
    using scan_fraction_suffix [OF f] scan_exponent_suffix [OF e] append_take_drop_id [of k t] by metis
  ultimately show "s = number_text n @ r"
    by (auto simp: number_text_def n)
  show "digits n \<noteq> []"
    using k by (auto simp: n k_def starts_def split: if_splits)
qed

lemma scan_number_shorter:
  assumes "scan_number s = Some (n, r)"
  shows "length r < length s"
  using scan_number_text [OF assms] by (auto simp: number_text_def)

section \<open>Documents\<close>

definition is_blank :: "char \<Rightarrow> bool" where
  "is_blank c \<longleftrightarrow> c \<in> {CHR '' '', CHR 0x09, CHR 0x0D, CHR 0x0A}"

abbreviation skip :: "string \<Rightarrow> string" where "skip \<equiv> dropWhile is_blank"

definition scan_literal :: "string \<Rightarrow> (json \<times> string) option" where
  "scan_literal s =
     (if take 4 s = ''true'' then Some (Bool True, drop 4 s)
      else if take 5 s = ''false'' then Some (Bool False, drop 5 s)
      else if take 4 s = ''null'' then Some (Null, drop 4 s)
      else map_option (apfst Number) (scan_number s))"

lemma scan_literal_shorter: "scan_literal s = Some (v, r) \<Longrightarrow> length r < length s"
  by (cases s) (auto simp: scan_literal_def split: if_splits dest: scan_number_shorter)

lemma length_skip: "length (skip s) \<le> length s"
  by (rule length_dropWhile_le)

lemma length_tl_skip: "length (tl (skip s)) \<le> length s"
  using length_skip [of s] by simp

lemma length_skip_tl_skip: "length (skip (tl (skip s))) \<le> length s"
  using length_skip [of "tl (skip s)"] length_tl_skip [of s] by linarith

text \<open>
  A value, the rest of an array after its bracket and a first look ahead, the rest of an object. The first
  argument is how many arrays and objects are open. The recursion goes on only where the inner value
  has consumed something; \<open>scan_elements_eq\<close> and \<open>scan_members_eq\<close> below show that it always has.
\<close>

definition max_depth :: int where "max_depth = 10000"

function scan_value :: "int \<Rightarrow> string \<Rightarrow> (json \<times> string) option"
  and scan_elements :: "int \<Rightarrow> string \<Rightarrow> (json list \<times> string) option"
  and scan_members :: "int \<Rightarrow> string \<Rightarrow> ((string \<times> json) list \<times> string) option" where
  "scan_value d s =
     (case s of
        [] \<Rightarrow> None
      | c # t \<Rightarrow>
          if c = CHR 0x22 then map_option (apfst Text) (scan_string t)
          else if c = CHR ''['' then
            if max_depth \<le> d then None
            else if starts {CHR '']''} (skip t) then Some (Array [], tl (skip t))
            else map_option (apfst Array) (scan_elements (d + 1) (skip t))
          else if c = CHR ''{'' then
            if max_depth \<le> d then None
            else if starts {CHR ''}''} (skip t) then Some (Object [], tl (skip t))
            else map_option (apfst Object) (scan_members (d + 1) (skip t))
          else scan_literal s)"
| "scan_elements d s =
     (case scan_value d s of
        None \<Rightarrow> None
      | Some (v, r) \<Rightarrow>
          if starts {CHR '']''} (skip r) then Some ([v], tl (skip r))
          else if starts {CHR '',''} (skip r) \<and> length r < length s
          then map_option (apfst ((#) v)) (scan_elements d (skip (tl (skip r))))
          else None)"
| "scan_members d s =
     (case (if starts {CHR 0x22} s then scan_string (tl s) else None) of
        None \<Rightarrow> None
      | Some (k, q) \<Rightarrow>
          if starts {CHR '':''} (skip q) then
            (case scan_value d (skip (tl (skip q))) of
               None \<Rightarrow> None
             | Some (v, r) \<Rightarrow>
                 if starts {CHR ''}''} (skip r) then Some ([(k, v)], tl (skip r))
                 else if starts {CHR '',''} (skip r) \<and> length r < length s
                 then map_option (apfst ((#) (k, v))) (scan_members d (skip (tl (skip r))))
                 else None)
          else None)"
  by pat_completeness auto

termination
proof (relation "measure (\<lambda>x. case x of Inl (d, s) \<Rightarrow> 2 * length s | Inr (Inl (d, s)) \<Rightarrow> 2 * length s + 1
    | Inr (Inr (d, s)) \<Rightarrow> 2 * length s)", goal_cases)
  case (2 d s c t)
  then show ?case
    using length_skip [of t] by simp
next
  case (3 d s c t)
  then show ?case
    using length_skip [of t] by simp
next
  case (5 d s x v r)
  then show ?case
    using length_skip_tl_skip [of r] by simp
next
  case (6 d s x k q)
  then have "length q < length s"
    by (cases s) (auto simp: starts_def split: if_splits dest: scan_string_shorter)
  then show ?case
    using length_skip_tl_skip [of q] by simp
next
  case (7 d s x k q y v r)
  then show ?case
    using length_skip_tl_skip [of r] by simp
qed simp_all

declare scan_value.simps [simp del] scan_elements.simps [simp del] scan_members.simps [simp del]

text \<open>Every scan consumes something.\<close>

definition consumes :: "('a \<times> string) option \<Rightarrow> string \<Rightarrow> bool" where
  "consumes x s \<longleftrightarrow> (\<forall>v r. x = Some (v, r) \<longrightarrow> length r < length s)"

lemma consumes_None [simp]: "consumes None s"
  by (simp add: consumes_def)

lemma consumes_Some [simp]: "consumes (Some (v, r)) s \<longleftrightarrow> length r < length s"
  by (simp add: consumes_def)

lemma consumes_map [simp]: "consumes (map_option (apfst f) x) s \<longleftrightarrow> consumes x s"
  by (cases x) (auto simp: consumes_def)

lemma consumes_longer: "consumes x t \<Longrightarrow> length t \<le> length s \<Longrightarrow> consumes x s"
  by (fastforce simp: consumes_def)

lemma scan_consumes:
  "consumes (scan_value d s) s" "consumes (scan_elements d s) s" "consumes (scan_members d s) s"
proof (induction d s and d s and d s rule: scan_value_scan_elements_scan_members.induct)
  case (1 d s)
  show ?case
  proof (cases s)
    case (Cons c t)
    have "consumes (scan_string t) (c # t)" and "consumes (scan_literal (c # t)) (c # t)"
      using scan_string_shorter [of t] scan_literal_shorter [of "c # t"] by (fastforce simp: consumes_def)+
    moreover have "length (tl (skip t)) < length (c # t)"
      using length_tl_skip [of t] by simp
    moreover have "consumes (scan_elements (d + 1) (skip t)) (c # t)"
      if "c \<noteq> CHR 0x22" "c = CHR ''[''" "\<not> max_depth \<le> d" "\<not> starts {CHR '']''} (skip t)"
      using "1"(1) [OF Cons that] by (rule consumes_longer) (simp add: length_skip le_SucI)
    moreover have "consumes (scan_members (d + 1) (skip t)) (c # t)"
      if "c \<noteq> CHR 0x22" "c \<noteq> CHR ''[''" "c = CHR ''{''" "\<not> max_depth \<le> d" "\<not> starts {CHR ''}''} (skip t)"
      using "1"(2) [OF Cons that] by (rule consumes_longer) (simp add: length_skip le_SucI)
    ultimately show ?thesis
      unfolding scan_value.simps [of d s] unfolding Cons list.case by (cases "c = CHR 0x22") (simp_all split: if_split)
  next
    case Nil
    then show ?thesis
      unfolding scan_value.simps [of d s] by simp
  qed
next
  case (2 d s)
  show ?case
  proof (cases "scan_value d s")
    case (Some x)
    obtain v r where x: "scan_value d s = Some (v, r)"
      using Some by (cases x) simp
    have r: "length r < length s"
      using "2"(1) by (simp add: x)
    have "length (tl (skip r)) < length s" and "length (skip (tl (skip r))) \<le> length s"
      using length_tl_skip [of r] length_skip_tl_skip [of r] r by linarith+
    then show ?thesis
      using "2"(2) [OF x refl] unfolding scan_elements.simps [of d s] x
      by (auto intro: consumes_longer)
  qed (simp add: scan_elements.simps [of d s])
next
  case (3 d s)
  let ?k = "if starts {CHR 0x22} s then scan_string (tl s) else None"
  show ?case
  proof (cases ?k)
    case None
    then show ?thesis
      unfolding scan_members.simps [of d s] by simp
  next
    case (Some x)
    obtain k q where k: "?k = Some (k, q)"
      using Some by (cases x) simp
    then have q: "length q < length s"
      by (cases s) (auto simp: starts_def split: if_splits dest: scan_string_shorter)
    show ?thesis
    proof (cases "starts {CHR '':''} (skip q) \<and> scan_value d (skip (tl (skip q))) \<noteq> None")
      case True
      then obtain v r where v: "scan_value d (skip (tl (skip q))) = Some (v, r)"
        by auto
      with "3"(1) [OF k refl] True have "length r < length (skip (tl (skip q)))"
        by simp
      then have "length (tl (skip r)) < length s" and "length (skip (tl (skip r))) \<le> length s"
        using length_skip_tl_skip [of q] length_tl_skip [of r] length_skip_tl_skip [of r] q by linarith+
      then show ?thesis
        using "3"(2) [OF k refl _ v refl] True unfolding scan_members.simps [of d s] k
        by (auto simp: v intro: consumes_longer)
    next
      case False
      then show ?thesis
        unfolding scan_members.simps [of d s] k
        by (cases "scan_value d (skip (tl (skip q)))") auto
    qed
  qed
qed

lemma scan_elements_eq:
  "scan_elements d s =
     (case scan_value d s of
        None \<Rightarrow> None
      | Some (v, r) \<Rightarrow>
          if starts {CHR '']''} (skip r) then Some ([v], tl (skip r))
          else if starts {CHR '',''} (skip r) then map_option (apfst ((#) v)) (scan_elements d (skip (tl (skip r))))
          else None)"
  using scan_consumes(1) [of d s] by (subst scan_elements.simps) (auto simp: consumes_def split: option.splits)

lemma scan_members_eq:
  "scan_members d s =
     (case (if starts {CHR 0x22} s then scan_string (tl s) else None) of
        None \<Rightarrow> None
      | Some (k, q) \<Rightarrow>
          if starts {CHR '':''} (skip q) then
            (case scan_value d (skip (tl (skip q))) of
               None \<Rightarrow> None
             | Some (v, r) \<Rightarrow>
                 if starts {CHR ''}''} (skip r) then Some ([(k, v)], tl (skip r))
                 else if starts {CHR '',''} (skip r)
                 then map_option (apfst ((#) (k, v))) (scan_members d (skip (tl (skip r))))
                 else None)
          else None)"
proof -
  have "length r < length s"
    if k: "(if starts {CHR 0x22} s then scan_string (tl s) else None) = Some (k, q)"
      and v: "scan_value d (skip (tl (skip q))) = Some (v, r)" for k q v r
  proof -
    have "length q < length s"
      using k by (cases s) (auto simp: starts_def split: if_splits dest: scan_string_shorter)
    moreover have "length r < length (skip (tl (skip q)))"
      using scan_consumes(1) [of d "skip (tl (skip q))"] v by (simp add: consumes_def)
    ultimately show ?thesis
      using length_skip_tl_skip [of q] by linarith
  qed
  then show ?thesis
    by (subst scan_members.simps) (auto split: option.splits)
qed

text \<open>A whole document: one value between blanks.\<close>

definition parse_json :: "string \<Rightarrow> json option" where
  "parse_json s =
     (case scan_value 0 (skip s) of
        None \<Rightarrow> None
      | Some (v, r) \<Rightarrow> if skip r = [] then Some v else None)"

section \<open>Storing into a struct\<close>

primrec decimal :: "int \<Rightarrow> string \<Rightarrow> int" where
  "decimal a [] = a"
| "decimal a (c # s) = decimal (10 * a + (int (code c) - 48)) s"

text \<open>A field of type \<^verbatim>\<open>int\<close>, 32 bits wide on the target: only an integer literal in range.\<close>

definition number_int :: "number \<Rightarrow> int option" where
  "number_int n =
     (let i = (if negative n then - decimal 0 (digits n) else decimal 0 (digits n)) in
      if fraction n = [] \<and> exponent n = [] \<and> - (2 ^ 31) \<le> i \<and> i < 2 ^ 31 then Some i else None)"

definition exponent_value :: "string \<Rightarrow> int" where
  "exponent_value e =
     (if starts {CHR ''-''} (tl e) then - decimal 0 (drop 2 e)
      else if starts {CHR ''+''} (tl e) then decimal 0 (drop 2 e)
      else decimal 0 (tl e))"

text \<open>
  A number kept as a \<^verbatim>\<open>float64\<close>, in a field of type \<^verbatim>\<open>any\<close>: an error if it rounds beyond the largest finite
  one, that is, from halfway between this and the next power of two on.
\<close>

definition float_limit :: int where "float_limit = 2 ^ 1024 - 2 ^ 970"

definition number_float :: "number \<Rightarrow> bool" where
  "number_float n =
     (let m = decimal 0 (digits n @ tl (fraction n));
          k = exponent_value (exponent n) - int (length (tl (fraction n))) in
      if 0 \<le> k then m * 10 ^ nat k < float_limit else m < float_limit * 10 ^ nat (- k))"

fun floats_ok :: "json \<Rightarrow> bool" where
  "floats_ok (Number n) = number_float n"
| "floats_ok (Array vs) = list_all floats_ok vs"
| "floats_ok (Object ms) = list_all (\<lambda>(k, v). floats_ok v) ms"
| "floats_ok v = True"

definition store_string :: "json \<Rightarrow> string \<Rightarrow> string option" where
  "store_string v old = (case v of Text s \<Rightarrow> Some s | Null \<Rightarrow> Some old | _ \<Rightarrow> None)"

definition store_int :: "json \<Rightarrow> int \<Rightarrow> int option" where
  "store_int v old = (case v of Number n \<Rightarrow> number_int n | Null \<Rightarrow> Some old | _ \<Rightarrow> None)"

text \<open>A field of type \<^verbatim>\<open>*int\<close>: \<^verbatim>\<open>null\<close> sets it to nil.\<close>

definition store_int_ptr :: "json \<Rightarrow> int option option" where
  "store_int_ptr v = (case v of Number n \<Rightarrow> map_option Some (number_int n) | Null \<Rightarrow> Some None | _ \<Rightarrow> None)"

text \<open>A field of type \<^verbatim>\<open>any\<close> takes every value whose numbers are in range; nil is \<open>Null\<close>.\<close>

definition store_any :: "json \<Rightarrow> json option" where
  "store_any v = (if floats_ok v then Some v else None)"

text \<open>
  The members of an object in order, each stored by its name; the first type error decides the result,
  and a later member of the same name overwrites.
\<close>

primrec store_members :: "(string \<Rightarrow> json \<Rightarrow> 'r \<Rightarrow> 'r option) \<Rightarrow> (string \<times> json) list \<Rightarrow> 'r \<Rightarrow> 'r option" where
  "store_members f [] r = Some r"
| "store_members f (m # ms) r =
     (case f (fst m) (snd m) r of None \<Rightarrow> None | Some r' \<Rightarrow> store_members f ms r')"

text \<open>\<^verbatim>\<open>json.Unmarshal\<close> into a struct; \<open>None\<close> is an error.\<close>

definition unmarshal :: "(string \<Rightarrow> json \<Rightarrow> 'r \<Rightarrow> 'r option) \<Rightarrow> 'r \<Rightarrow> byte list \<Rightarrow> 'r option" where
  "unmarshal f r b =
     (case parse_json (string_of_bytes b) of
        Some Null \<Rightarrow> Some r
      | Some (Object ms) \<Rightarrow> store_members f ms r
      | _ \<Rightarrow> None)"

end
