(* ===== verification/Relay_State.thy ===== *)
theory Relay_State
  imports Gate Pdu Json "HOL-Library.AList"
begin

text \<open>
  The state of the running relay that its components share: the deduplication and failure state, the
  records appended to the log (\<^verbatim>\<open>logJSON\<close> and the request log), and the send workers started with \<^verbatim>\<open>go\<close>.
  A JSON object is an association list; \<^verbatim>\<open>json.Marshal\<close> of a map sorts the keys, so their order in the
  model carries no meaning. \<open>JMicros n\<close> is a number of microseconds that the record shows divided by 1000;
  \<open>JAny v\<close> is a value a request carried, of any type.
\<close>

datatype jval = JStr string | JNum int | JMicros int | JTime int | JBool bool | JNull | JList "string list" | JAny json

type_synonym log_record = "(string \<times> jval) list"

text \<open>The state under \<^verbatim>\<open>failMu\<close>; \<open>backoffUntil = None\<close> is the zero time, which is before every instant.\<close>

record health =
  consecFails :: int
  backoffUntil :: "int option"

record job =
  job_pdu :: string
  job_len :: int
  job_base :: log_record

record relay =
  ddp :: dedup
  hlth :: health
  logs :: "log_record list"
  reqlogs :: "log_record list"
  jobs :: "job list"

definition init_relay :: relay where
  "init_relay = \<lparr>ddp = init_dedup, hlth = \<lparr>consecFails = 0, backoffUntil = None\<rparr>,
     logs = [], reqlogs = [], jobs = []\<rparr>"

definition logJSON :: "log_record \<Rightarrow> relay \<Rightarrow> relay" where
  "logJSON r st = st\<lparr>logs := logs st @ [r]\<rparr>"

definition reqLog :: "log_record \<Rightarrow> relay \<Rightarrow> relay" where
  "reqLog r st = st\<lparr>reqlogs := reqlogs st @ [r]\<rparr>"

definition spawn :: "job \<Rightarrow> relay \<Rightarrow> relay" where
  "spawn j st = st\<lparr>jobs := jobs st @ [j]\<rparr>"

definition claim :: "int \<Rightarrow> int \<Rightarrow> string \<Rightarrow> relay \<Rightarrow> bool \<times> relay" where
  "claim cooldown now pduHex st =
     (let (ok, d) = claimPDU cooldown now pduHex (ddp st) in (ok, st\<lparr>ddp := d\<rparr>))"

definition result_of :: "log_record \<Rightarrow> jval option" where
  "result_of r = map_of r ''result''"

definition jstr_opt :: "string option \<Rightarrow> jval" where
  "jstr_opt s = (case s of None \<Rightarrow> JNull | Some s \<Rightarrow> JStr s)"

lemma relay_frame [simp]:
  "ddp (logJSON r st) = ddp st" "hlth (logJSON r st) = hlth st" "jobs (logJSON r st) = jobs st"
  "logs (logJSON r st) = logs st @ [r]" "reqlogs (logJSON r st) = reqlogs st"
  "ddp (reqLog r st) = ddp st" "hlth (reqLog r st) = hlth st" "jobs (reqLog r st) = jobs st"
  "logs (reqLog r st) = logs st" "reqlogs (reqLog r st) = reqlogs st @ [r]"
  "ddp (spawn j st) = ddp st" "hlth (spawn j st) = hlth st" "jobs (spawn j st) = jobs st @ [j]"
  "logs (spawn j st) = logs st" "reqlogs (spawn j st) = reqlogs st"
  by (simp_all add: logJSON_def reqLog_def spawn_def)

lemma claim_frame [simp]:
  "hlth (snd (claim c t p st)) = hlth st" "jobs (snd (claim c t p st)) = jobs st"
  "logs (snd (claim c t p st)) = logs st" "reqlogs (snd (claim c t p st)) = reqlogs st"
  by (simp_all add: claim_def case_prod_beta)

lemma claim_ddp:
  "fst (claim c t p st) = fst (claimPDU c t p (ddp st))"
  "ddp (snd (claim c t p st)) = snd (claimPDU c t p (ddp st))"
  by (simp_all add: claim_def case_prod_beta)

end
