(* ===== verification/Front_End.thy ===== *)
theory Front_End
  imports Relay_State
begin

text \<open>
  What both front ends promise. A handler takes the instant, a request and the relay state; it may
  start one worker, and then only for a PDU that decodes, whose destination is admitted, and for
  which \<^verbatim>\<open>claimPDU\<close> was granted. The consequences for a whole sequence of requests are proved from
  these laws; the webhook and the WebSocket handler satisfy them.
\<close>

primrec handle_all :: "(int \<Rightarrow> 'r \<Rightarrow> relay \<Rightarrow> relay) \<Rightarrow> (int \<times> 'r) list \<Rightarrow> relay \<Rightarrow> relay" where
  "handle_all h [] st = st"
| "handle_all h (r # rs) st = handle_all h rs (h (fst r) (snd r) st)"

text \<open>The accepted jobs, each with the instant of its claim.\<close>

primrec accepted :: "(int \<Rightarrow> 'r \<Rightarrow> relay \<Rightarrow> relay) \<Rightarrow> (int \<times> 'r) list \<Rightarrow> relay \<Rightarrow> (int \<times> job) list" where
  "accepted h [] st = []"
| "accepted h (r # rs) st =
     (let st' = h (fst r) (snd r) st in
      (if length (jobs st') = length (jobs st) then [] else [(fst r, last (jobs st'))]) @ accepted h rs st')"

definition may_send :: "(string \<Rightarrow> bool) \<Rightarrow> job \<Rightarrow> bool" where
  "may_send allowed j \<longleftrightarrow>
     (\<exists>info. decodeSubmitPDU (job_pdu j) = Inr info \<and> allowed (phone info))"

locale front_end =
  fixes handle :: "int \<Rightarrow> 'r \<Rightarrow> relay \<Rightarrow> relay" and cool :: int and allowed :: "string \<Rightarrow> bool"
  assumes accepts: "jobs (handle now r st) = jobs st \<and> ddp (handle now r st) = ddp st
      \<or> (\<exists>j. jobs (handle now r st) = jobs st @ [j] \<and> may_send allowed j
           \<and> claimPDU cool now (job_pdu j) (ddp st) = (True, ddp (handle now r st)))"
    and keeps_health: "hlth (handle now r st) = hlth st"
begin

lemma handle_all_health: "hlth (handle_all handle rs st) = hlth st"
  by (induction rs arbitrary: st) (simp_all add: keeps_health)

lemma handle_all_jobs: "jobs (handle_all handle rs st) = jobs st @ map snd (accepted handle rs st)"
proof (induction rs arbitrary: st)
  case (Cons r rs)
  show ?case
    using accepts [of "fst r" "snd r" st] Cons by (auto simp: Let_def)
qed simp

lemma accepted_may_send: "list_all (\<lambda>a. may_send allowed (snd a)) (accepted handle rs st)"
proof (induction rs arbitrary: st)
  case (Cons r rs)
  show ?case
    using accepts [of "fst r" "snd r" st] Cons by (auto simp: Let_def)
qed simp

lemma length_accepted: "length (accepted handle rs st) \<le> length rs"
  by (induction rs arbitrary: st) (simp_all add: Let_def le_SucI)

text \<open>The accepted claims are the granted ones of their own sequence, so they keep the cooldown.\<close>

lemma accepted_granted:
  "map (map_prod id job_pdu) (accepted handle rs st)
     = granted cool (map (map_prod id job_pdu) (accepted handle rs st)) (ddp st)"
proof (induction rs arbitrary: st)
  case (Cons r rs)
  let ?st = "handle (fst r) (snd r) st"
  consider "jobs ?st = jobs st" "ddp ?st = ddp st"
    | j where "jobs ?st = jobs st @ [j]" "claimPDU cool (fst r) (job_pdu j) (ddp st) = (True, ddp ?st)"
    using accepts [of "fst r" "snd r" st] by blast
  then show ?case
  proof cases
    case 1
    with Cons [of ?st] show ?thesis
      by (simp add: Let_def)
  next
    case 2
    with Cons [of ?st] show ?thesis
      by (simp add: Let_def granted_Cons)
  qed
qed simp

lemma accepted_spaced:
  "cool \<le> max_duration \<Longrightarrow> spaced cool (map (map_prod id job_pdu) (accepted handle rs st))"
  using accepted_granted [of rs st] spaced_granted by metis

end

end
