(* ===== verification/Json_Print.thy ===== *)
theory Json_Print
  imports Json
begin

text \<open>
  JSON documents as they are written, with any white space between the tokens, and the proof that the
  relay's decoder reads back exactly what was written, up to its nesting limit.
\<close>

section \<open>Writing documents\<close>

text \<open>A reference printer: a document with the white space \<open>g\<close> between any two tokens.\<close>

definition escape :: "char \<Rightarrow> string" where
  "escape c =
     (if c = CHR 0x22 \<or> c = CHR 0x5C then [CHR 0x5C, c]
      else if code c < 0x20 then [CHR 0x5C] @ ''u00'' @ [hex_lower (code c div 16), hex_lower (code c mod 16)]
      else [c])"

definition quote :: "string \<Rightarrow> string" where
  "quote s = CHR 0x22 # concat (map escape s) @ [CHR 0x22]"

fun join :: "string \<Rightarrow> string list \<Rightarrow> string" where
  "join g [] = []"
| "join g [x] = x @ g"
| "join g (x # y # xs) = x @ g @ CHR '','' # g @ join g (y # xs)"

fun print_json :: "string \<Rightarrow> json \<Rightarrow> string" where
  "print_json g Null = ''null''"
| "print_json g (Bool b) = (if b then ''true'' else ''false'')"
| "print_json g (Number n) = number_text n"
| "print_json g (Text s) = quote s"
| "print_json g (Array vs) = CHR ''['' # g @ join g (map (print_json g) vs) @ '']''"
| "print_json g (Object ms) =
     CHR ''{'' # g @ join g (map (\<lambda>(k, v). quote k @ g @ CHR '':'' # g @ print_json g v) ms) @ ''}''"

function utf8_ok :: "string \<Rightarrow> bool" where
  "utf8_ok s = (if s = [] then True else if utf8_len s = 0 then False else utf8_ok (drop (utf8_len s) s))"
  by pat_completeness auto
termination
  by (relation "measure length") auto

declare utf8_ok.simps [simp del]

definition number_ok :: "number \<Rightarrow> bool" where
  "number_ok n \<longleftrightarrow>
     (digits n = ''0'' \<or> digits n \<noteq> [] \<and> hd (digits n) \<noteq> CHR ''0'' \<and> list_all is_digit (digits n))
   \<and> (fraction n = [] \<or> hd (fraction n) = CHR ''.'' \<and> tl (fraction n) \<noteq> [] \<and> list_all is_digit (tl (fraction n)))
   \<and> (exponent n = [] \<or> hd (exponent n) \<in> {CHR ''e'', CHR ''E''} \<and>
        (let ds = drop (if starts {CHR ''+'', CHR ''-''} (tl (exponent n)) then 2 else 1) (exponent n)
         in ds \<noteq> [] \<and> list_all is_digit ds))"

fun json_ok :: "json \<Rightarrow> bool" where
  "json_ok (Number n) = number_ok n"
| "json_ok (Text s) = utf8_ok s"
| "json_ok (Array vs) = list_all json_ok vs"
| "json_ok (Object ms) = list_all (\<lambda>(k, v). utf8_ok k \<and> json_ok v) ms"
| "json_ok v = True"

fun depth :: "json \<Rightarrow> int" where
  "depth (Array vs) = 1 + foldr max (map depth vs) 0"
| "depth (Object ms) = 1 + foldr max (map (\<lambda>(k, v). depth v) ms) 0"
| "depth v = 0"

section \<open>Reading them back\<close>

lemma utf8_len_ascii [simp]: "code c < 0x80 \<Longrightarrow> utf8_len (c # s) = 1"
  by (simp add: utf8_len_def utf8_seq_def seq_size_def)

lemma utf8_ok_Nil [simp]: "utf8_ok []"
  by (simp add: utf8_ok.simps)

lemma utf8_ok_ascii [simp]: "code c < 0x80 \<Longrightarrow> utf8_ok (c # s) \<longleftrightarrow> utf8_ok s"
  by (subst utf8_ok.simps) simp

text \<open>
  A sequence is as long as its first byte says; one of more than one byte has no ASCII character.
\<close>

lemma utf8_seq_size: "utf8_seq bs \<Longrightarrow> bs \<noteq> [] \<and> length bs = seq_size (hd bs)"
  by (auto simp: utf8_seq_def seq_size_def split: list.splits)

lemma utf8_seq_high: "utf8_seq bs \<Longrightarrow> 0x80 \<le> hd bs \<Longrightarrow> list_all (\<lambda>b. 0x80 \<le> b) bs"
  by (auto simp: utf8_seq_def tail_byte_def split: list.splits)

lemma utf8_len_seq:
  assumes "utf8_len s \<noteq> 0"
  obtains w r where "s = w @ r" and "length w = utf8_len s" and "utf8_seq (map code w)"
proof -
  obtain c t where s: "s = c # t"
    using assms by (cases s) (auto simp: utf8_len_def)
  let ?n = "seq_size (code c)"
  have seq: "utf8_seq (map code (take ?n s))" and n: "utf8_len s = ?n"
    using assms by (auto simp: s utf8_len_def split: if_splits)
  have "length (take ?n s) = ?n"
    using utf8_seq_size [OF seq] by (simp add: s hd_map hd_take seq_size_def split: if_splits)
  with seq n show ?thesis
    using that [of "take ?n s" "drop ?n s"] by simp
qed

lemma utf8_len_append:
  assumes "utf8_seq (map code w)"
  shows "utf8_len (w @ r) = length w"
proof -
  obtain c t where w: "w = c # t"
    using utf8_seq_size [OF assms] by (cases w) auto
  then have "seq_size (code c) = length w"
    using utf8_seq_size [OF assms] by simp
  then show ?thesis
    using assms by (simp add: utf8_len_def w)
qed

lemma escape_high: "list_all (\<lambda>c. 0x80 \<le> code c) w \<Longrightarrow> concat (map escape w) = w"
  by (induction w) (auto simp: escape_def)

lemma append_single: "(@) [c] = (#) c"
  by (rule ext) simp

lemma scan_string_escape:
  assumes "code c < 0x80"
  shows "scan_string (escape c @ r) = map_option (apfst ((#) c)) (scan_string r)"
proof -
  consider "c = CHR 0x22 \<or> c = CHR 0x5C" | "c \<noteq> CHR 0x22" "c \<noteq> CHR 0x5C" "code c < 0x20"
    | "c \<noteq> CHR 0x22" "c \<noteq> CHR 0x5C" "0x20 \<le> code c"
    by linarith
  then show ?thesis
  proof cases
    case 1
    then have "scan_escape (c # r) = Some ([c], r)"
      by (auto simp: scan_escape_def)
    with 1 show ?thesis
      by (auto simp: escape_def append_single)
  next
    case 2
    have zero: "from_hex_char (CHR ''0'') = Some 0"
      by (simp add: from_hex_char_def)
    have "hex4 (''00'' @ hex_lower (code c div 16) # hex_lower (code c mod 16) # r) = Some (code c, r)"
      using 2 by (simp add: hex4_def zero)
    then have "scan_escape (''u00'' @ hex_lower (code c div 16) # hex_lower (code c mod 16) # r) = Some ([c], r)"
      using 2 by (simp add: scan_escape_def utf16_escape_def utf8_encode_def)
    with 2 show ?thesis
      by (simp add: escape_def append_single)
  next
    case 3
    with assms show ?thesis
      by (simp add: escape_def scan_string_other append_single)
  qed
qed

lemma scan_string_seq:
  assumes "utf8_seq (map code w)" and "0x80 \<le> code (hd w)"
  shows "scan_string (w @ r) = map_option (apfst ((@) w)) (scan_string r)"
proof -
  obtain c t where w: "w = c # t"
    using utf8_seq_size [OF assms(1)] by (cases w) auto
  have "c \<noteq> CHR 0x22" and "c \<noteq> CHR 0x5C" and "\<not> code c < 0x20"
    using assms(2) by (auto simp: w)
  then show ?thesis
    using utf8_len_append [OF assms(1), of r] by (simp add: w scan_string_other)
qed

lemma scan_string_quote:
  "utf8_ok s \<Longrightarrow> scan_string (concat (map escape s) @ CHR 0x22 # r) = Some (s, r)"
proof (induction s rule: utf8_ok.induct)
  case (1 s)
  show ?case
  proof (cases s)
    case (Cons c t)
    show ?thesis
    proof (cases "code c < 0x80")
      case True
      with 1 Cons have "scan_string (concat (map escape t) @ CHR 0x22 # r) = Some (t, r)"
        by simp
      with Cons True show ?thesis
        by (simp add: scan_string_escape)
    next
      case False
      have len: "utf8_len s \<noteq> 0"
        using "1.prems" Cons by (auto simp: utf8_ok.simps [of "c # t"] split: if_splits)
      then obtain w q where w: "s = w @ q" "length w = utf8_len s" "utf8_seq (map code w)"
        by (rule utf8_len_seq)
      have drop: "drop (utf8_len s) s = q"
        unfolding w(2) [symmetric] by (simp add: w(1))
      have ok: "utf8_ok q"
        using "1.prems" len Cons drop by (subst (asm) utf8_ok.simps) auto
      have hd: "0x80 \<le> code (hd w)" and "w \<noteq> []"
        using w False Cons utf8_seq_size [OF w(3)] by (cases w; auto)+
      then have "concat (map escape w) = w"
        using utf8_seq_high [OF w(3)] by (intro escape_high) (simp add: hd_map list_all_iff)
      moreover have "scan_string (concat (map escape q) @ CHR 0x22 # r) = Some (q, r)"
        using "1.IH" len ok Cons unfolding drop by blast
      ultimately show ?thesis
        using scan_string_seq [OF w(3) hd] unfolding w(1) by simp
    qed
  qed simp
qed

text \<open>A string without quotes, backslashes and control characters, as a hex string, stands for itself.\<close>

definition literal_char :: "char \<Rightarrow> bool" where
  "literal_char c \<longleftrightarrow> 0x20 \<le> code c \<and> code c < 0x80 \<and> c \<noteq> CHR 0x22 \<and> c \<noteq> CHR 0x5C"

lemma literal_utf8: "list_all literal_char w \<Longrightarrow> utf8_ok w"
  by (induction w) (simp_all add: literal_char_def)

lemma literal_escape: "list_all literal_char w \<Longrightarrow> concat (map escape w) = w"
  by (induction w) (auto simp: literal_char_def escape_def)

lemma scan_string_literal: "list_all literal_char w \<Longrightarrow> scan_string (w @ CHR 0x22 # r) = Some (w, r)"
  using scan_string_quote [OF literal_utf8, of w r] by (simp add: literal_escape)

lemma hex_lower_literal:
  assumes "n < 16"
  shows "literal_char (hex_lower n)"
proof -
  have "code (hex_lower n) = (if n < 10 then 48 + n else 87 + n)"
    using assms by (simp add: hex_lower_def)
  then show ?thesis
    using assms by (auto simp: literal_char_def split: if_splits)
qed

lemma hex_encode_literal: "list_all literal_char (hex_encode b)"
  by (induction b) (simp_all add: hex_encode_def hex_byte_def hex_lower_literal)

text \<open>What may follow a number: nothing, or a character that does not continue it.\<close>

definition number_end :: "string \<Rightarrow> bool" where
  "number_end r \<longleftrightarrow> r = [] \<or> \<not> is_digit (hd r) \<and> hd r \<notin> {CHR ''.'', CHR ''e'', CHR ''E''}"

lemma digits_before:
  assumes "list_all is_digit ds" and "r = [] \<or> \<not> is_digit (hd r)"
  shows "takeWhile is_digit (ds @ r) = ds" and "dropWhile is_digit (ds @ r) = r"
  using assms by (induction ds) (cases r; auto)+

lemma scan_fraction_before:
  assumes "f = [] \<or> hd f = CHR ''.'' \<and> tl f \<noteq> [] \<and> list_all is_digit (tl f)"
    and "r = [] \<or> \<not> is_digit (hd r) \<and> hd r \<noteq> CHR ''.''"
  shows "scan_fraction (f @ r) = Some (f, r)"
proof (cases f)
  case Nil
  with assms(2) show ?thesis
    by (auto simp: scan_fraction_def starts_def)
next
  case (Cons c ds)
  with assms(1) have f: "f = CHR ''.'' # ds" "ds \<noteq> []" "list_all is_digit ds"
    by auto
  with assms(2) digits_before [of ds r] have "takeWhile is_digit (ds @ r) = ds" and "dropWhile is_digit (ds @ r) = r"
    by auto
  with f show ?thesis
    by (simp add: scan_fraction_def starts_def)
qed

lemma scan_exponent_before:
  assumes "e = [] \<or> hd e \<in> {CHR ''e'', CHR ''E''} \<and>
      (let ds = drop (if starts {CHR ''+'', CHR ''-''} (tl e) then 2 else 1) e in ds \<noteq> [] \<and> list_all is_digit ds)"
    and "number_end r"
  shows "scan_exponent (e @ r) = Some (e, r)"
proof (cases e)
  case Nil
  with assms(2) show ?thesis
    by (auto simp: scan_exponent_def starts_def number_end_def)
next
  case (Cons c t)
  let ?pm = "{CHR ''+'', CHR ''-''}"
  have c: "c = CHR ''e'' \<or> c = CHR ''E''"
    and ds: "drop (if starts ?pm t then 2 else 1) e \<noteq> []" "list_all is_digit (drop (if starts ?pm t then 2 else 1) e)"
    using assms(1) Cons by (simp_all add: Let_def)
  obtain sg ds where t: "t = sg @ ds" "ds \<noteq> []" "list_all is_digit ds" "sg = [] \<or> (\<exists>x \<in> ?pm. sg = [x])"
  proof (cases "starts ?pm t")
    case True
    then show ?thesis
      using ds Cons by (intro that [of "[hd t]" "tl t"]) (auto simp: starts_def drop_Suc numeral_2_eq_2)
  next
    case False
    then show ?thesis
      using ds Cons by (intro that [of "[]" t]) auto
  qed
  have r: "takeWhile is_digit (ds @ r) = ds" "dropWhile is_digit (ds @ r) = r"
    using digits_before [OF t(3)] assms(2) by (auto simp: number_end_def)
  have first: "starts {CHR ''e'', CHR ''E''} (c # x)" for x
    using c by (auto simp: starts_def)
  from t(4) show ?thesis
  proof
    assume "sg = []"
    moreover have "\<not> starts ?pm (ds @ r)"
      using t(2,3) by (cases ds) (auto simp: starts_def is_digit_def)
    ultimately show ?thesis
      using r t(2) first by (simp add: Cons t(1) scan_exponent_def)
  next
    assume "\<exists>x \<in> ?pm. sg = [x]"
    then obtain x where x: "x \<in> ?pm" "sg = [x]"
      by blast
    then have "starts ?pm (x # ds @ r)"
      by (simp add: starts_def)
    then show ?thesis
      using r t(2) first x(2) by (simp add: Cons t(1) scan_exponent_def)
  qed
qed

lemma scan_number_before:
  assumes "number_ok n" and "number_end r"
  shows "scan_number (number_text n @ r) = Some (n, r)"
proof -
  let ?t = "digits n @ fraction n @ exponent n @ r"
  have e: "scan_exponent (exponent n @ r) = Some (exponent n, r)"
    using assms by (intro scan_exponent_before) (simp_all add: number_ok_def)
  have ends: "exponent n @ r = [] \<or> \<not> is_digit (hd (exponent n @ r)) \<and> hd (exponent n @ r) \<noteq> CHR ''.''"
    using assms by (cases "exponent n") (auto simp: number_ok_def number_end_def is_digit_def)
  then have f: "scan_fraction (fraction n @ exponent n @ r) = Some (fraction n, exponent n @ r)"
    using assms by (intro scan_fraction_before) (simp_all add: number_ok_def)
  have rest: "fraction n @ exponent n @ r = [] \<or> \<not> is_digit (hd (fraction n @ exponent n @ r))"
  proof (cases "fraction n")
    case (Cons c u)
    then show ?thesis
      using assms(1) by (simp add: number_ok_def is_digit_def)
  qed (use ends in auto)
  have "digits n \<noteq> [] \<and> is_digit (hd (digits n))
    \<and> (if starts {CHR ''0''} ?t then 1 else length (takeWhile is_digit ?t)) = length (digits n)"
  proof (cases "digits n = ''0''")
    case False
    then have ds: "digits n \<noteq> []" "hd (digits n) \<noteq> CHR ''0''" "list_all is_digit (digits n)"
      using assms(1) by (simp_all add: number_ok_def)
    then have "\<not> starts {CHR ''0''} ?t" and "is_digit (hd (digits n))"
      by (cases "digits n"; simp add: starts_def)+
    with ds(1) digits_before(1) [OF ds(3) rest] show ?thesis
      by simp
  qed (simp add: starts_def is_digit_def)
  then have ds: "digits n \<noteq> []" "is_digit (hd (digits n))"
    and k: "(if starts {CHR ''0''} ?t then 1 else length (takeWhile is_digit ?t)) = length (digits n)"
    by blast+
  have neg: "starts {CHR ''-''} (number_text n @ r) = negative n"
    using ds by (cases "digits n") (auto simp: starts_def number_text_def is_digit_def)
  have t: "(if negative n then tl (number_text n @ r) else number_text n @ r) = ?t"
    by (simp add: number_text_def)
  show ?thesis
    unfolding scan_number_def Let_def neg t k using ds f e by simp
qed

text \<open>A printed value starts with a character that is no blank and closes nothing.\<close>

definition begins_token :: "string \<Rightarrow> bool" where
  "begins_token s \<longleftrightarrow> s \<noteq> [] \<and> \<not> is_blank (hd s) \<and> hd s \<noteq> CHR '']'' \<and> hd s \<noteq> CHR ''}''"

lemma begins_token_append: "begins_token s \<Longrightarrow> begins_token (s @ r)"
  by (cases s) (auto simp: begins_token_def)

lemma begins_token_number:
  assumes "number_ok n"
  shows "\<exists>c t. number_text n = c # t \<and> (c = CHR ''-'' \<or> is_digit c)"
proof -
  have "digits n \<noteq> [] \<and> is_digit (hd (digits n))"
    using assms by (cases "digits n") (auto simp: number_ok_def is_digit_def)
  then show ?thesis
    by (cases "digits n") (auto simp: number_text_def)
qed

lemma begins_token_print: "json_ok v \<Longrightarrow> begins_token (print_json g v)"
proof (cases v)
  case (Number n)
  then show "json_ok v \<Longrightarrow> begins_token (print_json g v)"
    using begins_token_number [of n] by (auto simp: begins_token_def is_blank_def is_digit_def)
qed (auto simp: begins_token_def is_blank_def quote_def)

lemma skip_to: "list_all is_blank g \<Longrightarrow> begins_token s \<Longrightarrow> skip (g @ s) = s"
  by (induction g) (cases s; auto simp: begins_token_def)+

lemma skip_mark: "list_all is_blank g \<Longrightarrow> \<not> is_blank c \<Longrightarrow> skip (g @ c # s) = c # s"
  by (induction g) auto

lemma skip_all: "list_all is_blank g \<Longrightarrow> skip g = []"
  by (induction g) auto

lemma number_end_mark:
  "list_all is_blank g \<Longrightarrow> c \<in> {CHR '','', CHR '']'', CHR ''}''} \<Longrightarrow> number_end (g @ c # s)"
  by (cases g) (auto simp: number_end_def is_blank_def is_digit_def)

lemma number_end_blank: "list_all is_blank g \<Longrightarrow> number_end g"
  by (cases g) (auto simp: number_end_def is_blank_def is_digit_def)

lemma starts_Cons [simp]: "starts cs (c # s) \<longleftrightarrow> c \<in> cs"
  by (simp add: starts_def)

lemma marks_not_blank [simp]:
  "\<not> is_blank (CHR '','')" "\<not> is_blank (CHR '']'')" "\<not> is_blank (CHR ''}'')" "\<not> is_blank (CHR '':'')"
  by (simp_all add: is_blank_def)

lemma join_Cons: "ws \<noteq> [] \<Longrightarrow> join g (w # ws) = w @ g @ CHR '','' # g @ join g ws"
  by (cases ws) simp_all

lemma join_begins_token: "xs \<noteq> [] \<Longrightarrow> begins_token (hd xs) \<Longrightarrow> begins_token (join g xs @ r)"
  by (cases xs; cases "tl xs") (auto intro: begins_token_append simp flip: append_assoc)

text \<open>The scan of one value between the open arrays and objects.\<close>

definition reads_back :: "string \<Rightarrow> int \<Rightarrow> json \<Rightarrow> bool" where
  "reads_back g d v \<longleftrightarrow>
     begins_token (print_json g v) \<and> (\<forall>r. number_end r \<longrightarrow> scan_value d (print_json g v @ r) = Some (v, r))"

lemma scan_elements_print:
  assumes "vs \<noteq> []" and "\<forall>v \<in> set vs. reads_back g d v" and g: "list_all is_blank g"
  shows "scan_elements d (join g (map (print_json g) vs) @ CHR '']'' # r) = Some (vs, r)"
  using assms(1,2)
proof (induction vs rule: list_nonempty_induct)
  case (single v)
  then have "scan_value d (print_json g v @ g @ CHR '']'' # r) = Some (v, g @ CHR '']'' # r)"
    using number_end_mark [OF g] by (simp add: reads_back_def)
  then show ?case
    by (subst scan_elements_eq) (simp add: skip_mark [OF g])
next
  case (cons v vs)
  let ?r = "join g (map (print_json g) vs) @ CHR '']'' # r"
  have "scan_value d (print_json g v @ g @ CHR '','' # g @ ?r) = Some (v, g @ CHR '','' # g @ ?r)"
    using cons.prems number_end_mark [OF g] by (simp add: reads_back_def)
  moreover have "begins_token ?r"
    using cons.hyps cons.prems by (intro join_begins_token) (auto simp: reads_back_def hd_map)
  ultimately show ?case
    using cons.IH cons.prems cons.hyps
    by (subst scan_elements_eq) (simp add: join_Cons skip_mark [OF g] skip_to [OF g])
qed

abbreviation member_text :: "string \<Rightarrow> string \<times> json \<Rightarrow> string" where
  "member_text g \<equiv> \<lambda>(k, v). quote k @ g @ CHR '':'' # g @ print_json g v"

lemma scan_members_print:
  assumes "ms \<noteq> []" and "\<forall>(k, v) \<in> set ms. utf8_ok k \<and> reads_back g d v" and g: "list_all is_blank g"
  shows "scan_members d (join g (map (member_text g) ms) @ CHR ''}'' # r) = Some (ms, r)"
proof -
  have member: "scan_members d (member_text g (k, v) @ q) =
      (if starts {CHR ''}''} (skip q) then Some ([(k, v)], tl (skip q))
       else if starts {CHR '',''} (skip q) then map_option (apfst ((#) (k, v))) (scan_members d (skip (tl (skip q))))
       else None)"
    if "utf8_ok k" "reads_back g d v" "number_end q" for k v q
    using that scan_string_quote [OF that(1)]
    by (subst scan_members_eq)
      (simp add: quote_def skip_mark [OF g] skip_to [OF g] begins_token_append reads_back_def)
  show ?thesis
    using assms(1,2)
  proof (induction ms rule: list_nonempty_induct)
    case (single m)
    then show ?case
      using member [of "fst m" "snd m" "g @ CHR ''}'' # r"] number_end_mark [OF g]
      by (auto simp: skip_mark [OF g] split: prod.splits)
  next
    case (cons m ms)
    let ?r = "join g (map (member_text g) ms) @ CHR ''}'' # r"
    have "begins_token (member_text g x)" for x
      by (auto simp: quote_def begins_token_def is_blank_def split: prod.splits)
    then have "begins_token ?r"
      using cons.hyps by (intro join_begins_token) (auto simp: hd_map simp del: split_paired_All)
    then show ?case
      using member [of "fst m" "snd m" "g @ CHR '','' # g @ ?r"] number_end_mark [OF g] cons
      by (auto simp: join_Cons skip_mark [OF g] skip_to [OF g] split: prod.splits)
  qed
qed

lemma foldr_max: "0 \<le> foldr max xs (0 :: int)" "x \<in> set xs \<Longrightarrow> x \<le> foldr max xs 0"
  by (induction xs) auto

lemma scan_value_print:
  assumes "list_all is_blank g"
  shows "json_ok v \<Longrightarrow> d + depth v \<le> max_depth \<Longrightarrow> reads_back g d v"
proof (induction v arbitrary: d)
  case (Number n)
  then obtain c t where c: "number_text n = c # t" "c = CHR ''-'' \<or> is_digit c"
    using begins_token_number [of n] by auto
  have "scan_literal (number_text n @ r) = Some (Number n, r)" if "number_end r" for r
    using c scan_number_before [OF _ that, of n] Number.prems
    by (auto simp: scan_literal_def is_digit_def)
  with c show ?case
    using begins_token_print [OF Number.prems(1), of g]
    by (auto simp: reads_back_def scan_value.simps is_digit_def)
next
  case (Text s)
  then show ?case
    using begins_token_print [OF Text.prems(1), of g]
    by (simp add: reads_back_def quote_def scan_value.simps scan_string_quote)
next
  case (Array vs)
  then have le: "d + 1 + foldr max (map depth vs) 0 \<le> max_depth"
    by simp
  have vs: "\<forall>v \<in> set vs. reads_back g (d + 1) v"
  proof
    fix v assume v: "v \<in> set vs"
    then have "depth v \<le> foldr max (map depth vs) 0"
      by (simp add: foldr_max)
    with le have "d + 1 + depth v \<le> max_depth"
      by linarith
    with v Array show "reads_back g (d + 1) v"
      by (auto simp: list_all_iff)
  qed
  have d: "\<not> max_depth \<le> d"
    using le foldr_max(1) [of "map depth vs"] by linarith
  show ?case
  proof (cases "vs = []")
    case True
    with d assms show ?thesis
      by (simp add: reads_back_def scan_value.simps skip_mark begins_token_def is_blank_def)
  next
    case False
    have "begins_token (join g (map (print_json g) vs) @ r)" for r
      using False vs by (intro join_begins_token) (auto simp: reads_back_def hd_map)
    then show ?thesis
      using d scan_elements_print [OF False vs assms] assms
      by (simp add: reads_back_def scan_value.simps skip_to) (simp add: begins_token_def is_blank_def starts_def)
  qed
next
  case (Object ms)
  then have le: "d + 1 + foldr max (map (\<lambda>(k, v). depth v) ms) 0 \<le> max_depth"
    by simp
  have ms: "\<forall>(k, v) \<in> set ms. utf8_ok k \<and> reads_back g (d + 1) v"
  proof clarify
    fix k v assume v: "(k, v) \<in> set ms"
    then have "depth v \<le> foldr max (map (\<lambda>(k, v). depth v) ms) 0"
      by (intro foldr_max) force
    with le have "d + 1 + depth v \<le> max_depth"
      by linarith
    moreover have "utf8_ok k" and "json_ok v"
      using Object.prems(1) v by (auto simp: list_all_iff)
    ultimately show "utf8_ok k \<and> reads_back g (d + 1) v"
      using Object.IH [OF v] by auto
  qed
  have d: "\<not> max_depth \<le> d"
    using le foldr_max(1) [of "map (\<lambda>(k, v). depth v) ms"] by linarith
  show ?case
  proof (cases "ms = []")
    case True
    with d assms show ?thesis
      by (simp add: reads_back_def scan_value.simps skip_mark begins_token_def is_blank_def)
  next
    case False
    have "begins_token (member_text g x)" for x
      by (auto simp: quote_def begins_token_def is_blank_def split: prod.splits)
    then have "begins_token (join g (map (member_text g) ms) @ r)" for r
      using False by (intro join_begins_token) (auto simp: hd_map simp del: split_paired_All)
    then show ?thesis
      using d scan_members_print [OF False ms assms] assms
      by (simp add: reads_back_def scan_value.simps skip_to) (simp add: begins_token_def is_blank_def starts_def)
  qed
qed (simp_all add: reads_back_def scan_value.simps scan_literal_def begins_token_def is_blank_def)

lemma parse_json_print:
  assumes "json_ok v" and "list_all is_blank g" and "depth v \<le> max_depth"
  shows "parse_json (g @ print_json g v @ g) = Some v"
proof -
  have "reads_back g 0 v"
    using assms by (intro scan_value_print) simp_all
  then show ?thesis
    using skip_to [OF assms(2), of "print_json g v @ g"] number_end_blank [OF assms(2)] skip_all [OF assms(2)]
    by (simp add: parse_json_def reads_back_def begins_token_append del: dropWhile_append2)
qed

text \<open>Decoding a printed object stores its members one after the other.\<close>

lemma unmarshal_print:
  assumes "json_ok (Object ms)" and "list_all is_blank g" and "depth (Object ms) \<le> max_depth"
  shows "unmarshal f r (bytes_of_string (g @ print_json g (Object ms) @ g)) = store_members f ms r"
  using parse_json_print [OF assms] by (simp add: unmarshal_def)

section \<open>What is accepted\<close>

lemma utf8_ok_seq_append: "utf8_seq (map code w) \<Longrightarrow> utf8_ok (w @ s) \<longleftrightarrow> utf8_ok s"
  using utf8_len_append [of w s] utf8_seq_size [of "map code w"] by (subst utf8_ok.simps) auto

lemma utf8_ok_append: "utf8_ok a \<Longrightarrow> utf8_ok b \<Longrightarrow> utf8_ok (a @ b)"
proof (induction a rule: utf8_ok.induct)
  case (1 s)
  show ?case
  proof (cases "s = []")
    case False
    then have len: "utf8_len s \<noteq> 0" and ok: "utf8_ok (drop (utf8_len s) s)"
      using "1.prems"(1) by (subst (asm) utf8_ok.simps; simp split: if_splits)+
    obtain w q where w: "s = w @ q" "length w = utf8_len s" "utf8_seq (map code w)"
      using len by (rule utf8_len_seq)
    then have "drop (utf8_len s) s = q"
      by (metis append_eq_conv_conj)
    then have "utf8_ok (q @ b)"
      using "1.IH" [OF False len] ok "1.prems"(2) by simp
    then show ?thesis
      unfolding w(1) by (simp add: utf8_ok_seq_append [OF w(3)])
  qed (use "1.prems" in simp)
qed

lemma code_map_char_of: "list_all (\<lambda>n. n < 256) ns \<Longrightarrow> map code (map char_of ns) = ns"
  by (induction ns) (simp_all add: code_char_of del: of_char_of)

lemma utf8_encode_seq:
  assumes "n < 0x110000" and "n < 0xD800 \<or> 0xE000 \<le> n"
  shows "utf8_seq (map code (utf8_encode n))"
proof -
  have base: "n = 64 * (n div 64) + n mod 64" "n div 64 = 64 * (n div 4096) + n div 64 mod 64"
    "n div 4096 = 64 * (n div 262144) + n div 4096 mod 64"
    using mult_div_mod_eq [of 64 n] mult_div_mod_eq [of 64 "n div 64"] mult_div_mod_eq [of 64 "n div 4096"]
    by (simp_all add: div_mult2_eq [symmetric])
  have tails: "n mod 64 < 64" "n div 64 mod 64 < 64" "n div 4096 mod 64 < 64"
    by simp_all
  then have wide: "n mod 64 < 128" "n div 64 mod 64 < 128" "n div 4096 mod 64 < 128"
    and low: "n mod 64 \<le> 63" "n div 64 mod 64 \<le> 63" "n div 4096 mod 64 \<le> 63"
    by linarith+
  consider "n < 0x80" | "0x80 \<le> n" "n < 0x800" | "0x800 \<le> n" "n < 0x10000" | "0x10000 \<le> n"
    by linarith
  then show ?thesis
  proof cases
    case 1
    then have "map code (utf8_encode n) = [n]"
      unfolding utf8_encode_def by (subst code_map_char_of) simp_all
    with 1 show ?thesis
      by (simp add: utf8_seq_def)
  next
    case 2
    have b: "0xC2 \<le> 0xC0 + n div 64" "0xC0 + n div 64 \<le> 0xDF"
      using 2 base(1) tails(1) by linarith+
    have "map code (utf8_encode n) = [0xC0 + n div 64, 0x80 + n mod 64]"
      unfolding utf8_encode_def using 2 b wide by (subst code_map_char_of) simp_all
    with b low show ?thesis
      by (simp add: utf8_seq_def tail_byte_def)
  next
    case 3
    have b: "0xE0 + n div 4096 \<le> 0xEF" "n div 4096 = 0 \<Longrightarrow> 0x20 \<le> n div 64 mod 64"
      "n div 4096 = 13 \<Longrightarrow> n div 64 mod 64 \<le> 0x1F"
      using 3 assms(2) base(1,2) tails by linarith+
    have "map code (utf8_encode n) = [0xE0 + n div 4096, 0x80 + n div 64 mod 64, 0x80 + n mod 64]"
      unfolding utf8_encode_def using 3 b(1) wide by (subst code_map_char_of) simp_all
    with b low show ?thesis
      by (simp add: utf8_seq_def tail_byte_def)
  next
    case 4
    have b: "n div 262144 \<le> 4" "n div 262144 = 0 \<Longrightarrow> 0x10 \<le> n div 4096 mod 64"
      "n div 262144 = 4 \<Longrightarrow> n div 4096 mod 64 \<le> 0xF"
      using 4 assms(1) base tails by linarith+
    have "map code (utf8_encode n)
        = [0xF0 + n div 262144, 0x80 + n div 4096 mod 64, 0x80 + n div 64 mod 64, 0x80 + n mod 64]"
      unfolding utf8_encode_def using 4 b(1) wide by (subst code_map_char_of) simp_all
    with b low show ?thesis
      by (simp add: utf8_seq_def tail_byte_def)
  qed
qed

lemma utf8_ok_encode: "n < 0x110000 \<Longrightarrow> n < 0xD800 \<or> 0xE000 \<le> n \<Longrightarrow> utf8_ok (utf8_encode n)"
  using utf8_ok_seq_append [OF utf8_encode_seq, of n "[]"] by simp

lemma utf8_ok_replacement: "utf8_ok replacement"
proof -
  have "utf8_seq (map code replacement)"
    by code_simp
  then show ?thesis
    using utf8_ok_seq_append [of replacement "[]"] by simp
qed

lemma hex4_less: "hex4 s = Some (n, r) \<Longrightarrow> n < 0x10000"
  by (fastforce simp: hex4_def split: list.splits option.splits dest: from_hex_char_less)

lemma utf16_escape_ok: "n < 0x10000 \<Longrightarrow> utf8_ok (fst (utf16_escape n r))"
  by (auto simp: utf16_escape_def utf8_ok_replacement intro!: utf8_ok_encode split: option.split)

lemma scan_escape_ok:
  assumes "scan_escape s = Some (w, r)"
  shows "utf8_ok w"
proof -
  have "utf8_ok w" if u: "map_option (\<lambda>(n, r). utf16_escape n r) (hex4 t) = Some (w, r)" for t
  proof -
    obtain n q where q: "hex4 t = Some (n, q)" and "utf16_escape n q = (w, r)"
      using u by (cases "hex4 t") auto
    then show ?thesis
      using hex4_less [OF q] utf16_escape_ok [of n q] by simp
  qed
  then show ?thesis
    using assms by (auto simp: scan_escape_def split: list.splits if_splits)
qed

lemma scan_string_ok: "scan_string s = Some (w, r) \<Longrightarrow> utf8_ok w"
proof (induction s arbitrary: w r rule: scan_string.induct)
  case (1 s)
  show ?case
  proof (cases s)
    case (Cons c t)
    consider "c = CHR 0x22" | "c = CHR 0x5C" | "c \<noteq> CHR 0x22" "c \<noteq> CHR 0x5C"
      by blast
    then show ?thesis
    proof cases
      case 1
      with "1.prems" Cons show ?thesis
        by simp
    next
      case 2
      then obtain u q v where esc: "scan_escape t = Some (u, q)" "scan_string q = Some (v, r)" "w = u @ v"
        using "1.prems" Cons by (auto split: option.splits)
      moreover from this have "utf8_ok v"
        using "1.IH"(1) [OF Cons _ 2] Cons 2 by simp
      ultimately show ?thesis
        using utf8_ok_append scan_escape_ok by blast
    next
      case 3
      have c: "\<not> code c < 0x20"
        using "1.prems" Cons 3 by (auto simp: scan_string_other)
      show ?thesis
      proof (cases "utf8_len s = 0")
        case True
        then obtain v where "scan_string t = Some (v, r)" "w = replacement @ v"
          using "1.prems" Cons 3 c by (auto simp: scan_string_other)
        then show ?thesis
          using "1.IH"(2) [OF Cons 3 c True] by (simp add: utf8_ok_append utf8_ok_replacement)
      next
        case False
        then obtain v where "scan_string (drop (utf8_len s) s) = Some (v, r)" "w = take (utf8_len s) s @ v"
          using "1.prems" Cons 3 c by (auto simp: scan_string_other)
        moreover obtain u q where u: "s = u @ q" "length u = utf8_len s" "utf8_seq (map code u)"
          using False by (rule utf8_len_seq)
        then have "take (utf8_len s) s = u"
          by (metis append_eq_conv_conj)
        ultimately show ?thesis
          using "1.IH"(3) [OF Cons 3 c False] utf8_ok_seq_append [OF u(3)] by simp
      qed
    qed
  qed (use "1.prems" in simp)
qed

lemma scan_number_ok:
  assumes "scan_number s = Some (n, r)"
  shows "number_ok n"
proof -
  define neg where "neg = starts {CHR ''-''} s"
  define t where "t = (if neg then tl s else s)"
  define k where "k = (if starts {CHR ''0''} t then 1 else length (takeWhile is_digit t))"
  have run: "scan_number s = (if k = 0 then None else do {
        (f, r) \<leftarrow> scan_fraction (drop k t);
        (e, r) \<leftarrow> scan_exponent r;
        Some (\<lparr>negative = neg, digits = take k t, fraction = f, exponent = e\<rparr>, r)
      })"
    by (simp only: scan_number_def Let_def k_def t_def neg_def)
  then have k: "k \<noteq> 0"
    using assms by (rule_tac notI) simp
  then obtain f q e where f: "scan_fraction (drop k t) = Some (f, q)" and e: "scan_exponent q = Some (e, r)"
    and n: "n = \<lparr>negative = neg, digits = take k t, fraction = f, exponent = e\<rparr>"
    using assms unfolding run by (auto simp: bind_eq_Some_conv split: prod.splits)
  have "take k t = ''0'' \<or> take k t \<noteq> [] \<and> hd (take k t) \<noteq> CHR ''0'' \<and> list_all is_digit (take k t)"
  proof (cases "starts {CHR ''0''} t")
    case True
    then have "take k t = ''0''"
      by (cases t) (auto simp: k_def starts_def)
    then show ?thesis ..
  next
    case False
    then have "take k t = takeWhile is_digit t"
      by (simp add: k_def takeWhile_eq_take [symmetric])
    with False k show ?thesis
      by (cases t) (auto simp: k_def starts_def list_all_iff dest: set_takeWhileD split: if_splits)
  qed
  moreover have "f = [] \<or> hd f = CHR ''.'' \<and> tl f \<noteq> [] \<and> list_all is_digit (tl f)"
    using f by (auto simp: scan_fraction_def starts_def Let_def list_all_iff dest: set_takeWhileD split: if_splits)
  moreover have "e = [] \<or> hd e \<in> {CHR ''e'', CHR ''E''} \<and>
      (let ds = drop (if starts {CHR ''+'', CHR ''-''} (tl e) then 2 else 1) e in ds \<noteq> [] \<and> list_all is_digit ds)"
  proof (cases "starts {CHR ''e'', CHR ''E''} q")
    case True
    let ?pm = "{CHR ''+'', CHR ''-''}"
    obtain c u where q: "q = c # u" and c: "c \<in> {CHR ''e'', CHR ''E''}"
      using True by (cases q) (auto simp: starts_def)
    define m :: nat where "m = (if starts ?pm u then 2 else 1)"
    define ds where "ds = takeWhile is_digit (drop m q)"
    have ds: "ds \<noteq> []" "e = take m q @ ds"
      using e True q unfolding m_def ds_def by (auto simp: scan_exponent_def Let_def split: if_splits)
    have digits: "list_all is_digit ds"
      by (auto simp: ds_def list_all_iff dest: set_takeWhileD)
    show ?thesis
    proof (cases "starts ?pm u")
      case True
      then obtain x v where "u = x # v" "x \<in> ?pm"
        by (cases u) (auto simp: starts_def)
      with c ds digits show ?thesis
        by (auto simp: q m_def)
    next
      case False
      then have "e = c # ds"
        using ds(2) by (simp add: m_def q)
      moreover have "\<not> starts ?pm ds"
        using ds(1) digits by (cases ds) (auto simp: is_digit_def)
      ultimately show ?thesis
        using c ds(1) digits by simp
    qed
  qed (use e in \<open>simp add: scan_exponent_def\<close>)
  ultimately show ?thesis
    by (simp add: number_ok_def n)
qed

lemma scan_literal_ok: "scan_literal s = Some (v, r) \<Longrightarrow> json_ok v \<and> depth v = 0"
  by (auto simp: scan_literal_def dest: scan_number_ok split: if_splits)

lemma foldr_max_less: "0 \<le> k \<Longrightarrow> list_all (\<lambda>x. x \<le> k) xs \<Longrightarrow> foldr max xs (0 :: int) \<le> k"
  by (induction xs) auto

definition within :: "int \<Rightarrow> json \<Rightarrow> bool" where
  "within d v \<longleftrightarrow> json_ok v \<and> d + depth v \<le> max_depth"

lemma within_Array:
  "\<not> max_depth \<le> d \<Longrightarrow> list_all (within (d + 1)) vs \<Longrightarrow> within d (Array vs)"
  using foldr_max_less [of "max_depth - d - 1" "map depth vs"]
  by (fastforce simp: within_def list_all_iff)

lemma within_Object:
  "\<not> max_depth \<le> d \<Longrightarrow> list_all (\<lambda>(k, v). utf8_ok k \<and> within (d + 1) v) ms \<Longrightarrow> within d (Object ms)"
  using foldr_max_less [of "max_depth - d - 1" "map (\<lambda>(k, v). depth v) ms"]
  by (fastforce simp: within_def list_all_iff)

lemma scan_within:
  "scan_value d s = Some (v, r) \<Longrightarrow> d \<le> max_depth \<Longrightarrow> within d v"
  "scan_elements d s = Some (vs, r) \<Longrightarrow> d \<le> max_depth \<Longrightarrow> list_all (within d) vs"
  "scan_members d s = Some (ms, r) \<Longrightarrow> d \<le> max_depth \<Longrightarrow> list_all (\<lambda>(k, v). utf8_ok k \<and> within d v) ms"
proof (induction d s and d s and d s arbitrary: v r and vs r and ms r
    rule: scan_value_scan_elements_scan_members.induct)
  case (1 d s)
  show ?case
  proof (cases s)
    case (Cons c t)
    note run = "1.prems"(1) [unfolded Cons scan_value.simps [of d "c # t"] list.case]
    consider "c = CHR 0x22" | "c = CHR ''[''" | "c = CHR ''{''" | "c \<notin> {CHR 0x22, CHR ''['', CHR ''{''}"
      by blast
    then show ?thesis
    proof cases
      case 1
      with run "1.prems"(2) show ?thesis
        by (auto simp: within_def dest: scan_string_ok)
    next
      case 2
      with run have d: "\<not> max_depth \<le> d"
        by (auto split: if_splits)
      with 2 run "1.IH"(1) [OF Cons] show ?thesis
        by (fastforce intro: within_Array split: if_splits)
    next
      case 3
      with run have d: "\<not> max_depth \<le> d"
        by (auto split: if_splits)
      with 3 run "1.IH"(2) [OF Cons] show ?thesis
        by (fastforce intro: within_Object split: if_splits)
    next
      case 4
      with run "1.prems"(2) show ?thesis
        by (auto simp: within_def dest: scan_literal_ok)
    qed
  qed (use "1.prems" in \<open>simp add: scan_value.simps\<close>)
next
  case (2 d s)
  then show ?case
    by (subst (asm) scan_elements.simps) (fastforce split: option.splits if_splits)
next
  case (3 d s)
  let ?k = "if starts {CHR 0x22} s then scan_string (tl s) else None"
  obtain k q where k: "?k = Some (k, q)" and q: "starts {CHR '':''} (skip q)"
    using "3.prems"(1) by (subst (asm) scan_members.simps) (auto split: option.splits if_splits)
  then have name: "utf8_ok k"
    by (auto dest: scan_string_ok split: if_splits)
  note run = "3.prems"(1) [unfolded scan_members.simps [of d s] k option.case prod.case if_P [OF q]]
  obtain v t where v: "scan_value d (skip (tl (skip q))) = Some (v, t)"
    using run by (auto split: option.splits)
  then have "within d v"
    using "3.IH"(1) [OF k refl q] "3.prems"(2) by blast
  moreover note run [unfolded v option.case prod.case]
  ultimately show ?case
    using "3.IH"(2) [OF k refl q v refl] "3.prems"(2) name by (auto split: if_splits)
qed

section \<open>Documents as a whole\<close>

text \<open>A document of the grammar is read as it was written: whatever white space stands between its tokens,
  whatever characters its strings hold, and nested up to ten thousand deep.\<close>

theorem parse_print_json:
  assumes "json_ok v" and "list_all is_blank g" and "depth v \<le> 10000"
  shows "parse_json (g @ print_json g v @ g) = Some v"
  using assms by (intro parse_json_print) (simp_all add: max_depth_def)

definition test_document :: json where
  "test_document = Object [(''a'', Array [Number \<lparr>negative = True, digits = ''12'', fraction = ''.50'', exponent = ''e+3''\<rparr>,
     Text [CHR 0xE2, CHR 0x82, CHR 0xAC, CHR 0x0A, CHR 0x22], Bool True, Object []]), ([], Null)]"

theorem parse_print_json_witness:
  "parse_json (CHR 0x0A # print_json [CHR 0x0A] test_document @ [CHR 0x0A]) = Some test_document"
proof -
  have "json_ok test_document" and "depth test_document \<le> 10000"
    by code_simp+
  then show ?thesis
    using parse_print_json [of test_document "[CHR 0x0A]"] by (simp add: is_blank_def)
qed

text \<open>Whatever is accepted is a document: its strings are valid UTF-8 though the input need not be, its numbers are
  literals of the grammar, and it is nested at most ten thousand deep.\<close>

theorem parse_json_ok: "case parse_json s of None \<Rightarrow> True | Some v \<Rightarrow> json_ok v \<and> depth v \<le> 10000"
  using scan_within(1) [of 0 "skip s"]
  by (auto simp: parse_json_def within_def max_depth_def split: option.split)

text \<open>What \<^verbatim>\<open>Unmarshal\<close> stores, for any invariant that each well-formed member keeps.\<close>

lemma unmarshal_invariant:
  assumes "unmarshal f r b = Some r'" and "P r"
    and "\<And>k v r r'. P r \<Longrightarrow> utf8_ok k \<Longrightarrow> json_ok v \<Longrightarrow> f k v r = Some r' \<Longrightarrow> P r'"
  shows "P r'"
proof -
  have members: "P r'" if "store_members f ms r = Some r'" "P r" "list_all (\<lambda>(k, v). utf8_ok k \<and> json_ok v) ms" for ms r
    using that
  proof (induction ms arbitrary: r)
    case (Cons m ms)
    then show ?case
      using assms(3) by (cases m) (fastforce split: option.splits)
  qed simp
  show ?thesis
    using assms(1,2) members scan_within(1) [of 0 "skip (string_of_bytes b)"]
    by (auto simp: unmarshal_def parse_json_def within_def max_depth_def split: option.splits json.splits if_splits)
qed

lemma store_string_ok: "store_string v old = Some s \<Longrightarrow> json_ok v \<Longrightarrow> utf8_ok old \<Longrightarrow> utf8_ok s"
  by (auto simp: store_string_def split: json.splits)

lemma number_int_range: "number_int n = Some i \<Longrightarrow> - (2 ^ 31) \<le> i \<and> i < 2 ^ 31"
  by (simp add: number_int_def Let_def split: if_splits)

lemma store_int_range:
  "store_int v old = Some i \<Longrightarrow> - (2 ^ 31) \<le> old \<Longrightarrow> old < 2 ^ 31 \<Longrightarrow> - (2 ^ 31) \<le> i \<and> i < 2 ^ 31"
  by (auto simp: store_int_def dest: number_int_range split: json.splits)

end
