(* ===== verification/Http.thy ===== *)
theory Http
  imports Front_End Json_Print
begin

text \<open>
  The webhook (\<^verbatim>\<open>main.go\<close>): the retry of \<^verbatim>\<open>runHTTP\<close>'s accept loop, the HTTP request that \<^verbatim>\<open>serve\<close>
  reads, the routes, the hook itself and the three diagnostic records. A connection is the string
  of the bytes that arrive before it ends or its read deadline passes.
\<close>

section \<open>The accept loop\<close>

definition accept_delay :: "int \<Rightarrow> int" where
  "accept_delay tempDelay =
     (let d = (if tempDelay = 0 then 5 * millisecond else tempDelay * 2)
      in if d > 1 * second then 1 * second else d)"

text \<open>The delay before the retry after \<open>n\<close> further errors in a row; 0 before the first.\<close>

primrec accept_errors :: "nat \<Rightarrow> int" where
  "accept_errors 0 = 0"
| "accept_errors (Suc n) = accept_delay (accept_errors n)"

lemma accept_errors_closed: "accept_errors (Suc n) = min (5 * millisecond * 2 ^ n) (1 * second)"
  by (induction n) (auto simp: accept_delay_def Let_def min_def)

interpretation accepting: retry_policy accept_errors "1 * second" 9
proof
  fix m n :: nat
  show "0 \<le> accept_errors n" and "accept_errors n \<le> 1 * second"
    by (cases n; simp add: accept_errors_closed del: accept_errors.simps(2))+
  show "accept_errors m \<le> accept_errors n" if "m \<le> n"
  proof (cases m)
    case 0
    then show ?thesis
      by (cases n) (simp_all add: accept_errors_closed del: accept_errors.simps(2))
  next
    case (Suc k)
    with that obtain l where "n = Suc l" "k \<le> l"
      by (cases n) auto
    with Suc show ?thesis
      using min_power_mono [of "5 * millisecond" k l "1 * second"]
      by (simp add: accept_errors_closed del: accept_errors.simps(2))
  qed
  show "accept_errors n = 1 * second" if late: "9 \<le> n"
  proof -
    obtain k where k: "n = Suc k" "8 \<le> k"
      using late by (cases n) auto
    have "5 * millisecond * 2 ^ 8 \<le> 5 * millisecond * 2 ^ k"
      using k(2) by (intro mult_left_mono power_increasing) auto
    with k(1) show ?thesis
      by (simp add: accept_errors_closed del: accept_errors.simps(2))
  qed
qed

section \<open>Reading a request\<close>

record config =
  secret :: string
  logURL :: bool
  reqlog :: bool
  allowedDest :: "string list"
  cooldown :: int

record request =
  rq_method :: string
  rq_path :: string
  rq_ctype :: string
  rq_body :: "byte list"
  rq_peer :: string
  rq_hdrs :: "string list"
  rq_clen :: int
  rq_bodyGot :: int
  rq_t0 :: int
  rq_tHeaders :: int
  rq_tBody :: int

text \<open>\<^verbatim>\<open>ReadString('\n')\<close>: \<open>None\<close> when the connection ends before a line does.\<close>

definition read_line :: "string \<Rightarrow> (string \<times> string) option" where
  "read_line s = map_option (\<lambda>i. (take (Suc i) s, drop (Suc i) s)) (index_byte s (CHR 0x0A))"

definition is_blank_line :: "string \<Rightarrow> bool" where
  "is_blank_line h \<longleftrightarrow> h = crlf \<or> h = [CHR 0x0A]"

definition redacted_header :: "string \<Rightarrow> bool" where
  "redacted_header k \<longleftrightarrow> to_lower k \<in> {''authorization'', ''cookie'', ''proxy-authorization''}"

text \<open>The effect of one header line: the two fields the relay uses, and the entry of the request log.\<close>

definition header_field :: "string \<Rightarrow> string \<Rightarrow> request \<Rightarrow> request" where
  "header_field k v req =
     (if equal_fold k ''Content-Length'' then req\<lparr>rq_clen := fst (atoi v)\<rparr>
      else if equal_fold k ''Content-Type'' then req\<lparr>rq_ctype := v\<rparr>
      else req)"

definition header_entry :: "string \<Rightarrow> string \<Rightarrow> string" where
  "header_entry k v = (let v = (if redacted_header k then ''<redacted>'' else v) in k @ '': '' @ v)"

definition header_line :: "bool \<Rightarrow> string \<Rightarrow> request \<Rightarrow> request" where
  "header_line rl h req =
     (case index_byte h (CHR '':'') of
        None \<Rightarrow> req
      | Some i \<Rightarrow>
          if i > 0 then
            let k = trim_space (take i h); v = trim_space (drop (Suc i) h);
                req = header_field k v req
            in if rl then req\<lparr>rq_hdrs := rq_hdrs req @ [header_entry k v]\<rparr> else req
          else req)"

lemma read_line_shorter: "read_line s = Some (h, s') \<Longrightarrow> length s' < length s"
  by (auto simp: read_line_def dest: index_byte_less)

lemma read_line_append: "CHR 0x0A \<notin> set h \<Longrightarrow> read_line (h @ CHR 0x0A # s) = Some (h @ [CHR 0x0A], s)"
  by (simp add: read_line_def index_byte_append)

function read_headers :: "bool \<Rightarrow> string \<Rightarrow> request \<Rightarrow> (request \<times> string) option" where
  "read_headers rl s req =
     (case read_line s of
        None \<Rightarrow> None
      | Some (h, s') \<Rightarrow>
          if is_blank_line h then Some (req, s') else read_headers rl s' (header_line rl h req))"
  by pat_completeness auto
termination
  by (relation "measure (\<lambda>(rl, s, req). length s)") (auto dest: read_line_shorter)

declare read_headers.simps [simp del]

lemma read_headers_None: "read_line s = None \<Longrightarrow> read_headers rl s req = None"
  by (subst read_headers.simps) simp

lemma read_headers_Some:
  "read_line s = Some (h, s') \<Longrightarrow> read_headers rl s req =
     (if is_blank_line h then Some (req, s') else read_headers rl s' (header_line rl h req))"
  by (subst read_headers.simps) simp

definition maxBody :: int where "maxBody = 65536"

text \<open>\<^verbatim>\<open>io.ReadFull\<close> into a fresh slice: a short body leaves the zeros of \<^verbatim>\<open>make\<close> in place.\<close>

definition read_body :: "string \<Rightarrow> request \<Rightarrow> request" where
  "read_body s req =
     (if rq_clen req > 0 then
        let clen = nat (if rq_clen req > maxBody then maxBody else rq_clen req);
            got = bytes_of_string (take clen s)
        in req\<lparr>rq_body := got @ replicate (clen - length got) 0, rq_bodyGot := int (length got)\<rparr>
      else req)"

text \<open>The first half of \<^verbatim>\<open>serve\<close>: \<open>None\<close> is the early return without a response.\<close>

definition read_http :: "bool \<Rightarrow> string \<Rightarrow> int \<Rightarrow> int \<Rightarrow> int \<Rightarrow> string \<Rightarrow> request option" where
  "read_http rl peer t0 tHeaders tBody conn =
     (case read_line conn of
        None \<Rightarrow> None
      | Some (line, s) \<Rightarrow>
          (case go_fields line of
             m # p # _ \<Rightarrow>
               (case read_headers rl s
                   \<lparr>rq_method = m, rq_path = p, rq_ctype = [], rq_body = [], rq_peer = peer, rq_hdrs = [],
                     rq_clen = 0, rq_bodyGot = 0, rq_t0 = t0, rq_tHeaders = 0, rq_tBody = 0\<rparr> of
                  None \<Rightarrow> None
                | Some (req, s) \<Rightarrow>
                    Some ((read_body s (req\<lparr>rq_tHeaders := tHeaders\<rparr>))\<lparr>rq_tBody := tBody\<rparr>))
           | _ \<Rightarrow> None))"

section \<open>Diagnostics\<close>

definition matchSecretPath :: "string \<Rightarrow> string \<Rightarrow> string \<Rightarrow> bool" where
  "matchSecretPath path pre sec =
     (if sec = [] then False
      else let expected = pre @ sec in if length path \<noteq> length expected then False else path = expected)"

definition logRequest :: "config \<Rightarrow> int \<Rightarrow> request \<Rightarrow> string \<Rightarrow> relay \<Rightarrow> relay" where
  "logRequest cfg now req status st =
     (if \<not> reqlog cfg then st
      else reqLog
        [(''ts'', JTime (rq_t0 req)), (''method'', JStr (rq_method req)),
         (''path'', JStr (ifStr (matchSecretPath (rq_path req) ''/hook/'' (secret cfg)) ''/hook/<secret>'' (rq_path req))),
         (''peer'', JStr (rq_peer req)), (''status'', JStr status), (''ctype'', JStr (rq_ctype req)),
         (''clen'', JNum (rq_clen req)), (''body_got'', JNum (rq_bodyGot req)),
         (''truncated'', JBool (rq_bodyGot req < rq_clen req)),
         (''ms_headers'', JMicros ((rq_tHeaders req - rq_t0 req) div 1000)),
         (''ms_body'', JMicros ((rq_tBody req - rq_tHeaders req) div 1000)),
         (''ms_total'', JMicros ((now - rq_t0 req) div 1000)), (''hdrs'', JList (rq_hdrs req))] st)"

definition logNoPDUBody :: "config \<Rightarrow> int \<Rightarrow> request \<Rightarrow> string \<Rightarrow> relay \<Rightarrow> relay" where
  "logNoPDUBody cfg now req why st =
     (if \<not> reqlog cfg then st
      else
        let b = string_of_bytes (rq_body req);
            b = (if length b > 512 then take 512 b @ ellipsis else b)
        in reqLog [(''ts'', JTime now), (''kind'', JStr ''no-pdu-body''), (''why'', JStr why),
             (''ctype'', JStr (rq_ctype req)), (''peer'', JStr (rq_peer req)), (''body'', JStr b)] st)"

definition absInt :: "int \<Rightarrow> int" where
  "absInt v = (if v < 0 then - v else v)"

text \<open>The loop of \<^verbatim>\<open>logPDUDiff\<close> from index \<open>i\<close>: how many bytes differ, and the first that does.\<close>

fun diff_loop :: "nat \<Rightarrow> string \<Rightarrow> string \<Rightarrow> int \<times> int \<Rightarrow> int \<times> int" where
  "diff_loop i (c # cur) (p # prev) (diff, first) =
     diff_loop (Suc i) cur prev
       (if c \<noteq> p then (diff + 1, if first < 0 then int i else first) else (diff, first))"
| "diff_loop i cur prev acc = acc"

definition pdu_diff :: "string \<Rightarrow> string \<Rightarrow> log_record" where
  "pdu_diff cur prev =
     (if prev = [] then [(''vs_prev'', JStr ''first PDU since start'')]
      else if cur = prev then [(''vs_prev'', JStr ''IDENTICAL to previous (likely HTTP retry)'')]
      else
        let (diff, first) = diff_loop 0 cur prev (0, -1);
            diff = diff + absInt (int (length cur) - int (length prev))
        in [(''vs_prev'', JStr ''different''), (''diff_nibbles'', JNum diff), (''first_diff_at'', JNum first),
            (''only_tp_mr'', JBool (diff \<le> 2 \<and> first \<ge> 0))])"

definition logPDUDiff :: "int \<Rightarrow> string \<Rightarrow> string \<Rightarrow> pduInfo \<Rightarrow> int \<Rightarrow> relay \<Rightarrow> relay" where
  "logPDUDiff now cur prev info since st =
     reqLog ([(''ts'', JTime now), (''kind'', JStr ''pdu-diff''), (''tp_mr'', JNum (int (mr info))),
        (''pdu_len'', JNum (int (length cur div 2))), (''dcs'', JNum (int (dcs info))),
        (''since_ms'', JNum (since div millisecond))] @ pdu_diff cur prev) st"

section \<open>The hook\<close>

text \<open>\<open>hk_type\<close> is a value of any type, nil at first.\<close>

record hookBody =
  hk_message :: string
  hk_type :: json
  hk_PDU :: string
  hk_PDULength :: int

text \<open>The fields by their JSON names, and the decoding of a request's body.\<close>

definition hook_field :: "string \<Rightarrow> json \<Rightarrow> hookBody \<Rightarrow> hookBody option" where
  "hook_field k v b =
     (if equal_fold k ''message'' then map_option (\<lambda>s. b\<lparr>hk_message := s\<rparr>) (store_string v (hk_message b))
      else if equal_fold k ''type'' then map_option (\<lambda>t. b\<lparr>hk_type := t\<rparr>) (store_any v)
      else if equal_fold k ''pdu'' then map_option (\<lambda>s. b\<lparr>hk_PDU := s\<rparr>) (store_string v (hk_PDU b))
      else if equal_fold k ''pdu_length'' then map_option (\<lambda>n. b\<lparr>hk_PDULength := n\<rparr>) (store_int v (hk_PDULength b))
      else Some b)"

definition unmarshal_hook :: "byte list \<Rightarrow> hookBody option" where
  "unmarshal_hook b = unmarshal hook_field \<lparr>hk_message = [], hk_type = Null, hk_PDU = [], hk_PDULength = 0\<rparr> b"

text \<open>The record with which \<^verbatim>\<open>handleHook\<close> ends, unless the destination was refused.\<close>

definition hook_record :: "int \<Rightarrow> request \<Rightarrow> string \<Rightarrow> string \<Rightarrow> log_record" where
  "hook_record ts req result number =
     [(''ts'', JTime ts), (''method'', JStr (rq_method req)), (''peer'', JStr (rq_peer req)),
      (''len'', JNum (int (length (rq_body req)))), (''result'', JStr result),
      (''phone'', jstr_opt (redactOrNil number))]"

definition hook_job :: "int \<Rightarrow> request \<Rightarrow> hookBody \<Rightarrow> pduInfo \<Rightarrow> job" where
  "hook_job ts req body info =
     (let tpduLen = (if hk_PDULength body = 0 then int (atLength info) else hk_PDULength body)
      in \<lparr>job_pdu = hk_PDU body, job_len = tpduLen,
          job_base = [(''ts'', JTime ts), (''peer'', JStr (rq_peer req)), (''phone'', JStr (redact (phone info))),
            (''dcs'', JNum (int (dcs info))), (''tpdu_len'', JNum tpduLen), (''type'', JAny (hk_type body))]\<rparr>)"

definition handleHook :: "config \<Rightarrow> int \<Rightarrow> request \<Rightarrow> relay \<Rightarrow> string \<times> relay" where
  "handleHook cfg now req st =
     (case unmarshal_hook (rq_body req) of
        None \<Rightarrow>
          (''200 OK'', logJSON (hook_record now req ''not-json'' []) (logNoPDUBody cfg now req ''not-json'' st))
      | Some body \<Rightarrow>
          if hk_PDU body = [] then
            (''200 OK'', logJSON (hook_record now req ''no-pdu'' []) (logNoPDUBody cfg now req ''no-pdu'' st))
          else (case decodeSubmitPDU (hk_PDU body) of
              Inl e \<Rightarrow> (''200 OK'', logJSON (hook_record now req ''bad-pdu'' []) st)
            | Inr info \<Rightarrow>
                let st = (if reqlog cfg
                          then logPDUDiff now (hk_PDU body) (lastPDU (ddp st)) info (time_since now (lastSent (ddp st))) st
                          else st) in
                if \<not> destinationAllowed (allowedDest cfg) (phone info)
                then (''200 OK'',
                  logJSON [(''ts'', JTime now), (''peer'', JStr (rq_peer req)), (''result'', JStr ''dest-refused''),
                    (''phone'', JStr (redact (phone info)))] st)
                else
                  let (sending, st) = claim (cooldown cfg) now (hk_PDU body) st;
                      st = (if sending then spawn (hook_job now req body info) st else st)
                  in (''200 OK'',
                    logJSON (hook_record now req (ifStr sending ''queued'' ''cooldown-dup'') (phone info)) st)))"

section \<open>Routes and responses\<close>

text \<open>\<open>today\<close> is the content of today's log file, if it can be read.\<close>

definition route :: "config \<Rightarrow> string option \<Rightarrow> int \<Rightarrow> request \<Rightarrow> relay \<Rightarrow> (string \<times> string) \<times> relay" where
  "route cfg today now req st =
     (if rq_path req = ''/health'' then
        if rq_method req \<noteq> ''GET'' \<and> rq_method req \<noteq> ''HEAD''
        then ((''405 Method Not Allowed'', ''method not allowed'' @ [CHR 0x0A]), st)
        else ((''200 OK'', ''ok'' @ [CHR 0x0A]), st)
      else if matchSecretPath (rq_path req) ''/hook/'' (secret cfg) then
        if rq_method req \<noteq> ''POST''
        then ((''405 Method Not Allowed'', ''method not allowed'' @ [CHR 0x0A]), st)
        else let (status, st) = handleHook cfg now req st in ((status, []), st)
      else if logURL cfg \<and> matchSecretPath (rq_path req) ''/log/'' (secret cfg) then
        if rq_method req \<noteq> ''GET''
        then ((''405 Method Not Allowed'', ''method not allowed'' @ [CHR 0x0A]), st)
        else (case today of
            Some b \<Rightarrow> ((''200 OK'', b), st)
          | None \<Rightarrow> ((''404 Not Found'', ''no log for today'' @ [CHR 0x0A]), st))
      else ((''404 Not Found'', []), st))"

definition response :: "string \<Rightarrow> string \<Rightarrow> string" where
  "response status body =
     ''HTTP/1.1 '' @ status @ crlf @ ''Content-Length: '' @ show_nat (length body) @ crlf
     @ ''Connection: close'' @ crlf @ crlf @ body"

text \<open>The instants at which \<^verbatim>\<open>serve\<close> looks at the clock.\<close>

record clocks =
  at_open :: int
  at_headers :: int
  at_body :: int
  at_hook :: int
  at_end :: int

definition serve ::
    "config \<Rightarrow> string option \<Rightarrow> clocks \<Rightarrow> string \<Rightarrow> string \<Rightarrow> relay \<Rightarrow> string option \<times> relay" where
  "serve cfg today cl peer conn st =
     (case read_http (reqlog cfg) peer (at_open cl) (at_headers cl) (at_body cl) conn of
        None \<Rightarrow> (None, st)
      | Some req \<Rightarrow>
          let ((status, body), st) = route cfg today (at_hook cl) req st
          in (Some (response status body), logRequest cfg (at_end cl) req status st))"

section \<open>Facts about the hook\<close>

lemma matchSecretPath_iff: "matchSecretPath path pre sec \<longleftrightarrow> sec \<noteq> [] \<and> path = pre @ sec"
  by (auto simp: matchSecretPath_def Let_def)

lemma log_frame [simp]:
  "ddp (logNoPDUBody cfg t req w st) = ddp st" "hlth (logNoPDUBody cfg t req w st) = hlth st"
  "jobs (logNoPDUBody cfg t req w st) = jobs st" "logs (logNoPDUBody cfg t req w st) = logs st"
  "ddp (logPDUDiff t c p i d st) = ddp st" "hlth (logPDUDiff t c p i d st) = hlth st"
  "jobs (logPDUDiff t c p i d st) = jobs st" "logs (logPDUDiff t c p i d st) = logs st"
  "ddp (logRequest cfg t req x st) = ddp st" "hlth (logRequest cfg t req x st) = hlth st"
  "jobs (logRequest cfg t req x st) = jobs st" "logs (logRequest cfg t req x st) = logs st"
  by (simp_all add: logNoPDUBody_def logPDUDiff_def logRequest_def Let_def)

text \<open>What the hook does with a request, as a verdict.\<close>

datatype verdict = NotJson | NoPdu | BadPdu | DestRefused | CooldownDup | Queued hookBody pduInfo

definition hook_verdict :: "config \<Rightarrow> int \<Rightarrow> request \<Rightarrow> dedup \<Rightarrow> verdict" where
  "hook_verdict cfg now req d =
     (case unmarshal_hook (rq_body req) of
        None \<Rightarrow> NotJson
      | Some body \<Rightarrow>
          if hk_PDU body = [] then NoPdu
          else (case decodeSubmitPDU (hk_PDU body) of
              Inl _ \<Rightarrow> BadPdu
            | Inr info \<Rightarrow>
                if \<not> destinationAllowed (allowedDest cfg) (phone info) then DestRefused
                else if fst (claimPDU (cooldown cfg) now (hk_PDU body) d) then Queued body info
                else CooldownDup))"

fun verdict_text :: "verdict \<Rightarrow> string" where
  "verdict_text NotJson = ''not-json''" | "verdict_text NoPdu = ''no-pdu''"
| "verdict_text BadPdu = ''bad-pdu''" | "verdict_text DestRefused = ''dest-refused''"
| "verdict_text CooldownDup = ''cooldown-dup''" | "verdict_text (Queued _ _) = ''queued''"

lemma handleHook_verdict:
  "let (status, st') = handleHook cfg now req st; v = hook_verdict cfg now req (ddp st) in
     status = ''200 OK'' \<and> hlth st' = hlth st
     \<and> (\<exists>r. logs st' = logs st @ [r] \<and> result_of r = Some (JStr (verdict_text v)))
     \<and> jobs st' = jobs st @ (case v of Queued body info \<Rightarrow> [hook_job now req body info] | _ \<Rightarrow> [])
     \<and> ddp st' = (case v of Queued body info \<Rightarrow> \<lparr>lastPDU = hk_PDU body, lastSent = Some now\<rparr> | _ \<Rightarrow> ddp st)"
proof (cases "unmarshal_hook (rq_body req)")
  case None
  then show ?thesis
    by (simp add: handleHook_def hook_verdict_def result_of_def hook_record_def)
next
  case (Some body)
  note um = Some
  show ?thesis
  proof (cases "hk_PDU body = [] \<or> (\<exists>e. decodeSubmitPDU (hk_PDU body) = Inl e)")
    case True
    with um show ?thesis
      by (auto simp: handleHook_def hook_verdict_def result_of_def hook_record_def)
  next
    case False
    then obtain info where info: "decodeSubmitPDU (hk_PDU body) = Inr info" and ne: "hk_PDU body \<noteq> []"
      by (cases "decodeSubmitPDU (hk_PDU body)") auto
    let ?c = "claimPDU (cooldown cfg) now (hk_PDU body) (ddp st)"
    have claimed: "snd ?c = (if fst ?c then (ddp st)\<lparr>lastPDU := hk_PDU body, lastSent := Some now\<rparr> else ddp st)"
      by (simp add: claimPDU_def)
    show ?thesis
      using um info ne claimed
      by (cases "destinationAllowed (allowedDest cfg) (phone info)"; cases "fst ?c")
        (simp_all add: handleHook_def hook_verdict_def result_of_def hook_record_def Let_def case_prod_beta
          claim_ddp ifStr_def)
  qed
qed

lemma hook_verdict_queued:
  "hook_verdict cfg now req d = Queued body info \<Longrightarrow>
     decodeSubmitPDU (hk_PDU body) = Inr info \<and> destinationAllowed (allowedDest cfg) (phone info)
     \<and> claimPDU (cooldown cfg) now (hk_PDU body) d = (True, \<lparr>lastPDU = hk_PDU body, lastSent = Some now\<rparr>)"
  by (auto simp: hook_verdict_def claimPDU_def split: option.splits sum.splits if_splits)

lemma hook_job_sel [simp]: "job_pdu (hook_job now req body info) = hk_PDU body"
  by (simp add: hook_job_def Let_def)

abbreviation hook_handler :: "config \<Rightarrow> int \<Rightarrow> request \<Rightarrow> relay \<Rightarrow> relay" where
  "hook_handler cfg \<equiv> \<lambda>now req st. snd (handleHook cfg now req st)"

interpretation hook: front_end "hook_handler cfg" "cooldown cfg" "destinationAllowed (allowedDest cfg)"
  for cfg
proof
  fix now req st
  note v = handleHook_verdict [of cfg now req st]
  show "hlth (hook_handler cfg now req st) = hlth st"
    using v by (simp add: Let_def case_prod_beta)
  show "jobs (hook_handler cfg now req st) = jobs st \<and> ddp (hook_handler cfg now req st) = ddp st
      \<or> (\<exists>j. jobs (hook_handler cfg now req st) = jobs st @ [j]
           \<and> may_send (destinationAllowed (allowedDest cfg)) j
           \<and> claimPDU (cooldown cfg) now (job_pdu j) (ddp st) = (True, ddp (hook_handler cfg now req st)))"
  proof (cases "hook_verdict cfg now req (ddp st)")
    case (Queued body info)
    with v hook_verdict_queued [OF Queued] show ?thesis
      by (auto simp: Let_def case_prod_beta may_send_def)
  qed (use v in \<open>simp_all add: Let_def case_prod_beta\<close>)
qed

section \<open>Facts about reading\<close>

lemma header_field_frame [simp]:
  "rq_method (header_field k v req) = rq_method req" "rq_path (header_field k v req) = rq_path req"
  "rq_body (header_field k v req) = rq_body req" "rq_bodyGot (header_field k v req) = rq_bodyGot req"
  "rq_peer (header_field k v req) = rq_peer req" "rq_t0 (header_field k v req) = rq_t0 req"
  "rq_hdrs (header_field k v req) = rq_hdrs req"
  by (simp_all add: header_field_def)

lemma header_line_frame [simp]:
  "rq_method (header_line rl h req) = rq_method req" "rq_path (header_line rl h req) = rq_path req"
  "rq_body (header_line rl h req) = rq_body req" "rq_bodyGot (header_line rl h req) = rq_bodyGot req"
  "rq_peer (header_line rl h req) = rq_peer req" "rq_t0 (header_line rl h req) = rq_t0 req"
  by (simp_all add: header_line_def Let_def split: option.split)

text \<open>The loop over the headers, for any property that a line preserves.\<close>

lemma read_headers_invariant:
  assumes "read_headers rl s req = Some (req', s')" and "P req" and "\<And>rl h req. P req \<Longrightarrow> P (header_line rl h req)"
  shows "P req'"
  using assms(1,2)
proof (induction rl s req rule: read_headers.induct)
  case (1 rl s req)
  show ?case
  proof (cases "read_line s")
    case None
    with "1.prems"(1) show ?thesis
      by (simp add: read_headers_None)
  next
    case (Some p)
    then obtain h t where p: "read_line s = Some (h, t)"
      by (cases p) auto
    show ?thesis
    proof (cases "is_blank_line h")
      case True
      with "1.prems" show ?thesis
        by (simp add: read_headers_Some [OF p])
    next
      case False
      with "1.prems"(1) have "read_headers rl t (header_line rl h req) = Some (req', s')"
        by (simp add: read_headers_Some [OF p])
      then show ?thesis
        by (rule "1.IH" [OF p refl False]) (rule assms(3) [OF "1.prems"(2)])
    qed
  qed
qed

lemma read_headers_frame:
  assumes "read_headers rl s req = Some (req', s')"
  shows "rq_method req' = rq_method req \<and> rq_path req' = rq_path req \<and> rq_body req' = rq_body req
     \<and> rq_bodyGot req' = rq_bodyGot req \<and> rq_peer req' = rq_peer req \<and> rq_t0 req' = rq_t0 req"
  by (rule read_headers_invariant [OF assms, where P = "\<lambda>r. rq_method r = rq_method req \<and> rq_path r = rq_path req
      \<and> rq_body r = rq_body req \<and> rq_bodyGot r = rq_bodyGot req \<and> rq_peer r = rq_peer req \<and> rq_t0 r = rq_t0 req"])
    simp_all

definition entries_of :: "string list \<Rightarrow> bool" where
  "entries_of es \<longleftrightarrow> list_all (\<lambda>e. \<exists>k v. e = header_entry k v) es"

lemma header_line_entries: "entries_of (rq_hdrs req) \<Longrightarrow> entries_of (rq_hdrs (header_line rl h req))"
  by (auto simp: header_line_def entries_of_def Let_def split: option.split)

lemma read_headers_entries:
  "read_headers rl s req = Some (req', s') \<Longrightarrow> entries_of (rq_hdrs req) \<Longrightarrow> entries_of (rq_hdrs req')"
  by (rule read_headers_invariant [where P = "\<lambda>r. entries_of (rq_hdrs r)"]) (auto intro: header_line_entries)

section \<open>A request as a client writes it\<close>

text \<open>Names are visible and have no colon; values may contain spaces, but not around them.\<close>

definition good_header :: "string \<times> string \<Rightarrow> bool" where
  "good_header h \<longleftrightarrow>
     fst h \<noteq> [] \<and> list_all visible (fst h) \<and> CHR '':'' \<notin> set (fst h)
     \<and> snd h \<noteq> [] \<and> visible (hd (snd h)) \<and> visible (last (snd h)) \<and> CHR 0x0A \<notin> set (snd h)"

definition header_text :: "string \<times> string \<Rightarrow> string" where
  "header_text h = fst h @ '': '' @ snd h @ crlf"

definition http_text :: "string \<Rightarrow> string \<Rightarrow> (string \<times> string) list \<Rightarrow> byte list \<Rightarrow> string" where
  "http_text m p hs body =
     m @ '' '' @ p @ '' HTTP/1.1'' @ crlf @ concat (map header_text hs)
     @ header_text (''Content-Length'', show_nat (length body)) @ crlf @ string_of_bytes body"

lemma visible_no_LF: "list_all visible s \<Longrightarrow> CHR 0x0A \<notin> set s"
  by (auto simp: list_all_iff visible_def)

lemma header_line_text:
  assumes "good_header (k, v)"
  shows "header_line rl (header_text (k, v)) req =
    (let req = header_field k v req in if rl then req\<lparr>rq_hdrs := rq_hdrs req @ [header_entry k v]\<rparr> else req)"
proof -
  have i: "index_byte (header_text (k, v)) (CHR '':'') = Some (length k)"
    using assms index_byte_append [of "CHR '':''" k "'' '' @ v @ crlf"]
    by (simp add: header_text_def good_header_def)
  have k: "trim_space k = k"
    using assms trim_space_padded [of k "[]" "[]"] by (simp add: good_header_def list_all_iff)
  have v: "trim_space ('' '' @ v @ crlf) = v"
    using assms by (intro trim_space_padded) (simp_all add: good_header_def crlf_def)
  show ?thesis
    using assms k v unfolding header_line_def i by (simp add: header_text_def good_header_def)
qed

lemma read_line_header:
  assumes "good_header h"
  shows "read_line (header_text h @ s) = Some (header_text h, s)" and "\<not> is_blank_line (header_text h)"
proof -
  have "CHR 0x0A \<notin> set (fst h @ '': '' @ snd h @ [CHR 0x0D])"
    using assms visible_no_LF [of "fst h"] by (simp add: good_header_def)
  from read_line_append [OF this, of s] show "read_line (header_text h @ s) = Some (header_text h, s)"
    by (simp add: header_text_def crlf_def)
  show "\<not> is_blank_line (header_text h)"
    using assms by (cases "fst h") (auto simp: is_blank_line_def header_text_def good_header_def crlf_def visible_def)
qed

lemma read_headers_text:
  "list_all good_header hs \<Longrightarrow>
     read_headers rl (concat (map header_text hs) @ crlf @ s) req = Some (fold (header_line rl \<circ> header_text) hs req, s)"
proof (induction hs arbitrary: req)
  case Nil
  have "read_line (crlf @ s) = Some (crlf, s)"
    using read_line_append [of "[CHR 0x0D]" s] by (simp add: crlf_def)
  then show ?case
    by (simp add: read_headers_Some is_blank_line_def)
next
  case (Cons h hs)
  then show ?case
    using read_line_header [of h] by (simp add: read_headers_Some [OF read_line_header(1)])
qed

lemma good_content_length: "good_header (''Content-Length'', show_nat n)"
proof -
  have "list_all visible (show_nat n)"
    using show_nat_digits by (force simp: list_all_iff visible_def is_digit_def)
  then have "visible (hd (show_nat n))" "visible (last (show_nat n))" "CHR 0x0A \<notin> set (show_nat n)"
    using hd_in_set [OF show_nat_nonempty] last_in_set [OF show_nat_nonempty] visible_no_LF
    by (auto simp: list_all_iff)
  then show ?thesis
    by (simp add: good_header_def visible_def)
qed

lemma header_field_content_length:
  assumes "n \<le> int_max"
  shows "header_field ''Content-Length'' (show_nat n) req = req\<lparr>rq_clen := int n\<rparr>"
proof -
  have "equal_fold ''Content-Length'' ''Content-Length''"
    by code_simp
  with assms show ?thesis
    by (simp add: header_field_def atoi_show_nat)
qed

lemma fold_header_frame:
  "rq_method (fold (header_line rl \<circ> header_text) hs req) = rq_method req"
  "rq_path (fold (header_line rl \<circ> header_text) hs req) = rq_path req"
  "rq_bodyGot (fold (header_line rl \<circ> header_text) hs req) = rq_bodyGot req"
  "rq_body (fold (header_line rl \<circ> header_text) hs req) = rq_body req"
  by (induction hs arbitrary: req) simp_all

lemma bytes_of_take: "bytes_of_string (take n (string_of_bytes b)) = take n b"
  by (simp add: bytes_of_string_def string_of_bytes_def take_map comp_def)

lemma read_http_text:
  assumes "m \<noteq> []" and "list_all visible m" and "p \<noteq> []" and "list_all visible p"
    and "list_all good_header hs" and "length body \<le> int_max"
  shows "\<exists>req. read_http rl peer t0 th tb (http_text m p hs body @ rest) = Some req
    \<and> rq_method req = m \<and> rq_path req = p \<and> rq_clen req = int (length body)
    \<and> rq_body req = take 65536 body \<and> rq_bodyGot req = int (min (length body) 65536)"
proof -
  let ?line = "m @ '' '' @ p @ '' HTTP/1.1'' @ crlf"
  let ?cl = "(''Content-Length'', show_nat (length body))"
  let ?tail = "concat (map header_text (hs @ [?cl])) @ crlf @ string_of_bytes body @ rest"
  let ?r0 = "\<lparr>rq_method = m, rq_path = p, rq_ctype = [], rq_body = [], rq_peer = peer, rq_hdrs = [],
    rq_clen = 0, rq_bodyGot = 0, rq_t0 = t0, rq_tHeaders = 0, rq_tBody = 0\<rparr>"
  let ?r1 = "fold (header_line rl \<circ> header_text) (hs @ [?cl]) ?r0"
  have split: "http_text m p hs body @ rest = ?line @ ?tail"
    by (simp add: http_text_def)
  have "CHR 0x0A \<notin> set (m @ '' '' @ p @ '' HTTP/1.1'' @ [CHR 0x0D])"
    using assms(2,4) visible_no_LF by auto
  from read_line_append [OF this, of ?tail] have line: "read_line (?line @ ?tail) = Some (?line, ?tail)"
    by (simp add: crlf_def)
  have "go_fields ?line = [m, p, ''HTTP/1.1'']"
    using assms(1-4) go_fields_word [of "''HTTP/1.1''" "CHR 0x0D" "[CHR 0x0A]"]
    by (simp add: go_fields_word go_fields_space crlf_def visible_def)
  moreover have "read_headers rl ?tail ?r0 = Some (?r1, string_of_bytes body @ rest)"
    using assms(5) good_content_length [of "length body"] by (intro read_headers_text) simp
  ultimately have read: "read_http rl peer t0 th tb (http_text m p hs body @ rest)
      = Some ((read_body (string_of_bytes body @ rest) (?r1\<lparr>rq_tHeaders := th\<rparr>))\<lparr>rq_tBody := tb\<rparr>)"
    unfolding split read_http_def line by simp
  have clen: "rq_clen ?r1 = int (length body)"
    using header_line_text [OF good_content_length] assms(6) by (simp add: header_field_content_length Let_def)
  have frame: "rq_method ?r1 = m" "rq_path ?r1 = p" "rq_bodyGot ?r1 = 0" "rq_body ?r1 = []"
    unfolding fold_header_frame by simp_all
  show ?thesis
  proof (intro exI conjI)
    show "read_http rl peer t0 th tb (http_text m p hs body @ rest)
      = Some ((read_body (string_of_bytes body @ rest) (?r1\<lparr>rq_tHeaders := th\<rparr>))\<lparr>rq_tBody := tb\<rparr>)"
      by (rule read)
  qed (use clen frame in \<open>auto simp: read_body_def maxBody_def Let_def bytes_of_take simp del: fold_append\<close>)
qed

section \<open>Properties\<close>

text \<open>C12: A request as a client writes it is read as it was written: method, path, length and body come out
  exactly, for any further headers and whatever follows on the connection; of a body beyond 64 KiB the
  first 65536 bytes.\<close>

theorem read_http_roundtrip:
  assumes "m \<noteq> []" and "list_all visible m" and "p \<noteq> []" and "list_all visible p"
    and "list_all good_header hs" and "length body \<le> int_max"
  shows "\<exists>req. read_http rl peer t0 th tb (http_text m p hs body @ rest) = Some req
    \<and> rq_method req = m \<and> rq_path req = p \<and> rq_clen req = int (length body)
    \<and> rq_body req = take 65536 body \<and> rq_bodyGot req = int (min (length body) 65536)"
  using assms by (rule read_http_text)

theorem read_http_roundtrip_witness:
  "\<exists>req. read_http True ''127.0.0.1:5'' 0 1 2 (http_text ''POST'' ''/hook/s3'' [(''Host'', ''a b'')] [0x7B, 0x7D]) = Some req
    \<and> rq_method req = ''POST'' \<and> rq_path req = ''/hook/s3'' \<and> rq_body req = [0x7B, 0x7D]"
proof -
  have v: "list_all visible ''POST''" "list_all visible ''/hook/s3''" "good_header (''Host'', ''a b'')"
    by (simp_all add: visible_def good_header_def)
  have "\<exists>req. read_http True ''127.0.0.1:5'' 0 1 2
        (http_text ''POST'' ''/hook/s3'' [(''Host'', ''a b'')] [0x7B, 0x7D] @ []) = Some req
      \<and> rq_method req = ''POST'' \<and> rq_path req = ''/hook/s3'' \<and> rq_clen req = int (length [0x7B, 0x7D :: byte])
      \<and> rq_body req = take 65536 [0x7B, 0x7D] \<and> rq_bodyGot req = int (min (length [0x7B, 0x7D :: byte]) 65536)"
    by (rule read_http_roundtrip) (use v in \<open>simp_all add: int_max_def\<close>)
  then show ?thesis
    by auto
qed

text \<open>The body that reaches a handler is bounded whatever arrives: its length is the announced one, at most
  64 KiB and never negative, of which the bytes that arrived come first and zeros fill the rest.\<close>

theorem read_http_body:
  "case read_http rl peer t0 th tb conn of
     None \<Rightarrow> True
   | Some req \<Rightarrow> int (length (rq_body req)) = max 0 (min (rq_clen req) 65536)
       \<and> 0 \<le> rq_bodyGot req \<and> rq_bodyGot req \<le> int (length (rq_body req))
       \<and> drop (nat (rq_bodyGot req)) (rq_body req) = replicate (length (rq_body req) - nat (rq_bodyGot req)) 0"
proof -
  have "int (length (rq_body (read_body s req))) = max 0 (min (rq_clen (read_body s req)) 65536)
      \<and> 0 \<le> rq_bodyGot (read_body s req) \<and> rq_bodyGot (read_body s req) \<le> int (length (rq_body (read_body s req)))
      \<and> drop (nat (rq_bodyGot (read_body s req))) (rq_body (read_body s req))
        = replicate (length (rq_body (read_body s req)) - nat (rq_bodyGot (read_body s req))) 0"
    if "rq_body req = []" "rq_bodyGot req = 0" for s req
    using that by (auto simp: read_body_def maxBody_def Let_def)
  note body = this
  show ?thesis
  proof (cases "read_http rl peer t0 th tb conn")
    case (Some req)
    then obtain req' s where "req = (read_body s (req'\<lparr>rq_tHeaders := th\<rparr>))\<lparr>rq_tBody := tb\<rparr>"
        "rq_body req' = []" "rq_bodyGot req' = 0"
      by (auto simp: read_http_def split: option.splits list.splits dest!: read_headers_frame)
    with body [of "req'\<lparr>rq_tHeaders := th\<rparr>" s] Some show ?thesis
      by simp
  qed simp
qed

text \<open>C11: The hook on every request: it answers 200, writes exactly one record that states the verdict, and starts
  a worker exactly for the verdict \<open>queued\<close>, which takes a JSON body with a PDU that decodes, to an
  admitted destination, outside the cooldown; only then does it change the deduplication state.\<close>

theorem handleHook_outcome:
  "let (status, st') = handleHook cfg now req st; v = hook_verdict cfg now req (ddp st) in
     status = ''200 OK'' \<and> hlth st' = hlth st
     \<and> (\<exists>r. logs st' = logs st @ [r] \<and> result_of r = Some (JStr (verdict_text v)))
     \<and> jobs st' = jobs st @ (case v of Queued body info \<Rightarrow> [hook_job now req body info] | _ \<Rightarrow> [])
     \<and> ddp st' = (case v of Queued body info \<Rightarrow> \<lparr>lastPDU = hk_PDU body, lastSent = Some now\<rparr> | _ \<Rightarrow> ddp st)"
  by (rule handleHook_verdict)

text \<open>The hook over any sequence of requests: every job it starts has a PDU that decodes to an admitted
  destination, there is at most one per request, and two jobs for one PDU in direct succession are at
  least the cooldown apart.\<close>

theorem hook_sequence:
  assumes "cooldown cfg \<le> max_duration"
  shows "let acc = accepted (hook_handler cfg) rs st in
     jobs (handle_all (hook_handler cfg) rs st) = jobs st @ map snd acc
     \<and> list_all (\<lambda>a. may_send (destinationAllowed (allowedDest cfg)) (snd a)) acc
     \<and> length acc \<le> length rs
     \<and> spaced (cooldown cfg) (map (map_prod id job_pdu) acc)"
  using hook.handle_all_jobs hook.accepted_may_send hook.length_accepted hook.accepted_spaced [OF assms]
  by (simp add: Let_def)

definition test_config :: config where
  "test_config = \<lparr>secret = ''s3cret'', logURL = True, reqlog = True, allowedDest = [], cooldown = 90 * second\<rparr>"

definition test_body :: string where
  "test_body = ''{'' @ [CHR 0x22] @ ''message'' @ [CHR 0x22] @ '': null, '' @ [CHR 0x22] @ ''PDU'' @ [CHR 0x22, CHR '':'', CHR 0x22]
     @ testPDU @ [CHR 0x22] @ ''}''"

definition test_request :: request where
  "test_request = \<lparr>rq_method = ''POST'', rq_path = ''/hook/s3cret'', rq_ctype = [], rq_body = bytes_of_string test_body,
     rq_peer = ''peer'', rq_hdrs = [], rq_clen = 0, rq_bodyGot = 0, rq_t0 = 0, rq_tHeaders = 0, rq_tBody = 0\<rparr>"

definition test_queued :: hookBody where
  "test_queued = \<lparr>hk_message = [], hk_type = Null, hk_PDU = testPDU, hk_PDULength = 0\<rparr>"

lemma test_unmarshal: "unmarshal_hook (rq_body test_request) = Some test_queued"
  by code_simp

lemma test_verdict:
  "\<exists>info. hook_verdict test_config now test_request d =
     (if fst (claimPDU (90 * second) now testPDU d) then Queued test_queued info else CooldownDup)"
proof -
  note decode_testPDU
  moreover have "testPDU \<noteq> []"
    by (simp add: testPDU_def)
  ultimately show ?thesis
    by (simp add: hook_verdict_def test_unmarshal) (simp add: test_queued_def test_config_def destinationAllowed_def)
qed

text \<open>The test request against any state: it is claimed, and a worker starts when the claim is granted.\<close>

lemma test_hook:
  "\<exists>j. jobs (hook_handler test_config now test_request st) =
         (if fst (claimPDU (90 * second) now testPDU (ddp st)) then jobs st @ [j] else jobs st)"
  "ddp (hook_handler test_config now test_request st) = snd (claimPDU (90 * second) now testPDU (ddp st))"
proof -
  obtain info where v: "hook_verdict test_config now test_request (ddp st) =
      (if fst (claimPDU (90 * second) now testPDU (ddp st)) then Queued test_queued info else CooldownDup)"
    using test_verdict by blast
  note run = handleHook_verdict [of test_config now test_request st, unfolded v]
  show "\<exists>j. jobs (hook_handler test_config now test_request st) =
         (if fst (claimPDU (90 * second) now testPDU (ddp st)) then jobs st @ [j] else jobs st)"
    using run by (auto simp: Let_def case_prod_beta)
  show "ddp (hook_handler test_config now test_request st) = snd (claimPDU (90 * second) now testPDU (ddp st))"
    using run by (auto simp: Let_def case_prod_beta claimPDU_def test_queued_def)
qed

lemma test_accepted:
  "map fst (accepted (hook_handler test_config) ((now, test_request) # rs) st) =
     (if fst (claimPDU (90 * second) now testPDU (ddp st)) then [now] else [])
     @ map fst (accepted (hook_handler test_config) rs (hook_handler test_config now test_request st))"
  using test_hook(1) [of now st] by (auto simp: Let_def split: if_splits)

lemma test_accepted_times:
  "map fst (accepted (hook_handler test_config)
     [(0, test_request), (30 * second, test_request), (90 * second, test_request)] init_relay) = [0, 90 * second]"
  unfolding test_accepted accepted.simps(1)
  by (simp add: test_hook(2) claimPDU_def init_relay_def init_dedup_def time_since_def max_duration_def testPDU_def)

theorem hook_sequence_witness:
  "map fst (accepted (hook_handler test_config)
     [(0, test_request), (30 * second, test_request), (90 * second, test_request)] init_relay) = [0, 90 * second]
   \<and> spaced (90 * second) (map (map_prod id job_pdu) (accepted (hook_handler test_config)
     [(0, test_request), (30 * second, test_request), (90 * second, test_request)] init_relay))"
proof -
  note test_accepted_times
  moreover have c: "cooldown test_config = 90 * second"
    by (simp add: test_config_def)
  then have "cooldown test_config \<le> max_duration"
    by (simp add: max_duration_def)
  note hook_sequence [OF this, of
      "[(0, test_request), (30 * second, test_request), (90 * second, test_request)]" init_relay]
  ultimately show ?thesis
    unfolding Let_def c by blast
qed

lemma serve_only_posts:
  "let st' = snd (serve cfg today cl peer conn st) in
     (jobs st' = jobs st \<and> ddp st' = ddp st \<and> logs st' = logs st)
     \<or> (\<exists>req. read_http (reqlog cfg) peer (at_open cl) (at_headers cl) (at_body cl) conn = Some req
          \<and> rq_method req = ''POST'' \<and> secret cfg \<noteq> [] \<and> rq_path req = ''/hook/'' @ secret cfg)"
proof (cases "read_http (reqlog cfg) peer (at_open cl) (at_headers cl) (at_body cl) conn")
  case None
  then show ?thesis
    by (simp add: serve_def)
next
  case (Some req)
  show ?thesis
  proof (cases "rq_method req = ''POST'' \<and> matchSecretPath (rq_path req) ''/hook/'' (secret cfg)")
    case True
    with Some show ?thesis
      by (auto simp: matchSecretPath_iff Let_def)
  next
    case False
    then have "snd (route cfg today (at_hook cl) req st) = st"
      by (auto simp: route_def Let_def split: option.split)
    with Some show ?thesis
      by (simp add: serve_def Let_def case_prod_beta)
  qed
qed

text \<open>Only a POST to the secret path can make the relay send: any other connection, malformed ones included,
  leaves the jobs, the deduplication state and the log alone.\<close>

theorem serve_authenticated:
  "let st' = snd (serve cfg today cl peer conn st) in
     (jobs st' = jobs st \<and> ddp st' = ddp st \<and> logs st' = logs st)
     \<or> (\<exists>req. read_http (reqlog cfg) peer (at_open cl) (at_headers cl) (at_body cl) conn = Some req
          \<and> rq_method req = ''POST'' \<and> secret cfg \<noteq> [] \<and> rq_path req = ''/hook/'' @ secret cfg)"
  by (rule serve_only_posts)

lemma read_http_entries:
  assumes "read_http rl peer t0 th tb conn = Some req"
  shows "entries_of (rq_hdrs req)"
proof -
  have body: "rq_hdrs (read_body s r) = rq_hdrs r" for s r
    by (simp add: read_body_def Let_def)
  from assms obtain s r0 r1 s' where "read_headers rl s r0 = Some (r1, s')" "rq_hdrs r0 = []" "rq_hdrs req = rq_hdrs r1"
    by (auto simp: read_http_def body split: option.splits list.splits)
  then show ?thesis
    using read_headers_entries [of rl s r0 r1 s'] by (simp add: entries_of_def)
qed

lemma reqlogs_off: "\<not> reqlog cfg \<Longrightarrow> reqlogs (snd (handleHook cfg now req st)) = reqlogs st"
  by (auto simp: handleHook_def logNoPDUBody_def claim_def Let_def case_prod_beta split: option.split sum.split)

text \<open>The request log of a connection shows neither the hook's secret nor credentials: with the log on, its last
  record has a constant in place of the hook's path and each header as \<^verbatim>\<open>serve\<close> redacts it, which hides the
  value of authorization and cookie headers whatever the case of their names; with it off nothing is
  written.\<close>

theorem reqlog_redacts:
  "(case read_http (reqlog cfg) peer (at_open cl) (at_headers cl) (at_body cl) conn of
      None \<Rightarrow> reqlogs (snd (serve cfg today cl peer conn st)) = reqlogs st
    | Some req \<Rightarrow>
        if reqlog cfg
        then \<exists>rs r es. reqlogs (snd (serve cfg today cl peer conn st)) = rs @ [r]
          \<and> map_of r ''path'' = Some (JStr (if matchSecretPath (rq_path req) ''/hook/'' (secret cfg)
                                            then ''/hook/<secret>'' else rq_path req))
          \<and> map_of r ''hdrs'' = Some (JList es) \<and> entries_of es
        else reqlogs (snd (serve cfg today cl peer conn st)) = reqlogs st)
   \<and> header_entry ''Cookie'' v = ''Cookie: <redacted>'' \<and> header_entry ''AUTHORIZATION'' v = ''AUTHORIZATION: <redacted>''"
proof -
  have "redacted_header ''Cookie''" and "redacted_header ''AUTHORIZATION''"
    by code_simp+
  then have "header_entry ''Cookie'' v = ''Cookie: <redacted>''" "header_entry ''AUTHORIZATION'' v = ''AUTHORIZATION: <redacted>''"
    by (simp_all add: header_entry_def)
  moreover have "reqlogs (snd (route cfg today t req st)) = reqlogs st" if "\<not> reqlog cfg" for t req
    using reqlogs_off [OF that] by (simp add: route_def Let_def case_prod_beta split: option.split)
  ultimately show ?thesis
    using read_http_entries [of "reqlog cfg" peer "at_open cl" "at_headers cl" "at_body cl" conn]
    by (auto simp: serve_def logRequest_def ifStr_def Let_def case_prod_beta split: option.split)
qed

text \<open>The log URL has the same secret in its path, and there the request log does show it.\<close>

theorem reqlog_shows_log_secret:
  "let req = test_request\<lparr>rq_method := ''GET'', rq_path := ''/log/s3cret''\<rparr>;
       st = snd (serve test_config (Some []) \<lparr>at_open = 0, at_headers = 0, at_body = 0, at_hook = 0, at_end = 0\<rparr>
         ''peer'' (''GET /log/s3cret HTTP/1.1'' @ crlf @ crlf) init_relay)
   in map (\<lambda>r. map_of r ''path'') (reqlogs st) = [Some (JStr ''/log/s3cret'')]"
  by code_simp

text \<open>The diagnostic \<open>only_tp_mr\<close> does not say what its name says: it holds for any two PDUs of one length that
  differ in one or two places, here in a digit of the recipient and not in the message reference.\<close>

theorem only_tp_mr_other_recipient:
  "let a = hex_encode (submit_bytes test_submit); b = hex_encode (submit_bytes (test_submit\<lparr>dest := 8 # tl (dest test_submit)\<rparr>))
   in map_of (pdu_diff a b) ''only_tp_mr'' = Some (JBool True)
      \<and> map_option mr (case decodeSubmitPDU a of Inr i \<Rightarrow> Some i | _ \<Rightarrow> None)
        = map_option mr (case decodeSubmitPDU b of Inr i \<Rightarrow> Some i | _ \<Rightarrow> None)
      \<and> map_option phone (case decodeSubmitPDU a of Inr i \<Rightarrow> Some i | _ \<Rightarrow> None)
        \<noteq> map_option phone (case decodeSubmitPDU b of Inr i \<Rightarrow> Some i | _ \<Rightarrow> None)"
  by code_simp

section \<open>The fields of a body\<close>

text \<open>A name folds to one tag only.\<close>

lemma equal_fold_unique: "equal_fold k a \<Longrightarrow> equal_fold k b \<Longrightarrow> map lower_char a = map lower_char b"
proof (induction a arbitrary: k b)
  case Nil
  then show ?case
    by (cases b) simp_all
next
  case (Cons x a)
  obtain c s where k: "k = c # s"
    using Cons.prems(1) by (cases k) simp_all
  obtain y b' where b: "b = y # b'"
    using Cons.prems(2) by (cases b) (simp_all add: k)
  show ?case
    using Cons.prems Cons.IH unfolding k b by (auto split: if_splits)
qed

text \<open>The values that a document gives for a tag, whatever the case of the names, and what the field's type makes of
  them: \<^verbatim>\<open>null\<close> leaves a string or a number as it is, and the last value counts.\<close>

definition given :: "string \<Rightarrow> (string \<times> json) list \<Rightarrow> json list" where
  "given tag ms = map snd (filter (\<lambda>m. equal_fold (fst m) tag) ms)"

definition is_text :: "json \<Rightarrow> bool" where
  "is_text v \<longleftrightarrow> (case v of Text s \<Rightarrow> True | Null \<Rightarrow> True | _ \<Rightarrow> False)"

definition is_int32 :: "json \<Rightarrow> bool" where
  "is_int32 v \<longleftrightarrow> (case v of Number n \<Rightarrow> number_int n \<noteq> None | Null \<Rightarrow> True | _ \<Rightarrow> False)"

definition text_of :: "json \<Rightarrow> string" where
  "text_of v = (case v of Text s \<Rightarrow> s | _ \<Rightarrow> [])"

definition int_of :: "json \<Rightarrow> int" where
  "int_of v = (case v of Number n \<Rightarrow> the (number_int n) | _ \<Rightarrow> 0)"

definition last_given :: "(json \<Rightarrow> 'a) \<Rightarrow> 'a \<Rightarrow> json list \<Rightarrow> 'a" where
  "last_given f d vs = (if filter (\<lambda>v. v \<noteq> Null) vs = [] then d else f (last (filter (\<lambda>v. v \<noteq> Null) vs)))"

definition last_any :: "json \<Rightarrow> json list \<Rightarrow> json" where
  "last_any d vs = (if vs = [] then d else last vs)"

lemma given_Cons: "given tag (m # ms) = (if equal_fold (fst m) tag then [snd m] else []) @ given tag ms"
  by (simp add: given_def)

lemma last_given_Cons: "last_given f d (v # vs) = last_given f (if v = Null then d else f v) vs"
  by (simp add: last_given_def)

lemma last_any_Cons: "last_any d (v # vs) = last_any v vs"
  by (simp add: last_any_def)

lemma store_string_text: "store_string v old = (if is_text v then Some (if v = Null then old else text_of v) else None)"
  by (cases v) (simp_all add: store_string_def is_text_def text_of_def)

lemma store_int_int: "store_int v old = (if is_int32 v then Some (if v = Null then old else int_of v) else None)"
  by (cases v) (auto simp: store_int_def is_int32_def int_of_def)

definition hook_typed :: "(string \<times> json) list \<Rightarrow> bool" where
  "hook_typed ms \<longleftrightarrow> list_all is_text (given ''message'' ms) \<and> list_all floats_ok (given ''type'' ms)
     \<and> list_all is_text (given ''pdu'' ms) \<and> list_all is_int32 (given ''pdu_length'' ms)"

lemma tags_differ:
  "equal_fold k ''message'' \<Longrightarrow> \<not> equal_fold k ''type'' \<and> \<not> equal_fold k ''pdu'' \<and> \<not> equal_fold k ''pdu_length''"
  "equal_fold k ''type'' \<Longrightarrow> \<not> equal_fold k ''message'' \<and> \<not> equal_fold k ''pdu'' \<and> \<not> equal_fold k ''pdu_length''"
  "equal_fold k ''pdu'' \<Longrightarrow> \<not> equal_fold k ''message'' \<and> \<not> equal_fold k ''type'' \<and> \<not> equal_fold k ''pdu_length''"
  "equal_fold k ''pdu_length'' \<Longrightarrow> \<not> equal_fold k ''message'' \<and> \<not> equal_fold k ''type'' \<and> \<not> equal_fold k ''pdu''"
proof -
  have "distinct (map (map lower_char) [''message'', ''type'', ''pdu'', ''pdu_length''])"
    by code_simp
  then have "map lower_char ''message'' \<noteq> map lower_char ''type''" "map lower_char ''message'' \<noteq> map lower_char ''pdu''"
      "map lower_char ''message'' \<noteq> map lower_char ''pdu_length''" "map lower_char ''type'' \<noteq> map lower_char ''pdu''"
      "map lower_char ''type'' \<noteq> map lower_char ''pdu_length''" "map lower_char ''pdu'' \<noteq> map lower_char ''pdu_length''"
    by auto
  then show
    "equal_fold k ''message'' \<Longrightarrow> \<not> equal_fold k ''type'' \<and> \<not> equal_fold k ''pdu'' \<and> \<not> equal_fold k ''pdu_length''"
    "equal_fold k ''type'' \<Longrightarrow> \<not> equal_fold k ''message'' \<and> \<not> equal_fold k ''pdu'' \<and> \<not> equal_fold k ''pdu_length''"
    "equal_fold k ''pdu'' \<Longrightarrow> \<not> equal_fold k ''message'' \<and> \<not> equal_fold k ''type'' \<and> \<not> equal_fold k ''pdu_length''"
    "equal_fold k ''pdu_length'' \<Longrightarrow> \<not> equal_fold k ''message'' \<and> \<not> equal_fold k ''type'' \<and> \<not> equal_fold k ''pdu''"
    using equal_fold_unique [of k] by blast+
qed

lemma store_hook_members:
  "store_members hook_field ms b =
     (if hook_typed ms
      then Some \<lparr>hk_message = last_given text_of (hk_message b) (given ''message'' ms),
        hk_type = last_any (hk_type b) (given ''type'' ms),
        hk_PDU = last_given text_of (hk_PDU b) (given ''pdu'' ms),
        hk_PDULength = last_given int_of (hk_PDULength b) (given ''pdu_length'' ms)\<rparr>
      else None)"
proof (induction ms arbitrary: b)
  case Nil
  show ?case
    by (simp add: hook_typed_def given_def last_given_def last_any_def)
next
  case (Cons m ms)
  consider (message) "equal_fold (fst m) ''message''" | (type) "equal_fold (fst m) ''type''"
    | (pdu) "equal_fold (fst m) ''pdu''" | (len) "equal_fold (fst m) ''pdu_length''"
    | (none) "\<not> equal_fold (fst m) ''message''" "\<not> equal_fold (fst m) ''type''" "\<not> equal_fold (fst m) ''pdu''"
        "\<not> equal_fold (fst m) ''pdu_length''"
    by blast
  then show ?case
  proof cases
    case message
    with tags_differ(1) [OF message] Cons show ?thesis
      by (simp add: hook_field_def store_string_text hook_typed_def given_Cons last_given_Cons del: equal_fold.simps)
  next
    case type
    with tags_differ(2) [OF type] Cons show ?thesis
      by (simp add: hook_field_def store_any_def hook_typed_def given_Cons last_any_Cons del: equal_fold.simps)
  next
    case pdu
    with tags_differ(3) [OF pdu] Cons show ?thesis
      by (simp add: hook_field_def store_string_text hook_typed_def given_Cons last_given_Cons del: equal_fold.simps)
  next
    case len
    with tags_differ(4) [OF len] Cons show ?thesis
      by (simp add: hook_field_def store_int_int hook_typed_def given_Cons last_given_Cons del: equal_fold.simps)
  next
    case none
    with Cons show ?thesis
      by (simp add: hook_field_def hook_typed_def given_Cons del: equal_fold.simps)
  qed
qed

text \<open>C23: A body is accepted exactly when every value has the type of the field its name selects, and then each field
  is what the body last gives under the field's own name, in any case of letters: \<^verbatim>\<open>message\<close>, \<^verbatim>\<open>type\<close>, \<^verbatim>\<open>pdu\<close> and
  \<^verbatim>\<open>pdu_length\<close>. That holds for every document, whatever its white space, its order and its other members.\<close>

theorem unmarshal_hook_fields:
  assumes "json_ok (Object ms)" and "list_all is_blank g" and "depth (Object ms) \<le> 10000"
  shows "unmarshal_hook (bytes_of_string (g @ print_json g (Object ms) @ g)) =
    (if list_all is_text (given ''message'' ms) \<and> list_all floats_ok (given ''type'' ms)
        \<and> list_all is_text (given ''pdu'' ms) \<and> list_all is_int32 (given ''pdu_length'' ms)
     then Some \<lparr>hk_message = last_given text_of [] (given ''message'' ms), hk_type = last_any Null (given ''type'' ms),
       hk_PDU = last_given text_of [] (given ''pdu'' ms), hk_PDULength = last_given int_of 0 (given ''pdu_length'' ms)\<rparr>
     else None)"
proof -
  have "unmarshal_hook (bytes_of_string (g @ print_json g (Object ms) @ g))
      = store_members hook_field ms \<lparr>hk_message = [], hk_type = Null, hk_PDU = [], hk_PDULength = 0\<rparr>"
    unfolding unmarshal_hook_def using assms by (intro unmarshal_print) (simp_all add: max_depth_def)
  then show ?thesis
    by (simp add: store_hook_members hook_typed_def del: equal_fold.simps)
qed

theorem unmarshal_hook_fields_witness:
  "unmarshal_hook (bytes_of_string (print_json [] (Object [(''PDU'', Text ''00''), (''x'', test_document),
       (''pdu_length'', Number \<lparr>negative = False, digits = ''23'', fraction = [], exponent = []\<rparr>), (''pdu'', Null)])))
   = Some \<lparr>hk_message = [], hk_type = Null, hk_PDU = ''00'', hk_PDULength = 23\<rparr>"
proof -
  let ?ms = "[(''PDU'', Text ''00''), (''x'', test_document),
       (''pdu_length'', Number \<lparr>negative = False, digits = ''23'', fraction = [], exponent = []\<rparr>), (''pdu'', Null)]"
  have "json_ok (Object ?ms)" and "depth (Object ?ms) \<le> 10000"
    by code_simp+
  moreover have "given ''message'' ?ms = []" "given ''type'' ?ms = []" "list_all is_text (given ''pdu'' ?ms)"
      "list_all is_int32 (given ''pdu_length'' ?ms)" "last_given text_of [] (given ''pdu'' ?ms) = ''00''"
      "last_given int_of 0 (given ''pdu_length'' ?ms) = 23"
    by code_simp+
  ultimately show ?thesis
    using unmarshal_hook_fields [of ?ms "[]"]
    by (simp add: last_given_def [of _ _ "[]"] last_any_def)
qed

end
