(* ===== verification/Ws_Frame.thy ===== *)
theory Ws_Frame
  imports Go_Strings
begin

text \<open>
  The WebSocket client of \<^verbatim>\<open>ws.go\<close>: one masked frame (\<^verbatim>\<open>writeFrame\<close>), one frame of the server
  (\<^verbatim>\<open>readFrame\<close>), and the reassembly of a message that answers pings on the way (\<^verbatim>\<open>readMessage\<close>). The
  input of a connection is the list of bytes that arrive before a read fails; each write takes its
  outcome (the mask drawn, or a failure) from a list.
\<close>

unbundle bit_operations_syntax

section \<open>Frames\<close>

definition opContinuation :: byte where "opContinuation = 0x0"
definition opText :: byte where "opText = 0x1"
definition opBinary :: byte where "opBinary = 0x2"
definition opClose :: byte where "opClose = 0x8"
definition opPing :: byte where "opPing = 0x9"
definition opPong :: byte where "opPong = 0xA"

lemmas opcodes = opContinuation_def opText_def opBinary_def opClose_def opPing_def opPong_def

definition wsMaxPayload :: nat where "wsMaxPayload = 65536"

definition xor_mask :: "byte list \<Rightarrow> byte list \<Rightarrow> byte list" where
  "xor_mask mk p = map (\<lambda>i. p ! i XOR mk ! (i mod 4)) [0..<length p]"

text \<open>The header before the mask, with the mask bit \<open>m\<close> in its second byte.\<close>

definition frame_header :: "byte \<Rightarrow> byte \<Rightarrow> nat \<Rightarrow> byte list" where
  "frame_header h0 m n =
     (if n < 126 then [h0, m OR of_nat n]
      else if n \<le> 0xFFFF then [h0, m OR 126] @ to_be 2 n
      else [h0, m OR 127] @ to_be 8 n)"

definition frame_bytes :: "byte list \<Rightarrow> byte \<Rightarrow> byte list \<Rightarrow> byte list" where
  "frame_bytes mk op payload =
     frame_header (0x80 OR op) 0x80 (length payload) @ mk @ xor_mask mk payload"

text \<open>\<open>ServerClosed\<close> carries the close code and text that \<^verbatim>\<open>wsCloseReason\<close> prints, if the frame has them.\<close>

datatype ws_error =
    ReadFailed | FrameTooBig nat | WriteFailed string | ServerClosed "(nat \<times> string) option"
  | NoStartFrame | MessageTooBig | BadOpcode byte

definition read_full :: "nat \<Rightarrow> byte list \<Rightarrow> (byte list \<times> byte list) option" where
  "read_full n s = (if length s < n then None else Some (take n s, drop n s))"

text \<open>The size field: 7 bits, or 16 or 64 bits behind them; a 64-bit size is checked before it is used.\<close>

definition read_size :: "nat \<Rightarrow> byte list \<Rightarrow> ws_error + (nat \<times> byte list)" where
  "read_size sz s =
     (if sz = 126 then
        (case read_full 2 s of None \<Rightarrow> Inl ReadFailed | Some (e, s) \<Rightarrow> Inr (of_be e, s))
      else if sz = 127 then
        (case read_full 8 s of
           None \<Rightarrow> Inl ReadFailed
         | Some (e, s) \<Rightarrow> if of_be e > wsMaxPayload then Inl (FrameTooBig (of_be e)) else Inr (of_be e, s))
      else Inr (sz, s))"

type_synonym frame = "byte \<times> bool \<times> byte list"

definition readFrame :: "byte list \<Rightarrow> ws_error + (frame \<times> byte list)" where
  "readFrame s =
     (case read_full 2 s of
        None \<Rightarrow> Inl ReadFailed
      | Some (h, s) \<Rightarrow>
          let op = h ! 0 AND 0x0F; fin = (h ! 0 AND 0x80 \<noteq> 0);
              masked = (h ! 1 AND 0x80 \<noteq> 0); sz = unat (h ! 1 AND 0x7F) in
          (case read_size sz s of
             Inl e \<Rightarrow> Inl e
           | Inr (sz, s) \<Rightarrow>
               if sz > wsMaxPayload then Inl (FrameTooBig sz)
               else
                 (case (if masked then read_full 4 s else Some ([], s)) of
                    None \<Rightarrow> Inl ReadFailed
                  | Some (mk, s) \<Rightarrow>
                      (case read_full sz s of
                         None \<Rightarrow> Inl ReadFailed
                       | Some (payload, s) \<Rightarrow>
                           Inr ((op, fin, if masked then xor_mask mk payload else payload), s)))))"

lemma read_full_append: "length a = n \<Longrightarrow> read_full n (a @ s) = Some (a, s)"
  by (simp add: read_full_def)

lemma read_full_Some: "read_full n s = Some (a, r) \<longleftrightarrow> s = a @ r \<and> length a = n"
  by (auto simp: read_full_def)

lemma length_xor_mask [simp]: "length (xor_mask mk p) = length p"
  by (simp add: xor_mask_def)

lemma xor_mask_twice [simp]: "xor_mask mk (xor_mask mk p) = p"
  by (rule nth_equalityI) (simp_all add: xor_mask_def xor.assoc)

lemma xor_mask_Nil [simp]: "xor_mask mk [] = []"
  by (simp add: xor_mask_def)

section \<open>Reading what was written\<close>

text \<open>The frames of a server: any FIN bit, masked or not.\<close>

definition enc_frame :: "byte list option \<Rightarrow> frame \<Rightarrow> byte list" where
  "enc_frame mk f =
     (case f of (op, fin, payload) \<Rightarrow>
        let h0 = (if fin then 0x80 else 0) OR op in
        (case mk of
           None \<Rightarrow> frame_header h0 0 (length payload) @ payload
         | Some m \<Rightarrow> frame_header h0 0x80 (length payload) @ m @ xor_mask m payload))"

lemma frame_bytes_enc: "frame_bytes mk op p = enc_frame (Some mk) (op, True, p)"
  by (simp add: frame_bytes_def enc_frame_def)

definition good_frame :: "byte list option \<Rightarrow> frame \<Rightarrow> bool" where
  "good_frame mk f \<longleftrightarrow>
     fst f AND 0x0F = fst f \<and> length (snd (snd f)) \<le> wsMaxPayload
     \<and> (case mk of None \<Rightarrow> True | Some m \<Rightarrow> length m = 4)"

lemma small_size:
  assumes "n \<le> 127"
  shows "unat ((0x80 OR of_nat n :: byte) AND 0x7F) = n" "unat ((of_nat n :: byte) AND 0x7F) = n"
    "(0x80 OR of_nat n :: byte) AND 0x80 \<noteq> 0" "(of_nat n :: byte) AND 0x80 = 0"
proof -
  have low: "(of_nat n :: byte) AND 0x7F = of_nat n"
  proof -
    have "take_bit 7 n = n"
      using assms by (simp add: take_bit_eq_mod)
    then have "(of_nat n :: byte) AND mask 7 = of_nat n"
      by (metis of_nat_take_bit take_bit_eq_mask)
    then show ?thesis
      by (simp add: mask_eq_exp_minus_1)
  qed
  have u: "unat (of_nat n :: byte) = n"
    using assms by (simp add: unat_of_nat)
  have zero: "(0x80 :: byte) AND 0x7F = 0" "(0x7F :: byte) AND 0x80 = 0"
    by simp_all
  show "unat ((of_nat n :: byte) AND 0x7F) = n"
    by (simp add: low u)
  show "unat ((0x80 OR of_nat n :: byte) AND 0x7F) = n"
    by (simp add: bit.conj_disj_distrib2 zero low u)
  have "(of_nat n :: byte) AND 0x80 = ((of_nat n) AND 0x7F) AND 0x80"
    by (simp add: low)
  also have "\<dots> = 0"
    by (simp add: and.assoc zero)
  finally show h: "(of_nat n :: byte) AND 0x80 = 0" .
  show "(0x80 OR of_nat n :: byte) AND 0x80 \<noteq> 0"
    by (simp add: bit.conj_disj_distrib2 h)
qed

lemma frame_header_split:
  assumes "n \<le> wsMaxPayload"
  shows "\<exists>sz ext. frame_header h0 m n = [h0, m OR of_nat sz] @ ext \<and> sz \<le> 127
    \<and> (\<forall>s. read_size sz (ext @ s) = Inr (n, s))"
proof (cases "n < 126")
  case True
  then have "frame_header h0 m n = [h0, m OR of_nat n] @ []" "n \<le> 127"
    and "read_size n ([] @ s) = Inr (n, s)" for s
    by (simp_all add: frame_header_def read_size_def)
  then show ?thesis
    by blast
next
  case False
  note big = False
  show ?thesis
  proof (cases "n \<le> 0xFFFF")
    case True
    have "n < 256 ^ 2"
      using True by simp
    then have "of_be (to_be 2 n) = n"
      by (simp only: of_be_to_be mod_less)
    then have "frame_header h0 m n = [h0, m OR of_nat 126] @ to_be 2 n"
      and "read_size 126 (to_be 2 n @ s) = Inr (n, s)" for s
      using big True by (simp_all add: frame_header_def read_size_def read_full_append)
    then show ?thesis
      by (intro exI [of _ 126] exI conjI allI) simp_all
  next
    case False
    have "n < 256 ^ 8"
      using assms by (simp add: wsMaxPayload_def)
    then have "of_be (to_be 8 n) = n"
      by (simp only: of_be_to_be mod_less)
    then have "frame_header h0 m n = [h0, m OR of_nat 127] @ to_be 8 n"
      and "read_size 127 (to_be 8 n @ s) = Inr (n, s)" for s
      using big False assms by (simp_all add: frame_header_def read_size_def read_full_append)
    then show ?thesis
      by (intro exI [of _ 127] exI conjI allI) simp_all
  qed
qed

lemma first_byte:
  assumes "(op :: byte) AND 0x0F = op"
  shows "((if fin then 0x80 else 0) OR op) AND 0x0F = op"
    and "((if fin then 0x80 else 0) OR op) AND 0x80 \<noteq> 0 \<longleftrightarrow> fin"
proof -
  have zero: "(0x80 :: byte) AND 0x0F = 0" "(0x0F :: byte) AND 0x80 = 0"
    by simp_all
  have "op AND 0x80 = (op AND 0x0F) AND 0x80"
    by (simp add: assms)
  also have "\<dots> = 0"
    by (simp add: and.assoc zero)
  finally have "op AND 0x80 = 0" .
  then show "((if fin then 0x80 else 0) OR op) AND 0x0F = op"
    and "((if fin then 0x80 else 0) OR op) AND 0x80 \<noteq> 0 \<longleftrightarrow> fin"
    by (simp_all add: bit.conj_disj_distrib2 zero assms)
qed

lemma readFrame_enc:
  assumes "good_frame mk f"
  shows "readFrame (enc_frame mk f @ rest) = Inr (f, rest)"
proof -
  obtain op fin p where f: "f = (op, fin, p)"
    by (cases f) auto
  let ?h0 = "(if fin then 0x80 else 0) OR op"
  from assms f have op: "op AND 0x0F = op" and len: "length p \<le> wsMaxPayload"
    by (simp_all add: good_frame_def)
  note h0 = first_byte [OF op, of fin]
  have two: "read_full 2 ([a, b] @ t) = Some ([a, b], t)" for a b :: byte and t
    by (rule read_full_append) simp
  show ?thesis
  proof (cases mk)
    case None
    obtain sz ext where e: "frame_header ?h0 0 (length p) = [?h0, 0 OR of_nat sz] @ ext" "sz \<le> 127"
        "\<forall>s. read_size sz (ext @ s) = Inr (length p, s)"
      using frame_header_split [OF len, of ?h0 0] by blast
    have split: "enc_frame mk f @ rest = [?h0, of_nat sz] @ ext @ p @ rest"
      using e(1) by (simp add: enc_frame_def f None Let_def)
    show ?thesis
      unfolding split readFrame_def two option.case prod.case Let_def nth_Cons_0 h0
      using small_size(2,4) [OF e(2)] e(3) len by (simp add: f h0 read_full_append)
  next
    case (Some m)
    have m: "length m = 4"
      using assms f Some by (simp add: good_frame_def)
    obtain sz ext where e: "frame_header ?h0 0x80 (length p) = [?h0, 0x80 OR of_nat sz] @ ext" "sz \<le> 127"
        "\<forall>s. read_size sz (ext @ s) = Inr (length p, s)"
      using frame_header_split [OF len, of ?h0 "0x80"] by blast
    have split: "enc_frame mk f @ rest = [?h0, 0x80 OR of_nat sz] @ ext @ m @ xor_mask m p @ rest"
      using e(1) by (simp add: enc_frame_def f Some Let_def)
    show ?thesis
      unfolding split readFrame_def two option.case prod.case Let_def nth_Cons_0 h0
      using small_size(1,3) [OF e(2)] e(3) len m by (simp add: f h0 read_full_append)
  qed
qed

text \<open>The frames of one peer form a code, whatever its mask.\<close>

definition read_frame_opt :: "byte list \<Rightarrow> (frame \<times> byte list) option" where
  "read_frame_opt s = (case readFrame s of Inl _ \<Rightarrow> None | Inr r \<Rightarrow> Some r)"

interpretation frames: stream_codec "enc_frame mk" read_frame_opt "good_frame mk" for mk
  by unfold_locales (simp add: read_frame_opt_def readFrame_enc)

lemma read_size_shorter: "read_size sz s = Inr (n, s') \<Longrightarrow> length s' \<le> length s"
  by (auto simp: read_size_def read_full_def split: option.splits if_splits)

lemma readFrame_uses: "readFrame s = Inr ((op, fin, p), s') \<Longrightarrow> length p + length s' + 2 \<le> length s"
  by (auto simp: readFrame_def read_full_Some Let_def split: option.splits sum.splits if_splits
      dest!: read_size_shorter)

lemma readFrame_consumes: "readFrame s = Inr (f, s') \<Longrightarrow> length s' < length s"
  using readFrame_uses [of s] by (cases f) fastforce

lemma readFrame_bound: "readFrame s = Inr ((op, fin, p), s') \<Longrightarrow> length p \<le> wsMaxPayload"
  by (auto simp: readFrame_def read_full_Some Let_def split: option.splits sum.splits if_splits)

lemma readFrame_errors: "readFrame s = Inl e \<Longrightarrow> e = ReadFailed \<or> (\<exists>n. e = FrameTooBig n \<and> wsMaxPayload < n)"
  by (auto simp: readFrame_def read_size_def Let_def split: option.splits sum.splits if_splits)

section \<open>Messages\<close>

datatype write_result = Written "byte list" | NotWritten string

record wsconn =
  input :: "byte list"
  frames_out :: "byte list list"
  write_results :: "write_result list"

text \<open>
  \<^verbatim>\<open>writeFrame\<close> on a connection: the mask of \<^verbatim>\<open>randRead\<close> and the outcome of the writes come from
  \<open>write_results\<close>; when none is left, the connection is gone.
\<close>

definition writeFrame :: "byte \<Rightarrow> byte list \<Rightarrow> wsconn \<Rightarrow> string option \<times> wsconn" where
  "writeFrame op payload c =
     (case write_results c of
        [] \<Rightarrow> (Some ''closed'', c)
      | NotWritten e # ws \<Rightarrow> (Some e, c\<lparr>write_results := ws\<rparr>)
      | Written mk # ws \<Rightarrow>
          (None, c\<lparr>write_results := ws, frames_out := frames_out c @ [frame_bytes mk op payload]\<rparr>))"

definition wsCloseReason :: "byte list \<Rightarrow> (nat \<times> string) option" where
  "wsCloseReason p =
     (if length p < 2 then None else Some (of_be (take 2 p), trim_space (string_of_bytes (drop 2 p))))"

text \<open>The loop of \<^verbatim>\<open>readMessage\<close>, with its variables \<^verbatim>\<open>msgOp\<close> and \<^verbatim>\<open>buf\<close>.\<close>

lemma writeFrame_input: "writeFrame op p c = (e, c') \<Longrightarrow> input c' = input c"
  by (auto simp: writeFrame_def split: list.splits write_result.splits)

function read_msg :: "byte \<Rightarrow> byte list \<Rightarrow> wsconn \<Rightarrow> (ws_error + byte \<times> byte list) \<times> wsconn" where
  "read_msg msgOp buf c =
     (case readFrame (input c) of
        Inl e \<Rightarrow> (Inl e, c)
      | Inr ((o', fin, p), s) \<Rightarrow>
          let c = c\<lparr>input := s\<rparr> in
          if o' = opPing then
            (case writeFrame opPong p c of
               (Some e, c) \<Rightarrow> (Inl (WriteFailed e), c)
             | (None, c) \<Rightarrow> read_msg msgOp buf c)
          else if o' = opPong then read_msg msgOp buf c
          else if o' = opClose then (Inl (ServerClosed (wsCloseReason p)), c)
          else if o' = opText \<or> o' = opBinary then
            (if fin then (Inr (o', p), c) else read_msg o' p c)
          else if o' = opContinuation then
            (if msgOp = 0 then (Inl NoStartFrame, c)
             else if length buf + length p > wsMaxPayload then (Inl MessageTooBig, c)
             else if fin then (Inr (msgOp, buf @ p), c) else read_msg msgOp (buf @ p) c)
          else (Inl (BadOpcode o'), c))"
  by pat_completeness auto
termination
  by (relation "measure (\<lambda>(msgOp, buf, c). length (input c))") (auto dest: readFrame_consumes dest!: writeFrame_input [OF sym])

declare read_msg.simps [simp del]

definition readMessage :: "wsconn \<Rightarrow> (ws_error + byte \<times> byte list) \<times> wsconn" where
  "readMessage c = read_msg 0 [] c"

text \<open>A message in fragments: the opcode on the first, FIN on the last.\<close>

fun fragments :: "byte \<Rightarrow> byte list list \<Rightarrow> frame list" where
  "fragments op [] = []"
| "fragments op (p # ps) = (op, ps = [], p) # fragments opContinuation ps"

definition keepalive :: "frame \<Rightarrow> bool" where
  "keepalive f \<longleftrightarrow> fst f = opPing \<or> fst f = opPong"

definition pings :: "frame list \<Rightarrow> byte list list" where
  "pings fs = map (snd \<circ> snd) (filter (\<lambda>f. fst f = opPing) fs)"

definition pongs :: "byte list list \<Rightarrow> byte list list \<Rightarrow> byte list list" where
  "pongs mks ps = map2 (\<lambda>mk p. frame_bytes mk opPong p) mks ps"

text \<open>\<open>fs\<close> carries the fragments \<open>gs\<close>, with keepalives before and between them.\<close>

definition carries :: "frame list \<Rightarrow> frame list \<Rightarrow> bool" where
  "carries fs gs \<longleftrightarrow> filter (\<lambda>f. \<not> keepalive f) fs = gs \<and> (fs = [] \<or> \<not> keepalive (last fs))"

lemma carries_keepalive: "keepalive f \<Longrightarrow> carries (f # fs) gs \<Longrightarrow> carries fs gs \<and> fs \<noteq> []"
  by (auto simp: carries_def split: if_splits)

lemma carries_Nil: "carries fs [] \<Longrightarrow> fs = []"
  by (cases "fs = []") (use last_in_set [of fs] in \<open>auto simp: carries_def filter_empty_conv\<close>)

lemma carries_frame: "\<not> keepalive f \<Longrightarrow> carries (f # fs) gs \<Longrightarrow> \<exists>gs'. gs = f # gs' \<and> carries fs gs'"
  by (auto simp: carries_def split: if_splits)

definition stream :: "byte list option \<Rightarrow> frame list \<Rightarrow> byte list" where
  "stream mk fs = concat (map (enc_frame mk) fs)"

lemma read_msg_frame:
  assumes "good_frame mk (op, fin, p)" and "input c = enc_frame mk (op, fin, p) @ s"
  shows "readFrame (input c) = Inr ((op, fin, p), s)"
  using assms readFrame_enc by simp

lemma read_msg_ping:
  assumes "readFrame (input c) = Inr ((opPing, fin, p), s)" and "write_results c = Written mk # ws"
  shows "read_msg msgOp buf c = read_msg msgOp buf
    (c\<lparr>input := s, write_results := ws, frames_out := frames_out c @ [frame_bytes mk opPong p]\<rparr>)"
  using assms by (subst read_msg.simps) (simp add: writeFrame_def)

lemma read_msg_pong:
  "readFrame (input c) = Inr ((opPong, fin, p), s) \<Longrightarrow> read_msg msgOp buf c = read_msg msgOp buf (c\<lparr>input := s\<rparr>)"
  by (subst read_msg.simps) (simp add: opcodes)

lemma pings_simps [simp]:
  "pings [] = []" "pings ((op, fin, p) # fs) = (if op = opPing then [p] else []) @ pings fs"
  by (simp_all add: pings_def)

lemma pongs_simps [simp]: "pongs [] ps = []" "pongs (mk # mks) (p # ps) = frame_bytes mk opPong p # pongs mks ps"
  by (simp_all add: pongs_def)

lemma read_msg_continues:
  assumes "carries fs (fragments opContinuation ps)" and "ps \<noteq> []" and "list_all (good_frame mk) fs"
    and "input c = stream mk fs @ rest" and "write_results c = map Written mks @ ws"
    and "length mks = length (pings fs)" and "msgOp \<noteq> 0"
    and "length buf + length (concat ps) \<le> wsMaxPayload"
  shows "read_msg msgOp buf c = (Inr (msgOp, buf @ concat ps),
    c\<lparr>input := rest, write_results := ws, frames_out := frames_out c @ pongs mks (pings fs)\<rparr>)"
  using assms
proof (induction fs arbitrary: ps buf c mks)
  case Nil
  then show ?case
    by (cases ps) (simp_all add: carries_def)
next
  case (Cons f fs)
  obtain op fin p where f: "f = (op, fin, p)"
    by (cases f) auto
  let ?s = "stream mk fs @ rest"
  have read: "readFrame (input c) = Inr ((op, fin, p), ?s)"
    using Cons.prems(3,4) f by (intro read_msg_frame) (simp_all add: stream_def)
  show ?case
  proof (cases "keepalive f")
    case True
    from carries_keepalive [OF this Cons.prems(1)] have fs: "carries fs (fragments opContinuation ps)"
      by simp
    show ?thesis
    proof (cases "op = opPing")
      case True
      then obtain m ms where mks: "mks = m # ms"
        using Cons.prems(6) f by (cases mks) auto
      show ?thesis
        using read_msg_ping [of c fin p ?s m "map Written ms @ ws"] read True mks Cons.prems f
          Cons.IH [OF fs, of "c\<lparr>input := ?s, write_results := map Written ms @ ws,
            frames_out := frames_out c @ [frame_bytes m opPong p]\<rparr>" ms buf] by simp
    next
      case False
      with True f have "op = opPong"
        by (simp add: keepalive_def)
      with read False Cons.prems f Cons.IH [OF fs, of "c\<lparr>input := ?s\<rparr>" mks buf] show ?thesis
        by (simp add: read_msg_pong)
    qed
  next
    case False
    then obtain q qs where ps: "ps = q # qs" "f = (opContinuation, qs = [], q)"
        and fs: "carries fs (fragments opContinuation qs)"
      using carries_frame [OF False Cons.prems(1)] Cons.prems(2) by (cases ps) auto
    have step: "read_msg msgOp buf c =
        (if fin then (Inr (msgOp, buf @ p), c\<lparr>input := ?s\<rparr>) else read_msg msgOp (buf @ p) (c\<lparr>input := ?s\<rparr>))"
      using read ps f Cons.prems(7,8) by (subst read_msg.simps) (simp add: opcodes)
    have noping: "op \<noteq> opPing"
      using ps f by (simp add: opcodes)
    show ?thesis
    proof (cases "qs = []")
      case True
      with fs carries_Nil have "fs = []"
        by simp
      with True step ps f noping Cons.prems show ?thesis
        by (simp add: stream_def)
    next
      case False
      with step ps f noping Cons.prems Cons.IH [OF fs False, of "c\<lparr>input := ?s\<rparr>" mks "buf @ p"] show ?thesis
        by simp
    qed
  qed
qed

lemma read_msg_starts:
  assumes "carries fs (fragments op0 ps)" and "ps \<noteq> []" and "list_all (good_frame mk) fs"
    and "input c = stream mk fs @ rest" and "write_results c = map Written mks @ ws"
    and "length mks = length (pings fs)" and "op0 \<in> {opText, opBinary}"
    and "length (concat ps) \<le> wsMaxPayload"
  shows "read_msg msgOp buf c = (Inr (op0, concat ps),
    c\<lparr>input := rest, write_results := ws, frames_out := frames_out c @ pongs mks (pings fs)\<rparr>)"
  using assms
proof (induction fs arbitrary: c mks)
  case Nil
  then show ?case
    by (cases ps) (simp_all add: carries_def)
next
  case (Cons f fs)
  obtain op fin p where f: "f = (op, fin, p)"
    by (cases f) auto
  let ?s = "stream mk fs @ rest"
  have read: "readFrame (input c) = Inr ((op, fin, p), ?s)"
    using Cons.prems(3,4) f by (intro read_msg_frame) (simp_all add: stream_def)
  show ?case
  proof (cases "keepalive f")
    case True
    from carries_keepalive [OF this Cons.prems(1)] have fs: "carries fs (fragments op0 ps)"
      by simp
    show ?thesis
    proof (cases "op = opPing")
      case True
      then obtain m ms where mks: "mks = m # ms"
        using Cons.prems(6) f by (cases mks) auto
      show ?thesis
        using read_msg_ping [of c fin p ?s m "map Written ms @ ws"] read True mks Cons.prems f
          Cons.IH [OF fs, of "c\<lparr>input := ?s, write_results := map Written ms @ ws,
            frames_out := frames_out c @ [frame_bytes m opPong p]\<rparr>" ms] by simp
    next
      case False
      with True f have "op = opPong"
        by (simp add: keepalive_def)
      with read False Cons.prems f Cons.IH [OF fs, of "c\<lparr>input := ?s\<rparr>" mks] show ?thesis
        by (simp add: read_msg_pong)
    qed
  next
    case False
    then obtain q qs where ps: "ps = q # qs" "f = (op0, qs = [], q)"
        and fs: "carries fs (fragments opContinuation qs)"
      using carries_frame [OF False Cons.prems(1)] Cons.prems(2) by (cases ps) auto
    have step: "read_msg msgOp buf c =
        (if fin then (Inr (op0, p), c\<lparr>input := ?s\<rparr>) else read_msg op0 p (c\<lparr>input := ?s\<rparr>))"
      using read ps f Cons.prems(7) by (subst read_msg.simps) (auto simp: opcodes)
    have noping: "op \<noteq> opPing" and nz: "op0 \<noteq> 0"
      using ps f Cons.prems(7) by (auto simp: opcodes)
    show ?thesis
    proof (cases "qs = []")
      case True
      with fs carries_Nil have "fs = []"
        by simp
      with True step ps f noping Cons.prems show ?thesis
        by (simp add: stream_def)
    next
      case False
      with step ps f noping nz Cons.prems
        read_msg_continues [OF fs False, of mk "c\<lparr>input := ?s\<rparr>" rest mks ws op0 p] show ?thesis
        by simp
    qed
  qed
qed

lemma read_msg_result:
  "read_msg msgOp buf c = (Inr (op, p), c') \<Longrightarrow> length buf \<le> wsMaxPayload \<Longrightarrow> msgOp \<in> {0, opText, opBinary} \<Longrightarrow>
     length p \<le> wsMaxPayload \<and> op \<in> {opText, opBinary} \<and> length (input c') < length (input c)
     \<and> length p + length (input c') + 2 \<le> length (input c) + length buf"
proof (induction msgOp buf c arbitrary: op p c' rule: read_msg.induct)
  case (1 msgOp buf c)
  show ?case
  proof (cases "readFrame (input c)")
    case (Inl e)
    with "1.prems"(1) show ?thesis
      by (subst (asm) read_msg.simps) simp
  next
    case (Inr r)
    obtain o' fin q s where r: "r = ((o', fin, q), s)"
      by (metis prod.exhaust)
    note read = Inr [unfolded r]
    have len: "length q + length s + 2 \<le> length (input c)" "length q \<le> wsMaxPayload"
      using read readFrame_uses readFrame_bound by blast+
    let ?c = "c\<lparr>input := s\<rparr>"
    note IH = "1.IH" [OF read refl refl refl refl]
    note unfold = "1.prems"(1) [unfolded read_msg.simps [of msgOp buf c] read sum.case prod.case Let_def]
    consider (ping) "o' = opPing" | (pong) "o' = opPong" | (data) "o' = opText \<or> o' = opBinary"
      | (cont) "o' = opContinuation" | (other) "o' \<notin> {opPing, opPong, opText, opBinary, opContinuation}"
      by blast
    then show ?thesis
    proof cases
      case ping
      obtain e c1 where w: "writeFrame opPong q ?c = (e, c1)"
        by fastforce
      with unfold ping have e: "e = None" and rec: "read_msg msgOp buf c1 = (Inr (op, p), c')"
        by (cases e; simp)+
      have "input c1 = s"
        using writeFrame_input [OF w] by simp
      with IH(1) [OF ping w [symmetric] e rec "1.prems"(2,3)] len show ?thesis
        by simp
    next
      case pong
      with unfold have "read_msg msgOp buf ?c = (Inr (op, p), c')"
        by (simp add: opcodes)
      with IH(2) [OF _ pong this "1.prems"(2,3)] pong len show ?thesis
        by (simp add: opcodes)
    next
      case data
      then have ne: "o' \<noteq> opPing" "o' \<noteq> opPong" "o' \<noteq> opClose"
        by (auto simp: opcodes)
      show ?thesis
      proof (cases fin)
        case True
        with unfold data ne len show ?thesis
          by auto
      next
        case False
        with unfold data ne have "read_msg o' q ?c = (Inr (op, p), c')"
          by auto
        with IH(3) [OF ne data False this len(2)] data len show ?thesis
          by auto
      qed
    next
      case cont
      then have ne: "o' \<noteq> opPing" "o' \<noteq> opPong" "o' \<noteq> opClose" "\<not> (o' = opText \<or> o' = opBinary)"
        by (auto simp: opcodes)
      from unfold cont ne have go: "msgOp \<noteq> 0" "\<not> length buf + length q > wsMaxPayload"
        by (auto split: if_splits)
      show ?thesis
      proof (cases fin)
        case True
        with unfold cont ne go "1.prems"(3) len show ?thesis
          by auto
      next
        case False
        with unfold cont ne go have "read_msg msgOp (buf @ q) ?c = (Inr (op, p), c')"
          by auto
        with IH(4) [OF ne cont go False this] go "1.prems"(3) len show ?thesis
          by auto
      qed
    next
      case other
      with unfold show ?thesis
        by (auto split: if_splits)
    qed
  qed
qed

lemma read_msg_input: "length (input (snd (read_msg msgOp buf c))) \<le> length (input c)"
proof (induction msgOp buf c rule: read_msg.induct)
  case (1 msgOp buf c)
  show ?case
  proof (cases "readFrame (input c)")
    case (Inl e)
    then show ?thesis
      by (simp add: read_msg.simps [of msgOp buf c])
  next
    case (Inr r)
    obtain o' fin q s where r: "r = ((o', fin, q), s)"
      by (metis prod.exhaust)
    note read = Inr [unfolded r]
    have len: "length s \<le> length (input c)"
      using readFrame_consumes [OF read] by simp
    let ?c = "c\<lparr>input := s\<rparr>"
    note IH = "1.IH" [OF read refl refl refl refl]
    note unfold = read_msg.simps [of msgOp buf c, unfolded read sum.case prod.case Let_def]
    obtain e c1 where w: "writeFrame opPong q ?c = (e, c1)"
      by fastforce
    have c1: "input c1 = s"
      using writeFrame_input [OF w] by simp
    consider (ping) "o' = opPing" | (pong) "o' = opPong" "o' \<noteq> opPing" | (closed) "o' = opClose" "o' \<noteq> opPing" "o' \<noteq> opPong"
      | (data) "o' = opText \<or> o' = opBinary" "o' \<noteq> opPing" "o' \<noteq> opPong" "o' \<noteq> opClose"
      | (rest) "\<not> (o' = opText \<or> o' = opBinary)" "o' \<noteq> opPing" "o' \<noteq> opPong" "o' \<noteq> opClose"
      by blast
    then show ?thesis
    proof cases
      case ping
      show ?thesis
      proof (cases e)
        case None
        with unfold w IH(1) [OF ping w [symmetric] None] ping c1 len show ?thesis
          by simp
      next
        case (Some x)
        with unfold w ping c1 len show ?thesis
          by simp
      qed
    next
      case pong
      with unfold IH(2) [OF pong(2) pong(1)] len show ?thesis
        by simp
    next
      case closed
      with unfold len show ?thesis
        by simp
    next
      case data
      show ?thesis
      proof (cases fin)
        case True
        with unfold data len show ?thesis
          by simp
      next
        case False
        with unfold data len IH(3) [OF data(2-4,1) False] show ?thesis
          by simp
      qed
    next
      case rest
      show ?thesis
      proof (cases "o' = opContinuation \<and> msgOp \<noteq> 0 \<and> \<not> length buf + length q > wsMaxPayload \<and> \<not> fin")
        case True
        then have go: "o' = opContinuation" "msgOp \<noteq> 0" "\<not> length buf + length q > wsMaxPayload" "\<not> fin"
          by simp_all
        with unfold rest len IH(4) [OF rest(2-4,1) go] show ?thesis
          by simp
      next
        case False
        with unfold rest len show ?thesis
          by auto
      qed
    qed
  qed
qed

section \<open>Properties\<close>

text \<open>What the client writes can be read: a frame of \<^verbatim>\<open>writeFrame\<close>, with any opcode and mask and a payload up
  to the cap, is read back by \<^verbatim>\<open>readFrame\<close> as a final frame with the same opcode and payload, in each of
  the three length formats, leaving what follows.\<close>

theorem writeFrame_readFrame:
  assumes "length mk = 4" and "op AND 0x0F = op" and "length payload \<le> 65536"
  shows "readFrame (frame_bytes mk op payload @ rest) = Inr ((op, True, payload), rest)"
  using assms by (simp add: frame_bytes_enc readFrame_enc good_frame_def wsMaxPayload_def)

theorem writeFrame_readFrame_witness:
  "readFrame (frame_bytes [1, 2, 3, 4] opPong [0xAA, 0xBB] @ [7]) = Inr ((opPong, True, [0xAA, 0xBB]), [7])"
  by (rule writeFrame_readFrame) (simp_all add: opPong_def)

text \<open>Reading a frame is bounded on every input: a payload has at most 64 KiB, whatever size the header
  announces in 64 bits; a size is refused only above the cap; and each frame consumes input.\<close>

theorem readFrame_bounds:
  "case readFrame s of
     Inr ((op, fin, payload), rest) \<Rightarrow> length payload \<le> 65536 \<and> length rest < length s
   | Inl (FrameTooBig n) \<Rightarrow> 65536 < n
   | Inl ReadFailed \<Rightarrow> True
   | Inl _ \<Rightarrow> False"
proof (cases "readFrame s")
  case (Inl e)
  with readFrame_errors [OF Inl] show ?thesis
    by (auto simp: wsMaxPayload_def)
next
  case (Inr r)
  then show ?thesis
    using readFrame_bound [of s] readFrame_consumes [of s] by (auto simp: wsMaxPayload_def)
qed

text \<open>C7: A message is reassembled whatever keepalives come between its fragments: the opcode of the first fragment,
  the payloads joined, and every ping answered in order by a pong with the ping's payload. Nothing
  beyond the last fragment is consumed and nothing else is written.\<close>

theorem readMessage_fragments:
  assumes "carries fs (fragments op ps)" and "ps \<noteq> []" and "op \<in> {opText, opBinary}"
    and "list_all (good_frame mk) fs" and "input c = stream mk fs @ rest"
    and "write_results c = map Written mks @ ws" and "length mks = length (pings fs)"
    and "length (concat ps) \<le> 65536"
  shows "readMessage c = (Inr (op, concat ps),
    c\<lparr>input := rest, write_results := ws, frames_out := frames_out c @ pongs mks (pings fs)\<rparr>)"
  using assms read_msg_starts [of fs op ps mk c rest mks ws] by (simp add: readMessage_def wsMaxPayload_def)

theorem readMessage_fragments_witness:
  "readMessage \<lparr>input = stream None [(opPing, True, [9]), (opBinary, False, [1]), (opPing, True, []), (opContinuation, True, [2])],
      frames_out = [], write_results = [Written [0, 0, 0, 1], Written [5, 6, 7, 8]]\<rparr>
   = (Inr (opBinary, [1, 2]),
      \<lparr>input = [], frames_out = [frame_bytes [0, 0, 0, 1] opPong [9], frame_bytes [5, 6, 7, 8] opPong []], write_results = []\<rparr>)"
proof -
  let ?fs = "[(opPing, True, [9]), (opBinary, False, [1]), (opPing, True, []), (opContinuation, True, [2 :: byte])]"
  have c: "carries ?fs (fragments opBinary [[1], [2]])"
    by (simp add: carries_def keepalive_def opcodes)
  have g: "list_all (good_frame None) ?fs"
    by (simp add: good_frame_def wsMaxPayload_def opcodes)
  have ps: "pings ?fs = [[9], []]"
    by (simp add: opcodes)
  from readMessage_fragments [OF c _ _ g, of
      "\<lparr>input = stream None ?fs, frames_out = [], write_results = [Written [0, 0, 0, 1], Written [5, 6, 7, 8]]\<rparr>"
      "[]" "[[0, 0, 0, 1], [5, 6, 7, 8]]" "[]"]
  show ?thesis
    by (simp add: ps del: pings_simps)
qed

text \<open>Every message that is returned is text or binary and has at most 64 KiB, however it is fragmented, and
  input was consumed for it.\<close>

theorem readMessage_bounds:
  "case readMessage c of
     (Inr (op, p), c') \<Rightarrow> op \<in> {opText, opBinary} \<and> length p \<le> 65536 \<and> length (input c') < length (input c)
   | (Inl _, _) \<Rightarrow> True"
  using read_msg_result [of 0 "[]" c]
  by (auto simp: readMessage_def wsMaxPayload_def split: sum.split)

end
