(* ===== verification/Ws_Crypto.thy ===== *)
theory Ws_Crypto
  imports Relay_Prelude
begin

text \<open>
  \<^verbatim>\<open>wsDecrypt\<close> (\<^verbatim>\<open>ws.go\<close>): an initialisation vector, cipher blocks chained by CBC, and PKCS#7 padding.
  The block cipher (\<^verbatim>\<open>crypto/aes\<close>) is a parameter: \<open>newCipher key\<close> gives the decryption of one block,
  or \<open>None\<close> for a key length it does not support.
\<close>

unbundle bit_operations_syntax

section \<open>Decryption\<close>

definition blockSize :: nat where "blockSize = 16"

datatype decrypt_error = PayloadTooShort nat | NotBlockAligned | BadKeySize | BadPadding

definition xor_block :: "byte list \<Rightarrow> byte list \<Rightarrow> byte list" where
  "xor_block a b = map2 (XOR) a b"

function cbc_decrypt :: "(byte list \<Rightarrow> byte list) \<Rightarrow> byte list \<Rightarrow> byte list \<Rightarrow> byte list" where
  "cbc_decrypt dec iv cs =
     (if length cs < blockSize then []
      else xor_block (dec (take blockSize cs)) iv @ cbc_decrypt dec (take blockSize cs) (drop blockSize cs))"
  by pat_completeness auto
termination
  by (relation "measure (\<lambda>(dec, iv, cs). length cs)") (auto simp: blockSize_def)

declare cbc_decrypt.simps [simp del]

definition strip_padding :: "byte list \<Rightarrow> decrypt_error + byte list" where
  "strip_padding out =
     (let pad = unat (last out) in
      if pad = 0 \<or> pad > blockSize \<or> pad > length out then Inl BadPadding
      else if list_all (\<lambda>b. unat b = pad) (drop (length out - pad) out)
      then Inr (take (length out - pad) out)
      else Inl BadPadding)"

definition wsDecrypt ::
    "(byte list \<Rightarrow> (byte list \<Rightarrow> byte list) option) \<Rightarrow> byte list \<Rightarrow> byte list \<Rightarrow> decrypt_error + byte list" where
  "wsDecrypt newCipher data key =
     (if length data < 2 * blockSize then Inl (PayloadTooShort (length data))
      else if (length data - blockSize) mod blockSize \<noteq> 0 then Inl NotBlockAligned
      else (case newCipher key of
          None \<Rightarrow> Inl BadKeySize
        | Some dec \<Rightarrow> strip_padding (cbc_decrypt dec (take blockSize data) (drop blockSize data))))"

section \<open>What the panel sends\<close>

function cbc_encrypt :: "(byte list \<Rightarrow> byte list) \<Rightarrow> byte list \<Rightarrow> byte list \<Rightarrow> byte list" where
  "cbc_encrypt enc iv ps =
     (if length ps < blockSize then []
      else let c = enc (xor_block (take blockSize ps) iv) in c @ cbc_encrypt enc c (drop blockSize ps))"
  by pat_completeness auto
termination
  by (relation "measure (\<lambda>(enc, iv, ps). length ps)") (auto simp: blockSize_def)

declare cbc_encrypt.simps [simp del]

definition add_padding :: "byte list \<Rightarrow> byte list" where
  "add_padding p = (let n = blockSize - length p mod blockSize in p @ replicate n (of_nat n))"

definition ws_encrypt :: "(byte list \<Rightarrow> byte list) \<Rightarrow> byte list \<Rightarrow> byte list \<Rightarrow> byte list" where
  "ws_encrypt enc iv p = iv @ cbc_encrypt enc iv (add_padding p)"

lemma length_xor_block [simp]: "length (xor_block a b) = min (length a) (length b)"
  by (simp add: xor_block_def)

lemma xor_block_twice: "length a \<le> length b \<Longrightarrow> xor_block (xor_block a b) b = a"
  by (rule nth_equalityI) (simp_all add: xor_block_def xor.assoc)

lemma xor_block_swap: "xor_block (xor_block a b) c = xor_block (xor_block a c) b"
  by (rule nth_equalityI) (simp_all add: xor_block_def ac_simps)

lemma cbc_encrypt_block:
  "length p = blockSize \<Longrightarrow> cbc_encrypt enc iv (p @ ps) =
     enc (xor_block p iv) @ cbc_encrypt enc (enc (xor_block p iv)) ps"
  by (subst cbc_encrypt.simps) (simp add: Let_def)

lemma cbc_decrypt_block:
  "length c = blockSize \<Longrightarrow> cbc_decrypt dec iv (c @ cs) = xor_block (dec c) iv @ cbc_decrypt dec c cs"
  by (subst cbc_decrypt.simps) simp

lemma cbc_Nil [simp]: "cbc_decrypt dec iv [] = []" "cbc_encrypt enc iv [] = []"
  by (subst cbc_decrypt.simps, simp add: blockSize_def) (subst cbc_encrypt.simps, simp add: blockSize_def)

text \<open>Induction over whole blocks.\<close>

lemma blocks_induct [consumes 1, case_names Nil block]:
  assumes "length ps mod blockSize = 0" and "P []"
    and "\<And>b ps. length b = blockSize \<Longrightarrow> length ps mod blockSize = 0 \<Longrightarrow> P ps \<Longrightarrow> P (b @ ps)"
  shows "P ps"
  using assms(1)
proof (induction "length ps" arbitrary: ps rule: less_induct)
  case less
  show ?case
  proof (cases "ps = []")
    case True
    with assms(2) show ?thesis by simp
  next
    case False
    with less.prems have long: "blockSize \<le> length ps"
      using dvd_imp_le [of blockSize "length ps"] by (simp add: mod_eq_0_iff_dvd)
    then have rest: "length (drop blockSize ps) mod blockSize = 0"
      using less.prems by (simp add: le_mod_geq)
    have "length (drop blockSize ps) < length ps"
      using long by (simp add: blockSize_def)
    from less.hyps [OF this rest] have "P (take blockSize ps @ drop blockSize ps)"
      using long rest by (intro assms(3)) simp_all
    then show ?thesis
      by simp
  qed
qed

lemma cbc_roundtrip:
  assumes "length ps mod blockSize = 0" and "length iv = blockSize"
    and "\<And>b. length b = blockSize \<Longrightarrow> length (enc b) = blockSize \<and> dec (enc b) = b"
  shows "cbc_decrypt dec iv (cbc_encrypt enc iv ps) = ps \<and> length (cbc_encrypt enc iv ps) = length ps"
  using assms(1,2)
proof (induction ps arbitrary: iv rule: blocks_induct)
  case (block b ps)
  have e: "length (enc (xor_block b iv)) = blockSize" "dec (enc (xor_block b iv)) = xor_block b iv"
    using assms(3) [of "xor_block b iv"] block by simp_all
  with block show ?case
    by (simp add: cbc_encrypt_block cbc_decrypt_block xor_block_twice)
qed simp

lemma strip_padding_pad:
  assumes "0 < n" and "n \<le> blockSize"
  shows "strip_padding (p @ replicate n (of_nat n)) = Inr p"
proof -
  have "unat (of_nat n :: byte) = n"
    using assms by (simp add: unat_of_nat blockSize_def)
  with assms show ?thesis
    by (simp add: strip_padding_def Let_def list_all_iff)
qed

lemma add_padding_strip: "strip_padding (add_padding p) = Inr p"
  and add_padding_length: "length (add_padding p) mod blockSize = 0" "0 < length (add_padding p)"
proof -
  let ?n = "blockSize - length p mod blockSize"
  have n: "0 < ?n" "?n \<le> blockSize"
    by (simp_all add: blockSize_def)
  then show "strip_padding (add_padding p) = Inr p"
    unfolding add_padding_def Let_def by (rule strip_padding_pad)
  have "length p + ?n = blockSize * (length p div blockSize + 1)"
    using n(2) mult_div_mod_eq [of blockSize "length p"] by (simp only: blockSize_def) presburger
  then have "length (add_padding p) = blockSize * (length p div blockSize + 1)"
    by (simp add: add_padding_def Let_def)
  then show "length (add_padding p) mod blockSize = 0" and "0 < length (add_padding p)"
    by (simp_all add: blockSize_def)
qed

lemma length_cbc_decrypt:
  assumes "length cs mod blockSize = 0" and "length iv = blockSize" and "\<And>b. length b = blockSize \<Longrightarrow> length (dec b) = blockSize"
  shows "length (cbc_decrypt dec iv cs) = length cs"
  using assms(1,2)
  by (induction cs arbitrary: iv rule: blocks_induct) (simp_all add: cbc_decrypt_block assms(3))

lemma wsDecrypt_sealed:
  assumes "newCipher key = Some dec" and "length iv = 16"
    and "\<And>b. length b = 16 \<Longrightarrow> length (enc b) = 16 \<and> dec (enc b) = b"
  shows "wsDecrypt newCipher (ws_encrypt enc iv plain) key = Inr plain"
proof -
  have iv: "length iv = blockSize"
    using assms(2) by (simp add: blockSize_def)
  note rt = cbc_roundtrip [OF add_padding_length(1) [of plain] iv, of enc dec]
  have enc: "cbc_decrypt dec iv (cbc_encrypt enc iv (add_padding plain)) = add_padding plain"
    "length (cbc_encrypt enc iv (add_padding plain)) = length (add_padding plain)"
    using rt assms(3) by (simp_all add: blockSize_def)
  have "blockSize \<le> length (add_padding plain)"
    using add_padding_length [of plain] dvd_imp_le [of blockSize "length (add_padding plain)"]
    by (simp add: mod_eq_0_iff_dvd)
  then show ?thesis
    using assms(1) iv enc add_padding_length(1) [of plain]
    by (simp add: wsDecrypt_def ws_encrypt_def add_padding_strip)
qed

section \<open>Properties\<close>

text \<open>C25: Decryption inverts what the panel does: for every block cipher whose decryption undoes its encryption, a
  plain text padded and chained under any vector decrypts to itself.\<close>

theorem wsDecrypt_roundtrip:
  assumes "newCipher key = Some dec" and "length iv = 16"
    and "\<And>b. length b = 16 \<Longrightarrow> length (enc b) = 16 \<and> dec (enc b) = b"
  shows "wsDecrypt newCipher (ws_encrypt enc iv plain) key = Inr plain"
  using assms by (rule wsDecrypt_sealed)

definition toy_cipher :: "byte list \<Rightarrow> (byte list \<Rightarrow> byte list) option" where
  "toy_cipher key = (if length key = 16 then Some (\<lambda>b. rev (xor_block b key)) else None)"

theorem wsDecrypt_roundtrip_witness:
  "wsDecrypt toy_cipher (ws_encrypt (\<lambda>b. xor_block (rev b) (replicate 16 7)) (replicate 16 1) [10, 20, 30]) (replicate 16 7)
     = Inr [10, 20, 30]"
proof (rule wsDecrypt_roundtrip)
  show "toy_cipher (replicate 16 7) = Some (\<lambda>b. rev (xor_block b (replicate 16 7)))"
    by (simp add: toy_cipher_def)
  show "length (xor_block (rev b) (replicate 16 7)) = 16 \<and>
      rev (xor_block (xor_block (rev b) (replicate 16 7)) (replicate 16 7)) = b" if "length b = 16" for b :: "byte list"
    using that by (simp add: xor_block_twice)
qed simp

text \<open>There is no authentication: whoever can alter a message changes the first block of its plain text at will, for
  any cipher and key, by altering the vector, and the change is not noticed.\<close>

theorem wsDecrypt_malleable:
  assumes "wsDecrypt newCipher (iv @ cs) key = Inr plain" and "length iv = 16" and "length d = 16"
    and "16 \<le> length plain" and "\<And>dec b. newCipher key = Some dec \<Longrightarrow> length b = 16 \<Longrightarrow> length (dec b) = 16"
  shows "wsDecrypt newCipher (xor_block iv d @ cs) key = Inr (xor_block (take 16 plain) d @ drop 16 plain)"
proof -
  have iv: "length iv = blockSize" and d: "length (xor_block iv d) = blockSize" "length d = blockSize"
    using assms(2,3) by (simp_all add: blockSize_def)
  from assms(1) iv obtain dec where dec: "newCipher key = Some dec" and cs: "blockSize \<le> length cs"
      and aligned: "length cs mod blockSize = 0" and strip: "strip_padding (cbc_decrypt dec iv cs) = Inr plain"
    by (auto simp: wsDecrypt_def split: if_splits option.splits)
  have len: "length (dec b) = blockSize" if "length b = blockSize" for b
    using that assms(5) [OF dec] by (simp add: blockSize_def)
  obtain c r where c: "cs = c @ r" "length c = blockSize"
    using cs by (metis append_take_drop_id length_take min.absorb2)
  let ?rest = "cbc_decrypt dec c r"
  have out: "cbc_decrypt dec iv cs = xor_block (dec c) iv @ ?rest"
    "cbc_decrypt dec (xor_block iv d) cs = xor_block (xor_block (dec c) iv) d @ ?rest"
  proof -
    have "xor_block (dec c) (xor_block iv d) = xor_block (xor_block (dec c) iv) d"
      using len [OF c(2)] iv d by (intro nth_equalityI) (simp_all add: xor_block_def ac_simps)
    then show "cbc_decrypt dec iv cs = xor_block (dec c) iv @ ?rest"
      "cbc_decrypt dec (xor_block iv d) cs = xor_block (xor_block (dec c) iv) d @ ?rest"
      by (simp_all add: c cbc_decrypt_block)
  qed
  let ?A = "xor_block (dec c) iv"
  have A: "length ?A = blockSize" "length (xor_block ?A d) = blockSize"
    using len [OF c(2)] iv d by simp_all
  have "?rest \<noteq> []"
  proof
    assume "?rest = []"
    with strip out(1) A have "length plain < blockSize"
      by (auto simp: strip_padding_def Let_def split: if_splits)
    with assms(4) show False
      by (simp add: blockSize_def)
  qed
  let ?pad = "unat (last ?rest)"
  have pad: "?pad \<noteq> 0" "?pad \<le> blockSize" "list_all (\<lambda>b. unat b = ?pad) (drop (length (?A @ ?rest) - ?pad) (?A @ ?rest))"
    and plain: "plain = take (length (?A @ ?rest) - ?pad) (?A @ ?rest)"
    using strip \<open>?rest \<noteq> []\<close> unfolding out(1) strip_padding_def Let_def by (auto split: if_splits)
  have keep: "length (?A @ ?rest) - ?pad \<ge> blockSize"
    using assms(4) plain by (simp add: blockSize_def)
  have "strip_padding (xor_block ?A d @ ?rest) = Inr (xor_block ?A d @ take (length ?rest - ?pad) ?rest)"
    using pad keep A \<open>?rest \<noteq> []\<close> unfolding strip_padding_def Let_def by simp
  moreover have "take 16 plain = ?A" and "drop 16 plain = take (length ?rest - ?pad) ?rest"
    using plain keep A by (simp_all add: blockSize_def)
  ultimately show ?thesis
    using dec iv d aligned cs out(2) by (simp add: wsDecrypt_def)
qed

theorem wsDecrypt_malleable_witness:
  "wsDecrypt toy_cipher (xor_block (replicate 16 1) (replicate 16 0xFF)
      @ cbc_encrypt (\<lambda>b. xor_block (rev b) (replicate 16 7)) (replicate 16 1) (add_padding (replicate 18 0x20))) (replicate 16 7)
   = Inr (replicate 16 0xDF @ [0x20, 0x20])"
proof -
  let ?cs = "cbc_encrypt (\<lambda>b. xor_block (rev b) (replicate 16 7)) (replicate 16 1) (add_padding (replicate 18 0x20))"
  have h: "wsDecrypt toy_cipher (replicate 16 1 @ ?cs) (replicate 16 7) = Inr (replicate 18 0x20)"
    by code_simp
  have "length (dec b) = 16" if "toy_cipher (replicate 16 7) = Some dec" "length b = 16" for dec and b :: "byte list"
    using that by (auto simp: toy_cipher_def)
  then have "wsDecrypt toy_cipher (xor_block (replicate 16 1) (replicate 16 0xFF) @ ?cs) (replicate 16 7)
      = Inr (xor_block (take 16 (replicate 18 0x20)) (replicate 16 0xFF) @ drop 16 (replicate 18 0x20))"
    by (intro wsDecrypt_malleable [OF h]) simp_all
  moreover have "xor_block (take 16 (replicate 18 0x20)) (replicate 16 0xFF) @ drop 16 (replicate 18 0x20)
      = (replicate 16 0xDF @ [0x20, 0x20] :: byte list)"
    by code_simp
  ultimately show ?thesis
    by simp
qed

end
