(* ===== verification/Ws_Session.thy ===== *)
theory Ws_Session
  imports Http Ws_Frame Ws_Crypto
begin

text \<open>
  The WebSocket front end (\<^verbatim>\<open>ws.go\<close>): the pairing identity, the handling of one decrypted request, a
  session (\<^verbatim>\<open>wsServe\<close>) and the reconnect loop (\<^verbatim>\<open>runWS\<close>). Parameters are the block cipher, the texts of errors of the operating system, and the clock.
\<close>

section \<open>The pairing identity\<close>

record wsIdentity =
  DeviceID :: string
  Key :: string

datatype id_error = IdNotJson | IdBadKey | IdNoDevice | IdRandom | IdWrite

text \<open>\<^verbatim>\<open>json.MarshalIndent\<close> of an identity whose fields are hex, with the newline written behind it.\<close>

definition identity_text :: "wsIdentity \<Rightarrow> string" where
  "identity_text i =
     ''{'' @ [CHR 0x0A] @ ''  '' @ [CHR 0x22] @ ''device_id'' @ [CHR 0x22] @ '': '' @ [CHR 0x22] @ DeviceID i @ [CHR 0x22] @ '','' @ [CHR 0x0A]
     @ ''  '' @ [CHR 0x22] @ ''encryption_key'' @ [CHR 0x22] @ '': '' @ [CHR 0x22] @ Key i @ [CHR 0x22] @ [CHR 0x0A] @ ''}'' @ [CHR 0x0A]"

definition identity_field :: "string \<Rightarrow> json \<Rightarrow> wsIdentity \<Rightarrow> wsIdentity option" where
  "identity_field k v i =
     (if equal_fold k ''device_id'' then map_option (\<lambda>s. i\<lparr>DeviceID := s\<rparr>) (store_string v (DeviceID i))
      else if equal_fold k ''encryption_key'' then map_option (\<lambda>s. i\<lparr>Key := s\<rparr>) (store_string v (Key i))
      else Some i)"

definition unmarshal_identity :: "byte list \<Rightarrow> wsIdentity option" where
  "unmarshal_identity b = unmarshal identity_field \<lparr>DeviceID = [], Key = []\<rparr> b"

text \<open>
  \<open>file\<close> is the content of the identity file if it can be read, \<open>rnd1\<close> and \<open>rnd2\<close> the outcomes of the
  two calls of \<^verbatim>\<open>randRead\<close>, \<open>writable\<close> whether the file can be written. The second component is the
  content of the file afterwards.
\<close>

definition loadWSIdentity ::
    "string option \<Rightarrow> byte list option \<Rightarrow> byte list option \<Rightarrow> bool
      \<Rightarrow> (id_error + wsIdentity \<times> byte list) \<times> string option" where
  "loadWSIdentity file rnd1 rnd2 writable =
     (case file of
        Some b \<Rightarrow>
          (case unmarshal_identity (bytes_of_string b) of
             None \<Rightarrow> (Inl IdNotJson, file)
           | Some i \<Rightarrow>
               (case hex_decode (Key i) of
                  None \<Rightarrow> (Inl IdBadKey, file)
                | Some key \<Rightarrow>
                    if length key \<noteq> 16 then (Inl IdBadKey, file)
                    else if length (DeviceID i) = 0 then (Inl IdNoDevice, file)
                    else (Inr (i, key), file)))
      | None \<Rightarrow>
          (case rnd1 of
             None \<Rightarrow> (Inl IdRandom, None)
           | Some devID \<Rightarrow>
               (case rnd2 of
                  None \<Rightarrow> (Inl IdRandom, None)
                | Some key \<Rightarrow>
                    let i = \<lparr>DeviceID = hex_encode devID, Key = hex_encode key\<rparr> in
                    if writable then (Inr (i, key), Some (identity_text i)) else (Inl IdWrite, None))))"

section \<open>One request\<close>

record wsRequest =
  ws_type :: string
  ws_PDU :: string
  ws_Length :: "int option"
  ws_SMS :: string
  ws_Phone :: string

definition request_field :: "string \<Rightarrow> json \<Rightarrow> wsRequest \<Rightarrow> wsRequest option" where
  "request_field k v r =
     (if equal_fold k ''type'' then map_option (\<lambda>s. r\<lparr>ws_type := s\<rparr>) (store_string v (ws_type r))
      else if equal_fold k ''pdu'' then map_option (\<lambda>s. r\<lparr>ws_PDU := s\<rparr>) (store_string v (ws_PDU r))
      else if equal_fold k ''length'' then map_option (\<lambda>n. r\<lparr>ws_Length := n\<rparr>) (store_int_ptr v)
      else if equal_fold k ''sms'' then map_option (\<lambda>s. r\<lparr>ws_SMS := s\<rparr>) (store_string v (ws_SMS r))
      else if equal_fold k ''phone'' then map_option (\<lambda>s. r\<lparr>ws_Phone := s\<rparr>) (store_string v (ws_Phone r))
      else Some r)"

definition unmarshal_request :: "byte list \<Rightarrow> wsRequest option" where
  "unmarshal_request b =
     unmarshal request_field \<lparr>ws_type = [], ws_PDU = [], ws_Length = None, ws_SMS = [], ws_Phone = []\<rparr> b"

definition ws_record :: "int \<Rightarrow> string \<Rightarrow> log_record \<Rightarrow> log_record" where
  "ws_record ts result kvs = [(''ts'', JTime ts), (''mode'', JStr ''ws''), (''result'', JStr result)] @ kvs"

definition ws_job :: "int \<Rightarrow> wsRequest \<Rightarrow> pduInfo \<Rightarrow> job" where
  "ws_job ts req info =
     (let tpduLen = (case ws_Length req of Some n \<Rightarrow> if n > 0 then n else int (atLength info) | None \<Rightarrow> int (atLength info))
      in \<lparr>job_pdu = ws_PDU req, job_len = tpduLen,
          job_base = [(''ts'', JTime ts), (''mode'', JStr ''ws''), (''phone'', JStr (redact (phone info))),
            (''dcs'', JNum (int (dcs info))), (''tpdu_len'', JNum tpduLen), (''type'', JStr ''pdu'')]\<rparr>)"

definition handleWSRequest :: "config \<Rightarrow> int \<Rightarrow> byte list \<Rightarrow> relay \<Rightarrow> relay" where
  "handleWSRequest cfg now plain st =
     (case unmarshal_request plain of
        None \<Rightarrow> logJSON (ws_record now ''not-json'' []) st
      | Some req \<Rightarrow>
          if ws_type req = ''connect'' then logJSON (ws_record now ''ws-connect'' []) st
          else if ws_type req = ''pdu'' then
            (case decodeSubmitPDU (ws_PDU req) of
               Inl _ \<Rightarrow> logJSON (ws_record now ''bad-pdu'' []) st
             | Inr info \<Rightarrow>
                 if \<not> destinationAllowed (allowedDest cfg) (phone info)
                 then logJSON (ws_record now ''dest-refused'' [(''phone'', JStr (redact (phone info)))]) st
                 else
                   let (ok, st) = claim (cooldown cfg) now (ws_PDU req) st in
                   if \<not> ok then logJSON (ws_record now ''cooldown-dup'' [(''phone'', JStr (redact (phone info)))]) st
                   else spawn (ws_job now req info) st)
          else if ws_type req = ''sms'' then
            logJSON (ws_record now ''text-sms-unsupported'' [(''phone'', jstr_opt (redactOrNil (ws_Phone req)))]) st
          else logJSON (ws_record now ''unknown-type'' [(''at'', JStr (ws_type req))]) st)"

datatype ws_verdict =
    WsNotJson | WsConnect | WsBadPdu | WsRefused | WsDup | WsQueued wsRequest pduInfo | WsText | WsUnknown

definition ws_verdict_of :: "config \<Rightarrow> int \<Rightarrow> byte list \<Rightarrow> dedup \<Rightarrow> ws_verdict" where
  "ws_verdict_of cfg now plain d =
     (case unmarshal_request plain of
        None \<Rightarrow> WsNotJson
      | Some req \<Rightarrow>
          if ws_type req = ''connect'' then WsConnect
          else if ws_type req = ''sms'' then WsText
          else if ws_type req \<noteq> ''pdu'' then WsUnknown
          else (case decodeSubmitPDU (ws_PDU req) of
              Inl _ \<Rightarrow> WsBadPdu
            | Inr info \<Rightarrow>
                if \<not> destinationAllowed (allowedDest cfg) (phone info) then WsRefused
                else if fst (claimPDU (cooldown cfg) now (ws_PDU req) d) then WsQueued req info else WsDup))"

fun ws_verdict_text :: "ws_verdict \<Rightarrow> string option" where
  "ws_verdict_text WsNotJson = Some ''not-json''" | "ws_verdict_text WsConnect = Some ''ws-connect''"
| "ws_verdict_text WsBadPdu = Some ''bad-pdu''" | "ws_verdict_text WsRefused = Some ''dest-refused''"
| "ws_verdict_text WsDup = Some ''cooldown-dup''" | "ws_verdict_text (WsQueued _ _) = None"
| "ws_verdict_text WsText = Some ''text-sms-unsupported''" | "ws_verdict_text WsUnknown = Some ''unknown-type''"

lemma ws_result [simp]: "result_of (ws_record ts r kvs) = Some (JStr r)"
  by (simp add: result_of_def ws_record_def)

lemma claim_cases:
  obtains (granted) "claim cool now p st = (True, st\<lparr>ddp := \<lparr>lastPDU = p, lastSent = Some now\<rparr>\<rparr>)"
      "claimPDU cool now p (ddp st) = (True, \<lparr>lastPDU = p, lastSent = Some now\<rparr>)"
    | (refused) "claim cool now p st = (False, st)" "fst (claimPDU cool now p (ddp st)) = False"
  by (cases "p = lastPDU (ddp st) \<and> time_since now (lastSent (ddp st)) < cool")
    (simp_all add: claim_def claimPDU_def Let_def)

lemma handleWSRequest_verdict:
  "let st' = handleWSRequest cfg now plain st; v = ws_verdict_of cfg now plain (ddp st) in
     hlth st' = hlth st
     \<and> map result_of (logs st') = map result_of (logs st) @ (case ws_verdict_text v of None \<Rightarrow> [] | Some s \<Rightarrow> [Some (JStr s)])
     \<and> jobs st' = jobs st @ (case v of WsQueued req info \<Rightarrow> [ws_job now req info] | _ \<Rightarrow> [])
     \<and> ddp st' = (case v of WsQueued req info \<Rightarrow> \<lparr>lastPDU = ws_PDU req, lastSent = Some now\<rparr> | _ \<Rightarrow> ddp st)"
proof (cases "unmarshal_request plain")
  case None
  then show ?thesis
    by (simp add: handleWSRequest_def ws_verdict_of_def)
next
  case (Some req)
  note um = Some
  show ?thesis
  proof (cases "ws_type req = ''pdu''")
    case False
    with um show ?thesis
      by (simp add: handleWSRequest_def ws_verdict_of_def)
  next
    case True
    note pdu = True
    show ?thesis
    proof (cases "decodeSubmitPDU (ws_PDU req)")
      case (Inl e)
      with um pdu show ?thesis
        by (simp add: handleWSRequest_def ws_verdict_of_def)
    next
      case (Inr info)
      show ?thesis
      proof (cases "destinationAllowed (allowedDest cfg) (phone info)")
        case False
        with um pdu Inr show ?thesis
          by (simp add: handleWSRequest_def ws_verdict_of_def)
      next
        case True
        show ?thesis
          by (rule claim_cases [of "cooldown cfg" now "ws_PDU req" st])
            (simp_all add: um pdu Inr True handleWSRequest_def ws_verdict_of_def)
      qed
    qed
  qed
qed

lemma ws_verdict_queued:
  "ws_verdict_of cfg now plain d = WsQueued req info \<Longrightarrow>
     decodeSubmitPDU (ws_PDU req) = Inr info \<and> destinationAllowed (allowedDest cfg) (phone info)
     \<and> claimPDU (cooldown cfg) now (ws_PDU req) d = (True, \<lparr>lastPDU = ws_PDU req, lastSent = Some now\<rparr>)"
  by (auto simp: ws_verdict_of_def claimPDU_def split: option.splits sum.splits if_splits)

lemma ws_job_pdu [simp]: "job_pdu (ws_job now req info) = ws_PDU req"
  by (simp add: ws_job_def Let_def)

interpretation gateway: front_end "handleWSRequest cfg" "cooldown cfg" "destinationAllowed (allowedDest cfg)"
  for cfg
proof
  fix now plain st
  note v = handleWSRequest_verdict [of cfg now plain st]
  show "hlth (handleWSRequest cfg now plain st) = hlth st"
    using v by (simp add: Let_def)
  show "jobs (handleWSRequest cfg now plain st) = jobs st \<and> ddp (handleWSRequest cfg now plain st) = ddp st
      \<or> (\<exists>j. jobs (handleWSRequest cfg now plain st) = jobs st @ [j]
           \<and> may_send (destinationAllowed (allowedDest cfg)) j
           \<and> claimPDU (cooldown cfg) now (job_pdu j) (ddp st) = (True, ddp (handleWSRequest cfg now plain st)))"
  proof (cases "ws_verdict_of cfg now plain (ddp st)")
    case (WsQueued req info)
    with v ws_verdict_queued [OF WsQueued] show ?thesis
      by (auto simp: Let_def may_send_def)
  qed (use v in \<open>simp_all add: Let_def\<close>)
qed

section \<open>A session\<close>

definition decrypt_text :: "byte list \<Rightarrow> decrypt_error \<Rightarrow> string" where
  "decrypt_text key e =
     (case e of
        PayloadTooShort n \<Rightarrow> ''payload of '' @ show_nat n @ '' bytes is too short''
      | NotBlockAligned \<Rightarrow> ''ciphertext is not block aligned''
      | BadKeySize \<Rightarrow> ''crypto/aes: invalid key size '' @ show_nat (length key)
      | BadPadding \<Rightarrow> ''bad padding (wrong encryption key?)'')"

text \<open>
  The read loop of \<^verbatim>\<open>wsServe\<close>. \<open>now\<close> is the clock, read in the state of the connection; the pings of
  the ticker are written by another goroutine and only add to the frames that go out (\<open>Ws_Writers\<close>).
\<close>

record session_env =
  se_cipher :: "byte list \<Rightarrow> (byte list \<Rightarrow> byte list) option"
  se_clock :: "wsconn \<Rightarrow> int"

function serve_loop ::
    "config \<Rightarrow> session_env \<Rightarrow> byte list \<Rightarrow> wsconn \<Rightarrow> relay \<Rightarrow> ws_error \<times> wsconn \<times> relay" where
  "serve_loop cfg env key c st =
     (case readMessage c of
        (Inl e, c) \<Rightarrow> (e, c, st)
      | (Inr (op, payload), c) \<Rightarrow>
          if op = opText then serve_loop cfg env key c st
          else (case wsDecrypt (se_cipher env) payload key of
              Inl e \<Rightarrow> serve_loop cfg env key c
                (logJSON (ws_record (se_clock env c) ''decrypt-failed'' [(''at'', JStr (decrypt_text key e))]) st)
            | Inr plain \<Rightarrow> serve_loop cfg env key c
                (handleWSRequest cfg (se_clock env c) plain st)))"
  by pat_completeness auto
termination
  by (relation "measure (\<lambda>(cfg, env, key, c, st). length (input c))")
    (auto simp: readMessage_def dest!: read_msg_result [OF sym])

declare serve_loop.simps [simp del]

definition wsServe :: "config \<Rightarrow> session_env \<Rightarrow> string \<Rightarrow> byte list \<Rightarrow> wsconn \<Rightarrow> relay \<Rightarrow> ws_error \<times> wsconn \<times> relay" where
  "wsServe cfg env hello key c st =
     (if hello \<noteq> [] then
        (case writeFrame opText (bytes_of_string hello) c of
           (Some e, c) \<Rightarrow> (WriteFailed (''sending -ws-hello: '' @ e), c, st)
         | (None, c) \<Rightarrow> serve_loop cfg env key c st)
      else serve_loop cfg env key c st)"

section \<open>Reconnecting\<close>

text \<open>What one pass of the loop of \<^verbatim>\<open>runWS\<close> meets: a failed dial, or a connection and how long it lasted.\<close>

datatype pass = DialFailed string | Connected wsconn int

definition healthySession :: int where "healthySession = 5 * second"

record run_env =
  re_cfg :: config
  re_session :: session_env
  re_hello :: string
  re_key :: "byte list"
  re_rss :: string
  re_error :: "ws_error \<Rightarrow> string"

text \<open>One pass at the instant \<open>now\<close>: the attempt counter and the state afterwards, and the delay.\<close>

definition run_pass :: "run_env \<Rightarrow> int \<Rightarrow> pass \<Rightarrow> int \<times> relay \<Rightarrow> int \<times> int \<times> relay" where
  "run_pass env now p s =
     (let (attempt, st) = s in
      case p of
        DialFailed e \<Rightarrow>
          let d = wsBackoff attempt; attempt = attempt + 1
          in (d, attempt, logJSON (ws_record now ''connect-failed'' [(''at'', JStr e)]) st)
      | Connected c lasted \<Rightarrow>
          let attempt = 0;
              st = logJSON (ws_record now ''connected'' [(''rss'', JStr (re_rss env))]) st;
              (err, _, st) = wsServe (re_cfg env) (re_session env) (re_hello env) (re_key env) c st;
              st = logJSON (ws_record (now + lasted) ''disconnected''
                     [(''at'', JStr (re_error env err)), (''lasted_s'', JNum (lasted div second))]) st;
              attempt = (if lasted \<ge> healthySession then 0 else attempt);
              d = wsBackoff attempt; attempt = attempt + 1
          in (d, attempt, st))"

text \<open>The delays of a run, each pass starting when the delay before it is over.\<close>

fun run_ws :: "run_env \<Rightarrow> int \<Rightarrow> pass list \<Rightarrow> int \<times> relay \<Rightarrow> int list \<times> relay" where
  "run_ws env now [] s = ([], snd s)"
| "run_ws env now (p # ps) s =
     (let (d, s') = run_pass env now p s;
          lasted = (case p of DialFailed _ \<Rightarrow> 0 | Connected _ l \<Rightarrow> l);
          (ds, st) = run_ws env (now + lasted + d) ps s'
      in (d # ds, st))"

section \<open>Advice for TLS errors\<close>

definition tlsHint :: "string \<Rightarrow> string \<Rightarrow> string" where
  "tlsHint now s =
     (if contains s ''unknown authority'' \<or> contains s ''failed to load system roots''
         \<or> contains s ''certificate is not trusted''
      then [CHR 0x0A] @ ''    hint: the endpoint'' @ [CHR 0x27] @ ''s issuer is not in the embedded CA bundle '' @ [CHR 0xE2, CHR 0x80, CHR 0x94]
        @ '' its'' @ [CHR 0x0A] @ ''          root may have rotated (regenerate with tools/mkca.sh) or supply -ws-ca <roots.pem>''
      else if contains s ''not yet valid'' \<or> contains s ''has expired''
      then [CHR 0x0A] @ ''    hint: system clock reads '' @ now @ '' '' @ [CHR 0xE2, CHR 0x80, CHR 0x94] @ '' fix the date first''
      else [])"

section \<open>Facts about sessions and delays\<close>

text \<open>The requests a session decrypts, in order, each with the instant at which it is handled.\<close>

function session_requests :: "session_env \<Rightarrow> byte list \<Rightarrow> wsconn \<Rightarrow> (int \<times> byte list) list" where
  "session_requests env key c =
     (case readMessage c of
        (Inl e, c) \<Rightarrow> []
      | (Inr (op, payload), c) \<Rightarrow>
          if op = opText then session_requests env key c
          else (case wsDecrypt (se_cipher env) payload key of
              Inl e \<Rightarrow> session_requests env key c
            | Inr plain \<Rightarrow> (se_clock env c, plain) # session_requests env key c))"
  by pat_completeness auto
termination
  by (relation "measure (\<lambda>(env, key, c). length (input c))")
    (auto simp: readMessage_def dest!: read_msg_result [OF sym])

declare session_requests.simps [simp del]

text \<open>Two states that differ in the records only.\<close>

definition same_sending :: "relay \<Rightarrow> relay \<Rightarrow> bool" where
  "same_sending a b \<longleftrightarrow> jobs a = jobs b \<and> ddp a = ddp b \<and> hlth a = hlth b"

lemma handleWSRequest_same:
  "same_sending a b \<Longrightarrow> same_sending (handleWSRequest cfg now p a) (handleWSRequest cfg now p b)"
  using handleWSRequest_verdict [of cfg now p a] handleWSRequest_verdict [of cfg now p b]
  by (auto simp: same_sending_def Let_def split: ws_verdict.split)

lemma serve_loop_refines:
  "same_sending st st2 \<Longrightarrow> same_sending (snd (snd (serve_loop cfg env key c st)))
     (handle_all (handleWSRequest cfg) (session_requests env key c) st2)"
proof (induction cfg env key c st arbitrary: st2 rule: serve_loop.induct)
  case (1 cfg env key c st)
  obtain r c' where r: "readMessage c = (r, c')"
    by fastforce
  show ?case
  proof (cases r)
    case (Inl e)
    with r "1.prems" show ?thesis
      by (subst serve_loop.simps, subst session_requests.simps) simp
  next
    case (Inr m)
    obtain op payload where m: "m = (op, payload)"
      by (cases m)
    note IH = "1.IH" [OF r [symmetric] Inr [unfolded m] refl]
    show ?thesis
    proof (cases "op = opText")
      case True
      with r Inr m IH(1) [OF True "1.prems"] show ?thesis
        by (subst serve_loop.simps, subst session_requests.simps) simp
    next
      case False
      note bin = False
      show ?thesis
      proof (cases "wsDecrypt (se_cipher env) payload key")
        case (Inl e)
        have "same_sending (logJSON x st) st2" for x
          using "1.prems" by (simp add: same_sending_def)
        from IH(2) [OF bin Inl this] r \<open>r = Inr m\<close> m bin Inl show ?thesis
          by (subst serve_loop.simps, subst session_requests.simps) simp
      next
        case (Inr plain)
        from IH(3) [OF bin Inr handleWSRequest_same [OF "1.prems"]] r \<open>r = Inr m\<close> m bin Inr show ?thesis
          by (subst serve_loop.simps, subst session_requests.simps) simp
      qed
    qed
  qed
qed

text \<open>The delay of a pass: a second after any connection, else by the number of passes since the last.\<close>

fun spec_delays :: "nat \<Rightarrow> pass list \<Rightarrow> int list" where
  "spec_delays n [] = []"
| "spec_delays n (DialFailed e # ps) = min (second * 2 ^ n) (60 * second) # spec_delays (Suc n) ps"
| "spec_delays n (Connected c l # ps) = second # spec_delays 1 ps"

lemma run_ws_spec: "fst (run_ws env now ps (int n, st)) = spec_delays n ps"
proof (induction ps arbitrary: now n st)
  case (Cons p ps)
  show ?case
  proof (cases p)
    case (DialFailed e)
    with Cons [of _ "Suc n"] show ?thesis
      by (simp add: run_pass_def Let_def case_prod_beta wsBackoff_closed add.commute)
  next
    case (Connected c l)
    with Cons [of _ 1] show ?thesis
      by (simp add: run_pass_def Let_def case_prod_beta wsBackoff_closed)
  qed
qed simp

text \<open>The identity file is read back as it was written.\<close>

lemma parse_identity_text:
  assumes "list_all literal_char a" and "list_all literal_char b"
  shows "parse_json (identity_text \<lparr>DeviceID = a, Key = b\<rparr>)
    = Some (Object [(''device_id'', Text a), (''encryption_key'', Text b)])"
proof -
  have names: "scan_string (''device_id'' @ CHR 0x22 # r) = Some (''device_id'', r)"
    "scan_string (''encryption_key'' @ CHR 0x22 # r) = Some (''encryption_key'', r)" for r
    by (rule scan_string_literal; simp add: literal_char_def)+
  have m2: "scan_members 1 (CHR 0x22 # ''encryption_key'' @ CHR 0x22 # '': '' @ CHR 0x22 # b @ CHR 0x22 # CHR 0x0A # ''}'' @ r)
      = Some ([(''encryption_key'', Text b)], r)" for r
    using names(2) assms(2)
    by (subst scan_members_eq, subst scan_value.simps) (simp add: scan_string_literal is_blank_def)
  have "scan_members 1 (CHR 0x22 # ''device_id'' @ CHR 0x22 # '': '' @ CHR 0x22 # a @ CHR 0x22 # '','' @ CHR 0x0A # ''  ''
      @ CHR 0x22 # ''encryption_key'' @ CHR 0x22 # '': '' @ CHR 0x22 # b @ CHR 0x22 # CHR 0x0A # ''}'' @ r)
      = Some ([(''device_id'', Text a), (''encryption_key'', Text b)], r)" for r
    using names(1) assms(1) m2
    by (subst scan_members_eq, subst scan_value.simps) (simp add: scan_string_literal is_blank_def)
  then show ?thesis
    unfolding parse_json_def identity_text_def
    by (subst scan_value.simps) (simp add: is_blank_def max_depth_def)
qed

lemma unmarshal_identity_text:
  "unmarshal_identity (bytes_of_string (identity_text \<lparr>DeviceID = hex_encode d, Key = hex_encode k\<rparr>))
     = Some \<lparr>DeviceID = hex_encode d, Key = hex_encode k\<rparr>"
  using parse_identity_text [OF hex_encode_literal hex_encode_literal, of d k]
  by (simp add: unmarshal_identity_def unmarshal_def identity_field_def store_string_def lower_char_def)

section \<open>Properties\<close>

text \<open>C20: A decrypted request on every branch: the record that states the verdict, except for a PDU that is queued,
  whose worker writes it; a worker exactly for a \<open>pdu\<close> request with a PDU that decodes, to an admitted
  destination, outside the cooldown; and only then a change of the deduplication state.\<close>

theorem handleWSRequest_outcome:
  "let st' = handleWSRequest cfg now plain st; v = ws_verdict_of cfg now plain (ddp st) in
     hlth st' = hlth st
     \<and> map result_of (logs st') = map result_of (logs st) @ (case ws_verdict_text v of None \<Rightarrow> [] | Some s \<Rightarrow> [Some (JStr s)])
     \<and> jobs st' = jobs st @ (case v of WsQueued req info \<Rightarrow> [ws_job now req info] | _ \<Rightarrow> [])
     \<and> ddp st' = (case v of WsQueued req info \<Rightarrow> \<lparr>lastPDU = ws_PDU req, lastSent = Some now\<rparr> | _ \<Rightarrow> ddp st)"
  by (rule handleWSRequest_verdict)

text \<open>C6: A session, whatever the server sends: what it starts is what its decrypted requests start one after the
  other, so undecryptable messages, text and control frames start nothing; every job goes to an
  admitted destination, at most one per request, and repeated PDUs keep the cooldown.\<close>

theorem session_refines:
  assumes "cooldown cfg \<le> max_duration"
  shows "let st' = snd (snd (serve_loop cfg env key c st));
             acc = accepted (handleWSRequest cfg) (session_requests env key c) st in
     same_sending st' (handle_all (handleWSRequest cfg) (session_requests env key c) st)
     \<and> jobs st' = jobs st @ map snd acc \<and> hlth st' = hlth st
     \<and> list_all (\<lambda>a. may_send (destinationAllowed (allowedDest cfg)) (snd a)) acc
     \<and> length acc \<le> length (session_requests env key c)
     \<and> spaced (cooldown cfg) (map (map_prod id job_pdu) acc)"
proof -
  have "same_sending st st"
    by (simp add: same_sending_def)
  note ref = serve_loop_refines [OF this, of cfg env key c]
  then show ?thesis
    using gateway.handle_all_jobs gateway.handle_all_health gateway.accepted_may_send gateway.length_accepted
      gateway.accepted_spaced [OF assms]
    by (simp add: Let_def same_sending_def)
qed

definition test_env :: session_env where
  "test_env = \<lparr>se_cipher = toy_cipher,
     se_clock = (\<lambda>c. 0)\<rparr>"

definition test_plain :: "byte list" where
  "test_plain = bytes_of_string (''{'' @ [CHR 0x22] @ ''type'' @ [CHR 0x22, CHR '':'', CHR 0x22] @ ''pdu'' @ [CHR 0x22]
     @ '','' @ [CHR 0x22] @ ''pdu'' @ [CHR 0x22, CHR '':'', CHR 0x22] @ testPDU @ [CHR 0x22] @ ''}'')"

definition test_message :: "byte list" where
  "test_message = ws_encrypt (\<lambda>b. xor_block (rev b) (replicate 16 7)) (replicate 16 1) test_plain"

definition test_conn :: wsconn where
  "test_conn = \<lparr>input = stream None [(opBinary, True, test_message)], frames_out = [], write_results = []\<rparr>"

lemma test_requests: "session_requests test_env (replicate 16 7) test_conn = [(0, test_plain)]"
proof -
  let ?c = "test_conn\<lparr>input := []\<rparr>"
  have len: "length test_message = 80"
    by code_simp
  have dec: "wsDecrypt toy_cipher test_message (replicate 16 7) = Inr test_plain"
    by code_simp
  have "carries [(opBinary, True, test_message)] (fragments opBinary [test_message])"
    by (simp add: carries_def keepalive_def opcodes)
  moreover have "list_all (good_frame None) [(opBinary, True, test_message)]"
    by (simp add: good_frame_def wsMaxPayload_def opcodes len)
  moreover have "pings [(opBinary, True, test_message)] = []"
    by (simp add: opcodes)
  ultimately have first: "readMessage test_conn = (Inr (opBinary, test_message), ?c)"
    using read_msg_starts [of "[(opBinary, True, test_message)]" opBinary "[test_message]" None test_conn "[]" "[]" "[]" 0 "[]"]
    by (simp add: readMessage_def test_conn_def len wsMaxPayload_def)
  have last: "readMessage ?c = (Inl ReadFailed, ?c)"
    unfolding readMessage_def by (subst read_msg.simps) (simp add: readFrame_def read_full_def)
  have "session_requests test_env (replicate 16 7) ?c = []"
    by (subst session_requests.simps) (simp add: last)
  then show ?thesis
    using dec by (subst session_requests.simps) (simp add: first test_env_def opcodes)
qed

theorem session_refines_witness:
  "length (jobs (snd (snd (serve_loop test_config test_env (replicate 16 7) test_conn init_relay)))) = 1"
proof -
  have a: "length (accepted (handleWSRequest test_config) [(0, test_plain)] init_relay) = 1"
    by code_simp
  have "cooldown test_config \<le> max_duration"
    by (simp add: test_config_def max_duration_def)
  from session_refines [OF this, of test_env "replicate 16 7" test_conn init_relay]
  have "jobs (snd (snd (serve_loop test_config test_env (replicate 16 7) test_conn init_relay)))
      = jobs init_relay @ map snd (accepted (handleWSRequest test_config) [(0, test_plain)] init_relay)"
    unfolding Let_def test_requests by blast
  with a show ?thesis
    by (simp add: init_relay_def)
qed

text \<open>C31: The reconnect delays of a run: one second after every connection, however short it was, and after a failed
  dial one second doubled per pass since the last connection, at most a minute. The threshold for a
  session that lived has no effect.\<close>

theorem run_ws_delays:
  "fst (run_ws env now ps (0, st)) = spec_delays 0 ps"
  using run_ws_spec [of env now ps 0 st] by simp

text \<open>C32: A new identity is kept: what the first run draws and writes is what every later run reads, with the same
  key, whatever the random source would give then. Decoding the file is the JSON decoder's part.\<close>

theorem loadWSIdentity_stable:
  assumes "length d = 8" and "length k = 16"
  shows "let (r, file) = loadWSIdentity None (Some d) (Some k) True in
     r = Inr (\<lparr>DeviceID = hex_encode d, Key = hex_encode k\<rparr>, k)
     \<and> loadWSIdentity file d' k' w = (r, file)"
  using assms by (simp add: loadWSIdentity_def Let_def length_hex_encode unmarshal_identity_text)

theorem loadWSIdentity_stable_witness:
  "loadWSIdentity (snd (loadWSIdentity None (Some (replicate 8 0xA5)) (Some (replicate 16 7)) True)) None None False
   = loadWSIdentity None (Some (replicate 8 0xA5)) (Some (replicate 16 7)) True"
  using loadWSIdentity_stable [of "replicate 8 0xA5" "replicate 16 7" None None False]
  by (simp add: Let_def case_prod_beta)

lemma handleWSRequest_one:
  "let st' = handleWSRequest cfg now plain st in
     length (logs st') + length (jobs st') \<le> Suc (length (logs st) + length (jobs st)) \<and> length (jobs st') \<le> Suc (length (jobs st))"
proof -
  have "length (map result_of (logs (handleWSRequest cfg now plain st))) =
      length (map result_of (logs st)) + (case ws_verdict_text (ws_verdict_of cfg now plain (ddp st)) of None \<Rightarrow> 0 | Some _ \<Rightarrow> 1)"
    using handleWSRequest_verdict [of cfg now plain st] by (simp add: Let_def split: option.splits)
  then show ?thesis
    using handleWSRequest_verdict [of cfg now plain st]
    by (cases "ws_verdict_of cfg now plain (ddp st)") (simp_all add: Let_def)
qed

text \<open>C30: A session ends: of any input, every message takes at least two bytes and leaves at most one record or one job,
  and a job takes a message of at least 32 bytes behind a header of two.\<close>

theorem serve_loop_ends:
  "let (e, c', st') = serve_loop cfg env key c st in
     2 * (length (logs st') + length (jobs st')) + length (input c')
       \<le> 2 * (length (logs st) + length (jobs st)) + length (input c)
     \<and> 34 * length (jobs st') + length (input c') \<le> 34 * length (jobs st) + length (input c)"
proof (induction cfg env key c st rule: serve_loop.induct)
  case (1 cfg env key c st)
  obtain r c1 where r: "readMessage c = (r, c1)"
    by fastforce
  show ?case
  proof (cases r)
    case (Inl e)
    have "length (input c1) \<le> length (input c)"
      using read_msg_input [of 0 "[]" c] r by (simp add: readMessage_def)
    with r Inl show ?thesis
      by (subst serve_loop.simps) simp
  next
    case (Inr m)
    obtain op payload where m: "m = (op, payload)"
      by (cases m)
    have len: "length payload + length (input c1) + 2 \<le> length (input c)"
      using read_msg_result [of 0 "[]" c op payload c1] r Inr m by (simp add: readMessage_def)
    note IH = "1.IH" [OF r [symmetric] Inr [unfolded m] refl]
    show ?thesis
    proof (cases "op = opText")
      case True
      with r Inr m IH(1) [OF True] len show ?thesis
        by (subst serve_loop.simps) (auto simp: Let_def split: prod.splits)
    next
      case False
      note bin = False
      show ?thesis
      proof (cases "wsDecrypt (se_cipher env) payload key")
        case (Inl e)
        with r \<open>r = Inr m\<close> m bin IH(2) [OF bin Inl] len show ?thesis
          by (subst serve_loop.simps) (auto simp: Let_def split: prod.splits)
      next
        case (Inr plain)
        have "32 \<le> length payload"
          using Inr by (simp add: wsDecrypt_def blockSize_def split: if_splits)
        with r \<open>r = Inr m\<close> m bin Inr IH(3) [OF bin Inr] len
          handleWSRequest_one [of cfg "se_clock env c1" plain st] show ?thesis
          by (subst serve_loop.simps) (auto simp: Let_def split: prod.splits)
      qed
    qed
  qed
qed

end
