(* ===== verification/Http_System.thy ===== *)
theory Http_System
  imports Http "HOL-Library.Multiset"
begin

text \<open>
  The webhook as it runs (\<^verbatim>\<open>main.go\<close>): the accept loop starts a goroutine per connection, so handlers interleave.
  They share the deduplication state and the logs; both critical sections, the comparison with the last PDU and
  \<^verbatim>\<open>claimPDU\<close>, hold \<^verbatim>\<open>stateMu\<close> from beginning to end and call nothing that waits for another goroutine, so
  each is one turn. A turn goes up to the handler's next access to the shared state.
\<close>

section \<open>The goroutines\<close>

text \<open>Where a handler is: with the instant \<^verbatim>\<open>ts\<close> of its first line, the decoded body and the decoded PDU.\<close>

datatype hook_stage =
    Entered
  | Diffing int hookBody pduInfo
  | Deciding int hookBody pduInfo
  | Spawning int hookBody pduInfo
  | Ending int string string
  | Returned

fun hook_turn :: "config \<Rightarrow> int \<Rightarrow> request \<Rightarrow> hook_stage \<Rightarrow> relay \<Rightarrow> hook_stage \<times> relay" where
  "hook_turn cfg now req Entered st =
     (case unmarshal_hook (rq_body req) of
        None \<Rightarrow> (Ending now ''not-json'' [], logNoPDUBody cfg now req ''not-json'' st)
      | Some body \<Rightarrow>
          if hk_PDU body = [] then (Ending now ''no-pdu'' [], logNoPDUBody cfg now req ''no-pdu'' st)
          else (case decodeSubmitPDU (hk_PDU body) of
              Inl e \<Rightarrow> (Ending now ''bad-pdu'' [], st)
            | Inr info \<Rightarrow> ((if reqlog cfg then Diffing now body info else Deciding now body info), st)))"
| "hook_turn cfg now req (Diffing ts body info) st =
     (Deciding ts body info,
      logPDUDiff now (hk_PDU body) (lastPDU (ddp st)) info (time_since now (lastSent (ddp st))) st)"
| "hook_turn cfg now req (Deciding ts body info) st =
     (if \<not> destinationAllowed (allowedDest cfg) (phone info)
      then (Returned,
        logJSON [(''ts'', JTime ts), (''peer'', JStr (rq_peer req)), (''result'', JStr ''dest-refused''),
          (''phone'', JStr (redact (phone info)))] st)
      else
        let (sending, st) = claim (cooldown cfg) now (hk_PDU body) st
        in ((if sending then Spawning ts body info else Ending ts ''cooldown-dup'' (phone info)), st))"
| "hook_turn cfg now req (Spawning ts body info) st =
     (Ending ts ''queued'' (phone info), spawn (hook_job ts req body info) st)"
| "hook_turn cfg now req (Ending ts result number) st = (Returned, logJSON (hook_record ts req result number) st)"
| "hook_turn cfg now req Returned st = (Returned, st)"

text \<open>\<open>hs_claims\<close> lists the calls of \<^verbatim>\<open>claimPDU\<close> in the order in which they held the lock, each with its instant.\<close>

record hook_system =
  hs_relay :: relay
  hs_clock :: int
  hs_handlers :: "(request \<times> hook_stage) list"
  hs_claims :: "(int \<times> string) list"

fun claim_of :: "config \<Rightarrow> int \<Rightarrow> hook_stage \<Rightarrow> (int \<times> string) list" where
  "claim_of cfg now (Deciding ts body info) =
     (if destinationAllowed (allowedDest cfg) (phone info) then [(now, hk_PDU body)] else [])"
| "claim_of cfg now _ = []"

datatype hook_event = Passes nat | Connects request | Turns nat

fun hook_happens :: "config \<Rightarrow> hook_event \<Rightarrow> hook_system \<Rightarrow> hook_system" where
  "hook_happens cfg (Passes d) s = s\<lparr>hs_clock := hs_clock s + int d\<rparr>"
| "hook_happens cfg (Connects req) s = s\<lparr>hs_handlers := hs_handlers s @ [(req, Entered)]\<rparr>"
| "hook_happens cfg (Turns i) s =
     (if i < length (hs_handlers s) then
        let (req, g) = hs_handlers s ! i; (g', st) = hook_turn cfg (hs_clock s) req g (hs_relay s)
        in s\<lparr>hs_relay := st, hs_handlers := (hs_handlers s)[i := (req, g')],
             hs_claims := hs_claims s @ claim_of cfg (hs_clock s) g\<rparr>
      else s)"

definition hook_run :: "config \<Rightarrow> int \<Rightarrow> relay \<Rightarrow> hook_event list \<Rightarrow> hook_system" where
  "hook_run cfg t0 st es =
     fold (hook_happens cfg) es \<lparr>hs_relay = st, hs_clock = t0, hs_handlers = [], hs_claims = []\<rparr>"

section \<open>The invariant\<close>

text \<open>A list of claims, extended by the next one.\<close>

lemma claims_state_append: "claims_state cool (cs @ ds) d = claims_state cool ds (claims_state cool cs d)"
  by (induction cs arbitrary: d) simp_all

lemma granted_append: "granted cool (cs @ ds) d = granted cool cs d @ granted cool ds (claims_state cool cs d)"
  by (induction cs arbitrary: d) (simp_all add: granted_Cons case_prod_beta)

lemma length_granted: "length (granted cool cs d) \<le> length cs"
  by (induction cs arbitrary: d) (simp_all add: granted_Cons case_prod_beta le_SucI)

text \<open>What a handler still owes: the PDU it has claimed and not yet handed to a worker; and whether it may claim.\<close>

fun owed :: "hook_stage \<Rightarrow> string multiset" where
  "owed (Spawning ts body info) = {#hk_PDU body#}"
| "owed _ = {#}"

fun may_claim :: "hook_stage \<Rightarrow> nat" where
  "may_claim Entered = 1"
| "may_claim (Diffing ts body info) = 1"
| "may_claim (Deciding ts body info) = 1"
| "may_claim _ = 0"

fun stage_ok :: "config \<Rightarrow> hook_stage \<Rightarrow> bool" where
  "stage_ok cfg (Diffing ts body info) = (decodeSubmitPDU (hk_PDU body) = Inr info)"
| "stage_ok cfg (Deciding ts body info) = (decodeSubmitPDU (hk_PDU body) = Inr info)"
| "stage_ok cfg (Spawning ts body info) =
     (decodeSubmitPDU (hk_PDU body) = Inr info \<and> destinationAllowed (allowedDest cfg) (phone info))"
| "stage_ok cfg _ = True"

definition all_owed :: "hook_system \<Rightarrow> string multiset" where
  "all_owed s = sum_list (map (owed \<circ> snd) (hs_handlers s))"

definition all_may_claim :: "hook_system \<Rightarrow> nat" where
  "all_may_claim s = sum_list (map (may_claim \<circ> snd) (hs_handlers s))"

definition hooks_ok :: "config \<Rightarrow> relay \<Rightarrow> hook_system \<Rightarrow> bool" where
  "hooks_ok cfg st0 s \<longleftrightarrow>
     ddp (hs_relay s) = claims_state (cooldown cfg) (hs_claims s) (ddp st0)
     \<and> (\<exists>js. jobs (hs_relay s) = jobs st0 @ js \<and> list_all (may_send (destinationAllowed (allowedDest cfg))) js
          \<and> mset (map job_pdu js) + all_owed s = mset (map snd (granted (cooldown cfg) (hs_claims s) (ddp st0))))
     \<and> list_all (stage_ok cfg \<circ> snd) (hs_handlers s)
     \<and> length (hs_claims s) + all_may_claim s \<le> length (hs_handlers s)
     \<and> sorted (map fst (hs_claims s)) \<and> (\<forall>c \<in> set (hs_claims s). fst c \<le> hs_clock s)"

text \<open>What one turn does to the shared state, on every branch.\<close>

lemma logs_frame [simp]:
  "ddp (logNoPDUBody cfg now req why st) = ddp st" "hlth (logNoPDUBody cfg now req why st) = hlth st"
  "jobs (logNoPDUBody cfg now req why st) = jobs st"
  "ddp (logPDUDiff now cur prev info since st) = ddp st" "hlth (logPDUDiff now cur prev info since st) = hlth st"
  "jobs (logPDUDiff now cur prev info since st) = jobs st"
  by (simp_all add: logNoPDUBody_def logPDUDiff_def Let_def)

lemma hook_turn_effect:
  assumes "hook_turn cfg now req g st = (g', st')" and "stage_ok cfg g"
  shows "hlth st' = hlth st \<and> stage_ok cfg g'
    \<and> ddp st' = claims_state (cooldown cfg) (claim_of cfg now g) (ddp st)
    \<and> length (claim_of cfg now g) + may_claim g' \<le> may_claim g
    \<and> (\<exists>js. jobs st' = jobs st @ js \<and> list_all (may_send (destinationAllowed (allowedDest cfg))) js
         \<and> mset (map job_pdu js) + owed g'
           = owed g + mset (map snd (granted (cooldown cfg) (claim_of cfg now g) (ddp st))))"
  using assms
  by (cases g)
    (auto simp: Let_def claim_ddp granted_Cons case_prod_beta may_send_def hook_job_def
      split: option.splits sum.splits if_splits)

lemma hooks_ok_turn:
  assumes "hooks_ok cfg st0 s" and "i < length (hs_handlers s)" and "hs_handlers s ! i = (req, g)"
    and "hook_turn cfg (hs_clock s) req g (hs_relay s) = (g', st')"
  shows "hooks_ok cfg st0 (s\<lparr>hs_relay := st', hs_handlers := (hs_handlers s)[i := (req, g')],
    hs_claims := hs_claims s @ claim_of cfg (hs_clock s) g\<rparr>)"
proof -
  let ?s = "s\<lparr>hs_relay := st', hs_handlers := (hs_handlers s)[i := (req, g')], hs_claims := hs_claims s @ claim_of cfg (hs_clock s) g\<rparr>"
  let ?c = "claim_of cfg (hs_clock s) g" and ?cool = "cooldown cfg"
  have g: "stage_ok cfg g" and hs: "list_all (stage_ok cfg \<circ> snd) (hs_handlers s)"
    using assms(1-3) by (auto simp: hooks_ok_def list_all_length dest: spec [of _ i])
  note eff = hook_turn_effect [OF assms(4) g]
  obtain js where js: "jobs (hs_relay s) = jobs st0 @ js" "list_all (may_send (destinationAllowed (allowedDest cfg))) js"
      "mset (map job_pdu js) + all_owed s = mset (map snd (granted ?cool (hs_claims s) (ddp st0)))"
    using assms(1) by (auto simp: hooks_ok_def)
  obtain ks where ks: "jobs st' = jobs (hs_relay s) @ ks" "list_all (may_send (destinationAllowed (allowedDest cfg))) ks"
      "mset (map job_pdu ks) + owed g' = owed g + mset (map snd (granted ?cool ?c (ddp (hs_relay s))))"
    using eff by blast
  have owed: "all_owed ?s + owed g = all_owed s + owed g'"
    using sum_list_replaced [OF assms(2), of "owed \<circ> snd" "(req, g')"] by (simp add: all_owed_def assms(3))
  have may: "all_may_claim ?s + may_claim g = all_may_claim s + may_claim g'"
    using sum_list_replaced [OF assms(2), of "may_claim \<circ> snd" "(req, g')"] by (simp add: all_may_claim_def assms(3))
  have "mset (map job_pdu (js @ ks)) + all_owed ?s + owed g
      = mset (map job_pdu js) + all_owed s + (mset (map job_pdu ks) + owed g')"
    using owed by (simp add: ac_simps)
  also have "\<dots> = mset (map snd (granted ?cool (hs_claims s @ ?c) (ddp st0))) + owed g"
    using assms(1) js(3) ks(3) by (simp add: hooks_ok_def granted_append ac_simps)
  finally have "mset (map job_pdu (js @ ks)) + all_owed ?s = mset (map snd (granted ?cool (hs_claims ?s) (ddp st0)))"
    by simp
  moreover have "jobs (hs_relay ?s) = jobs st0 @ js @ ks" "list_all (may_send (destinationAllowed (allowedDest cfg))) (js @ ks)"
    using js ks by simp_all
  ultimately have a: "\<exists>js. jobs (hs_relay ?s) = jobs st0 @ js \<and> list_all (may_send (destinationAllowed (allowedDest cfg))) js
      \<and> mset (map job_pdu js) + all_owed ?s = mset (map snd (granted ?cool (hs_claims ?s) (ddp st0)))"
    by blast
  have b: "list_all (stage_ok cfg \<circ> snd) (hs_handlers ?s)"
    using hs eff assms(2) by (simp add: list_all_length nth_list_update)
  have c: "length (hs_claims ?s) + all_may_claim ?s \<le> length (hs_handlers ?s)"
    using assms(1) may eff by (simp add: hooks_ok_def)
  have sorted: "sorted (map fst (hs_claims s))" and before: "\<forall>c \<in> set (hs_claims s). fst c \<le> hs_clock s"
    using assms(1) by (simp_all add: hooks_ok_def)
  have "?c = [] \<or> (\<exists>p. ?c = [(hs_clock s, p)])"
    by (cases g) simp_all
  with sorted before have d: "sorted (map fst (hs_claims ?s))" "\<forall>c \<in> set (hs_claims ?s). fst c \<le> hs_clock ?s"
    by (auto simp: sorted_append)
  have "ddp (hs_relay ?s) = claims_state ?cool (hs_claims ?s) (ddp st0)"
    using assms(1) eff by (simp add: hooks_ok_def claims_state_append)
  with a b c d show ?thesis
    unfolding hooks_ok_def by blast
qed

lemma hooks_ok_happens:
  assumes "hooks_ok cfg st0 s"
  shows "hooks_ok cfg st0 (hook_happens cfg e s)"
proof (cases e)
  case (Passes d)
  with assms show ?thesis
    by (fastforce simp: hooks_ok_def all_owed_def all_may_claim_def)
next
  case (Connects req)
  with assms show ?thesis
    by (simp add: hooks_ok_def all_owed_def all_may_claim_def)
next
  case (Turns i)
  obtain req g where h: "hs_handlers s ! i = (req, g)"
    by (cases "hs_handlers s ! i")
  obtain g' st' where t: "hook_turn cfg (hs_clock s) req g (hs_relay s) = (g', st')"
    by fastforce
  show ?thesis
    using hooks_ok_turn [OF assms _ h t] assms by (simp add: Turns h t)
qed

text \<open>The handlers leave the failure state alone, and a job that is there stays.\<close>

lemma hook_turn_grows:
  assumes "hook_turn cfg now req g st = (g', st')"
  shows "hlth st' = hlth st \<and> (\<exists>js. jobs st' = jobs st @ js)"
  using assms by (cases g) (auto simp: Let_def case_prod_beta split: option.splits sum.splits if_splits)

lemma hook_happens_grows:
  "hlth (hs_relay (hook_happens cfg e s)) = hlth (hs_relay s)
   \<and> (\<exists>js. jobs (hs_relay (hook_happens cfg e s)) = jobs (hs_relay s) @ js)"
proof (cases e)
  case (Turns i)
  obtain req g where h: "hs_handlers s ! i = (req, g)"
    by (cases "hs_handlers s ! i")
  obtain g' st' where t: "hook_turn cfg (hs_clock s) req g (hs_relay s) = (g', st')"
    by fastforce
  with hook_turn_grows [OF t] show ?thesis
    by (simp add: Turns h)
qed simp_all

lemma hook_run_health: "hlth (hs_relay (hook_run cfg t0 st es)) = hlth st"
proof -
  have "hlth (hs_relay (fold (hook_happens cfg) es s)) = hlth (hs_relay s)" for s
    by (induction es arbitrary: s) (simp_all add: hook_happens_grows)
  then show ?thesis
    by (simp add: hook_run_def)
qed

lemma hooks_ok_start: "hooks_ok cfg st \<lparr>hs_relay = st, hs_clock = t0, hs_handlers = [], hs_claims = []\<rparr>"
  by (simp add: hooks_ok_def all_owed_def all_may_claim_def)

lemma hooks_ok_run: "hooks_ok cfg st (hook_run cfg t0 st es)"
proof -
  have "hooks_ok cfg st s \<Longrightarrow> hooks_ok cfg st (fold (hook_happens cfg) es s)" for s
    by (induction es arbitrary: s) (simp_all add: hooks_ok_happens)
  then show ?thesis
    unfolding hook_run_def using hooks_ok_start by blast
qed

lemma all_returned_owed: "list_all (\<lambda>h. snd h = Returned) (hs_handlers s) \<Longrightarrow> all_owed s = {#}"
  by (simp add: all_owed_def list_all_iff cong: map_cong)

section \<open>Properties\<close>

text \<open>C18: However the handlers of the webhook interleave: the calls of \<^verbatim>\<open>claimPDU\<close> happen in the order of their instants and
  leave the deduplication state they would leave one after the other; the jobs are for PDUs whose claims
  were granted, each granted claim is handed to one worker at most, and to exactly one when all handlers have
  returned; each goes to an admitted destination, at most one per connection; and granted claims of
  one PDU in direct succession are the cooldown apart.\<close>

theorem hooks_interleaved:
  assumes "cooldown cfg \<le> max_duration"
  shows "let s = hook_run cfg t0 st es; gs = granted (cooldown cfg) (hs_claims s) (ddp st);
             js = drop (length (jobs st)) (jobs (hs_relay s)) in
     jobs (hs_relay s) = jobs st @ js \<and> hlth (hs_relay s) = hlth st
     \<and> sorted (map fst (hs_claims s)) \<and> ddp (hs_relay s) = claims_state (cooldown cfg) (hs_claims s) (ddp st)
     \<and> mset (map job_pdu js) \<subseteq># mset (map snd gs)
     \<and> (list_all (\<lambda>h. snd h = Returned) (hs_handlers s) \<longrightarrow> mset (map job_pdu js) = mset (map snd gs))
     \<and> list_all (may_send (destinationAllowed (allowedDest cfg))) js \<and> length gs \<le> length (hs_handlers s)
     \<and> spaced (cooldown cfg) gs"
proof -
  let ?s = "hook_run cfg t0 st es"
  let ?gs = "granted (cooldown cfg) (hs_claims ?s) (ddp st)"
  note ok = hooks_ok_run [of cfg st t0 es, unfolded hooks_ok_def]
  obtain js where js: "jobs (hs_relay ?s) = jobs st @ js" "list_all (may_send (destinationAllowed (allowedDest cfg))) js"
      "mset (map job_pdu js) + all_owed ?s = mset (map snd ?gs)"
    using ok by blast
  have "mset (map job_pdu js) \<subseteq># mset (map snd ?gs)"
    using js(3) by (metis mset_subset_eq_add_left)
  moreover have "list_all (\<lambda>h. snd h = Returned) (hs_handlers ?s) \<Longrightarrow> mset (map job_pdu js) = mset (map snd ?gs)"
    using js(3) all_returned_owed by simp
  moreover have "length ?gs \<le> length (hs_handlers ?s)"
    using ok length_granted [of "cooldown cfg" "hs_claims ?s" "ddp st"] by linarith
  ultimately show ?thesis
    using ok js(1,2) hook_run_health spaced_granted [OF assms, of "hs_claims ?s" "ddp st"] by (simp add: Let_def)
qed

text \<open>Two connections with the same request, turn by turn.\<close>

definition test_events :: "hook_event list" where
  "test_events = [Connects test_request, Connects test_request, Turns 0, Turns 1, Turns 1, Turns 0, Turns 1, Turns 0,
     Turns 1, Turns 0, Turns 1]"

lemma test_run:
  "list_all (\<lambda>h. snd h = Returned) (hs_handlers (hook_run test_config 0 init_relay test_events))"
  "hs_claims (hook_run test_config 0 init_relay test_events) = [(0, testPDU), (0, testPDU)]"
proof -
  obtain info where info: "decodeSubmitPDU testPDU = Inr info"
    using decode_testPDU by blast
  have pdu: "hk_PDU test_queued = testPDU"
    by (simp add: test_queued_def)
  have t0: "hook_turn test_config now test_request Entered st = (Diffing now test_queued info, st)" for now st
    using info by (simp add: test_unmarshal) (simp add: test_queued_def test_config_def testPDU_def)
  have t2: "hook_turn test_config now test_request (Deciding ts test_queued info) st =
      (let (sending, st) = claim (90 * second) now testPDU st
       in ((if sending then Spawning ts test_queued info else Ending ts ''cooldown-dup'' (phone info)), st))"
    "claim_of test_config now (Deciding ts test_queued info) = [(now, testPDU)]" for now ts st
    using pdu by (simp_all add: test_config_def destinationAllowed_def)
  have "(\<forall>h \<in> set (hs_handlers (hook_run test_config 0 init_relay test_events)). snd h = Returned)
      \<and> hs_claims (hook_run test_config 0 init_relay test_events) = [(0, testPDU), (0, testPDU)]"
    by (simp add: hook_run_def test_events_def t0 t2 claim_def claimPDU_def init_relay_def init_dedup_def time_since_def
        max_duration_def Let_def case_prod_beta del: hook_turn.simps(1,3) claim_of.simps(1))
  then show "list_all (\<lambda>h. snd h = Returned) (hs_handlers (hook_run test_config 0 init_relay test_events))"
      "hs_claims (hook_run test_config 0 init_relay test_events) = [(0, testPDU), (0, testPDU)]"
    by (simp_all add: list_all_iff)
qed

theorem hooks_interleaved_witness:
  "map job_pdu (jobs (hs_relay (hook_run test_config 0 init_relay test_events))) = [testPDU]"
proof -
  have "cooldown test_config \<le> max_duration" and c: "cooldown test_config = 90 * second"
    by (simp_all add: test_config_def max_duration_def)
  note all = hooks_interleaved [OF this(1), of 0 init_relay test_events, unfolded Let_def]
  have "granted (90 * second) [(0, testPDU), (0, testPDU)] init_dedup = [(0, testPDU)]"
    by (simp add: granted_Cons claimPDU_def init_dedup_def time_since_def max_duration_def testPDU_def)
  with all have "mset (map job_pdu (jobs (hs_relay (hook_run test_config 0 init_relay test_events)))) = {#testPDU#}"
    by (simp only: test_run c if_True simp_thms) (simp add: init_relay_def)
  then show ?thesis
    by (simp only: mset_single_iff)
qed

text \<open>A handler that no other interrupts computes what \<open>handleHook\<close> computes.\<close>

lemma handler_alone:
  "((\<lambda>(g, st). hook_turn cfg now req g st) ^^ 5) (Entered, st) = (Returned, snd (handleHook cfg now req st))"
  by (auto simp: eval_nat_numeral handleHook_def ifStr_def Let_def case_prod_beta split: option.split sum.split)

end
