(* ===== verification/At_Server.thy ===== *)
theory At_Server
  imports Pdu
begin

text \<open>
  The primary transport (\<^verbatim>\<open>main.go\<close>, "Transport via /bin/atserver"): the fixed-size request frame, one
  command over the Unix socket, the three-command sequence that submits a PDU, finding the
  atserver process, and the choice between the two transports. The atserver process itself is not
  part of the repository: it is a function from a request and its own state to what the socket
  calls of \<^verbatim>\<open>atSrvCmd\<close> give.
\<close>

section \<open>Frames\<close>

definition atSrvReqSize :: nat where "atSrvReqSize = 0x208"
definition atSrvRespSize :: nat where "atSrvRespSize = 0x2808"
definition atSrvGap :: int where "atSrvGap = 300 * millisecond"
definition atSrvTextMax :: nat where "atSrvTextMax = atSrvReqSize - 8"

definition isATSrvCMGS :: "string \<Rightarrow> bool" where
  "isATSrvCMGS s =
     (let up = to_upper s in
      (contains up ''+CMGS='' \<or> contains up ''+CMGW='') \<and> contains s ''>'')"

text \<open>The frame of a text that fits: length, two unused bytes, the time-out in milliseconds, text, zeros.\<close>

definition request_bytes :: "string \<Rightarrow> nat \<Rightarrow> byte list" where
  "request_bytes s ms =
     to_le 2 (length s) @ [0, 0] @ to_le 4 ms @ bytes_of_string s
     @ replicate (atSrvReqSize - 8 - length s) 0"

definition atSrvText :: "string \<Rightarrow> string" where
  "atSrvText cmd =
     (let s = trim_right cmd crlf in if \<not> isATSrvCMGS s then s @ crlf else s)"

definition atSrvFrame :: "string \<Rightarrow> int \<Rightarrow> string + byte list" where
  "atSrvFrame cmd timeout =
     (let s = atSrvText cmd in
      if length s > atSrvTextMax
      then Inl (''AT string length '' @ show_nat (length s) @ '' > max '' @ show_nat atSrvTextMax)
      else Inr (request_bytes s (nat (timeout div millisecond) mod 2 ^ 32)))"

text \<open>How atserver reads the request: all of its 0x208 bytes, then the fields.\<close>

definition read_request :: "byte list \<Rightarrow> ((string \<times> nat) \<times> byte list) option" where
  "read_request bs =
     (if length bs < atSrvReqSize then None
      else Some ((string_of_bytes (take (of_le (take 2 bs)) (drop 8 bs)), of_le (take 4 (drop 4 bs))),
                 drop atSrvReqSize bs))"

lemma length_request_bytes: "length s \<le> atSrvTextMax \<Longrightarrow> length (request_bytes s ms) = atSrvReqSize"
  by (simp add: request_bytes_def atSrvTextMax_def atSrvReqSize_def)

lemma read_request_bytes:
  assumes "length s \<le> atSrvTextMax" and "ms < 2 ^ 32"
  shows "read_request (request_bytes s ms @ rest) = Some ((s, ms), rest)"
proof -
  let ?pad = "replicate (atSrvReqSize - 8 - length s) (0 :: byte)"
  have "length s < 256 ^ 2"
    using assms(1) by (simp add: atSrvTextMax_def atSrvReqSize_def)
  then have len: "of_le (to_le 2 (length s)) = length s"
    by (simp only: of_le_to_le mod_less)
  have ms: "of_le (to_le 4 ms) = ms"
    using assms(2) by (simp add: of_le_to_le)
  have total: "length (request_bytes s ms) = atSrvReqSize"
    using assms(1) by (rule length_request_bytes)
  have head: "take 2 (request_bytes s ms @ rest) = to_le 2 (length s)"
    "take 4 (drop 4 (request_bytes s ms @ rest)) = to_le 4 ms"
    "drop 8 (request_bytes s ms @ rest) = bytes_of_string s @ ?pad @ rest"
    by (simp_all add: request_bytes_def)
  show ?thesis
    unfolding read_request_def head len ms using total by simp
qed

text \<open>The requests form a code: a server that reads 0x208 bytes at a time recovers each text in order.\<close>

interpretation requests: stream_codec "\<lambda>(s, ms). request_bytes s ms" read_request
    "\<lambda>(s, ms). length s \<le> atSrvTextMax \<and> ms < 2 ^ 32"
  by unfold_locales (auto simp: read_request_bytes)

section \<open>One command\<close>

text \<open>
  What the socket gives to one request: no connection, a failed write, or the bytes that arrive
  before the read ends, with the text of the read's error if they are short. The trace records the
  requests written and the pauses between them.
\<close>

datatype reply = DialError string | WriteError string | Response "byte list" string

datatype at_event = Request "byte list" | Nap int

type_synonym 'w atserver = "byte list \<Rightarrow> 'w \<Rightarrow> reply \<times> 'w"

record 'w atio =
  server :: 'w
  trace :: "at_event list"

definition parse_response :: "byte list \<Rightarrow> string \<Rightarrow> string + string" where
  "parse_response arrived err =
     (let resp = take atSrvRespSize arrived; n = length resp in
      if n < 8 then Inl (''short response ('' @ show_nat n @ '' bytes): '' @ err)
      else let ln = of_le (take 2 resp);
               ln = (if ln > n - 8 then n - 8 else ln)
           in Inr (string_of_bytes (take ln (drop 8 resp))))"

definition atSrvCmd :: "'w atserver \<Rightarrow> string \<Rightarrow> int \<Rightarrow> 'w atio \<Rightarrow> (string + string) \<times> 'w atio" where
  "atSrvCmd srv cmd timeout io =
     (case atSrvFrame cmd timeout of
        Inl e \<Rightarrow> (Inl e, io)
      | Inr req \<Rightarrow>
          (case srv req (server io) of
             (DialError e, w) \<Rightarrow> (Inl e, io\<lparr>server := w\<rparr>)
           | (WriteError e, w) \<Rightarrow> (Inl e, io\<lparr>server := w, trace := trace io @ [Request req]\<rparr>)
           | (Response arrived e, w) \<Rightarrow>
               (parse_response arrived e, io\<lparr>server := w, trace := trace io @ [Request req]\<rparr>)))"

definition nap :: "int \<Rightarrow> 'w atio \<Rightarrow> 'w atio" where
  "nap d io = io\<lparr>trace := trace io @ [Nap d]\<rparr>"

section \<open>Submitting a PDU\<close>

definition cmgs_command :: "int \<Rightarrow> string \<Rightarrow> string" where
  "cmgs_command tpduLen pduHex = ''AT+CMGS='' @ show_int tpduLen @ ''>'' @ to_upper pduHex"

definition sendPDUviaATSrv ::
    "'w atserver \<Rightarrow> string \<Rightarrow> int \<Rightarrow> 'w atio \<Rightarrow> (bool \<times> string) \<times> 'w atio" where
  "sendPDUviaATSrv srv pduHex tpduLen io =
     (case atSrvCmd srv ''AT+CMEE=1'' (5 * second) io of
        (Inl e, io) \<Rightarrow> ((False, ''atsrv AT+CMEE=1: '' @ e), io)
      | (Inr _, io) \<Rightarrow>
          (case atSrvCmd srv ''AT+CMGF=0'' (5 * second) (nap atSrvGap io) of
             (Inl e, io) \<Rightarrow> ((False, ''atsrv AT+CMGF=0: '' @ e), io)
           | (Inr r, io) \<Rightarrow>
               if \<not> contains r ''OK'' then ((False, ''AT+CMGF=0 without OK: '' @ oneLine r), io)
               else
                 (case atSrvCmd srv (cmgs_command tpduLen pduHex) (30 * second) (nap atSrvGap io) of
                    (Inl e, io) \<Rightarrow> ((False, ''atsrv AT+CMGS: '' @ e), io)
                  | (Inr r, io) \<Rightarrow> ((contains r ''+CMGS'', oneLine r), io))))"

section \<open>Finding the process and choosing the transport\<close>

primrec cstr :: "byte list \<Rightarrow> byte list" where
  "cstr [] = []"
| "cstr (c # b) = (if c = 0 then [] else c # cstr b)"

text \<open>
  \<open>proc\<close> is \<^verbatim>\<open>/proc\<close>: the names of its entries in order, each with the contents of its \<^verbatim>\<open>cmdline\<close> if that
  can be read; \<open>None\<close> if the directory cannot.
\<close>

type_synonym proc_fs = "(string \<times> byte list option) list option"

primrec find_atserver :: "string \<Rightarrow> (string \<times> byte list option) list \<Rightarrow> int" where
  "find_atserver bin [] = 0"
| "find_atserver bin (e # ents) =
     (let (pid, ok) = atoi (fst e) in
      if \<not> ok then find_atserver bin ents
      else (case snd e of
          None \<Rightarrow> find_atserver bin ents
        | Some b \<Rightarrow>
            if b = [] then find_atserver bin ents
            else if has_prefix (string_of_bytes (cstr b)) bin then pid
            else find_atserver bin ents))"

definition atServerPID :: "string \<Rightarrow> proc_fs \<Rightarrow> int" where
  "atServerPID bin proc = (case proc of None \<Rightarrow> 0 | Some ents \<Rightarrow> find_atserver bin ents)"

definition pickTransport :: "string \<Rightarrow> bool \<Rightarrow> string \<Rightarrow> proc_fs \<Rightarrow> string" where
  "pickTransport atMode report bin proc =
     (if atMode = ''atsrv'' then ''atsrv''
      else if atMode = ''rpm30'' then ''rpm30''
      else if report then ''rpm30''
      else if atServerPID bin proc \<noteq> 0 then ''atsrv''
      else ''rpm30'')"

section \<open>The self test\<close>

datatype dry_outcome =
    NoPduMode string | StoreFailed string | FramingCorrupted string | NoIndex
  | Deleted string | NotDeleted string | DryPanic

definition dryRunCMGS :: "'w atserver \<Rightarrow> 'w atio \<Rightarrow> dry_outcome \<times> 'w atio" where
  "dryRunCMGS srv io =
     (case atSrvCmd srv ''AT+CMGF=0'' (5 * second) io of
        (Inl e, io) \<Rightarrow> (NoPduMode e, io)
      | (Inr _, io) \<Rightarrow>
          (case atSrvCmd srv (''AT+CMGW='' @ show_nat 14 @ ''>'' @ testPDU) (15 * second) (nap atSrvGap io) of
             (Inl e, io) \<Rightarrow> (StoreFailed e, io)
           | (Inr r, io) \<Rightarrow>
               if \<not> contains r ''+CMGW'' then (FramingCorrupted (oneLine r), io)
               else
                 (case after_first ''+CMGW:'' (oneLine r) of
                    None \<Rightarrow> (DryPanic, io)
                  | Some tail \<Rightarrow>
                      (case go_fields tail of
                         [] \<Rightarrow> (NoIndex, io)
                       | idx # _ \<Rightarrow>
                           (case atSrvCmd srv (''AT+CMGD='' @ idx) (10 * second) (nap atSrvGap io) of
                              (Inr d, io) \<Rightarrow> (if contains d ''OK'' then Deleted idx else NotDeleted idx, io)
                            | (Inl _, io) \<Rightarrow> (NotDeleted idx, io))))))"

datatype selftest_result = NotRunning | CrashedAt nat | Finished nat bool dry_outcome

text \<open>
  The cycles \<open>i\<close>, \<open>i + 1\<close>, \dots of the test, \<open>k\<close> of them left; \<open>pid\<close> looks the process up in the
  present state of the system. \<open>Inl\<close>: the cycle in which atserver was gone.
\<close>

fun selftest_cycles ::
    "'w atserver \<Rightarrow> ('w \<Rightarrow> int) \<Rightarrow> nat \<Rightarrow> nat \<Rightarrow> nat \<Rightarrow> 'w atio \<Rightarrow> (nat + nat) \<times> 'w atio" where
  "selftest_cycles srv pid i 0 okCount io = (Inr okCount, io)"
| "selftest_cycles srv pid i (Suc k) okCount io =
     (let io = (if i > 1 then nap atSrvGap io else io);
          (at, io) = atSrvCmd srv ''AT'' (5 * second) io;
          io = nap atSrvGap io;
          (csq, io) = atSrvCmd srv ''AT+CSQ'' (5 * second) io;
          okCount = (case (at, csq) of
              (Inr a, Inr c) \<Rightarrow> if contains a ''OK'' \<and> contains c ''+CSQ'' then Suc okCount else okCount
            | _ \<Rightarrow> okCount)
      in if pid (server io) = 0 then (Inl i, io)
         else selftest_cycles srv pid (Suc i) k okCount io)"

definition runSelfTestATSrv :: "'w atserver \<Rightarrow> ('w \<Rightarrow> int) \<Rightarrow> nat \<Rightarrow> 'w atio \<Rightarrow> selftest_result \<times> 'w atio" where
  "runSelfTestATSrv srv pid n io =
     (let pid0 = pid (server io) in
      if pid0 = 0 then (NotRunning, io)
      else (case selftest_cycles srv pid 1 n 0 io of
          (Inl i, io) \<Rightarrow> (CrashedAt i, io)
        | (Inr okCount, io) \<Rightarrow>
            let stable = (pid (server io) = pid0 \<and> okCount = n);
                (d, io) = dryRunCMGS srv io
            in (Finished okCount stable d, io)))"

section \<open>Facts about single commands\<close>

lemma trim_right_id: "s = [] \<or> last s \<notin> set cutset \<Longrightarrow> trim_right s cutset = s"
  by (cases s rule: rev_cases) (auto simp: trim_right_def)

lemma atSrvFrame_cases:
  "atSrvFrame cmd timeout =
     (if length (atSrvText cmd) \<le> atSrvTextMax
      then Inr (request_bytes (atSrvText cmd) (nat (timeout div millisecond) mod 2 ^ 32))
      else Inl (''AT string length '' @ show_nat (length (atSrvText cmd)) @ '' > max '' @ show_nat atSrvTextMax))"
  by (simp add: atSrvFrame_def Let_def)

text \<open>A command adds at most its own frame to the trace, and does so whenever it returns a response.\<close>

lemma atSrvCmd_trace:
  assumes "atSrvCmd srv cmd timeout io = (res, io')"
  shows "trace io' = trace io \<or> (\<exists>req. atSrvFrame cmd timeout = Inr req \<and> trace io' = trace io @ [Request req])"
    and "res = Inr r \<Longrightarrow> \<exists>req. atSrvFrame cmd timeout = Inr req \<and> trace io' = trace io @ [Request req]"
  using assms by (auto simp: atSrvCmd_def split: sum.splits prod.splits reply.splits)

lemma trace_nap [simp]: "trace (nap d io) = trace io @ [Nap d]"
  by (simp add: nap_def)

lemma server_nap [simp]: "server (nap d io) = server io"
  by (simp add: nap_def)

section \<open>Pauses between requests\<close>

text \<open>The requests of a trace, and whether a pause of at least \<open>atSrvGap\<close> follows each but the last.\<close>

definition sent_requests :: "at_event list \<Rightarrow> byte list list" where
  "sent_requests es = concat (map (\<lambda>e. case e of Request b \<Rightarrow> [b] | Nap _ \<Rightarrow> []) es)"

fun gapped :: "at_event list \<Rightarrow> bool" where
  "gapped (Request _ # Request _ # es) = False"
| "gapped (Request _ # Nap d # es) = (atSrvGap \<le> d \<and> gapped es)"
| "gapped (Nap _ # es) = gapped es"
| "gapped _ = True"

lemma sent_requests_append [simp]: "sent_requests (a @ b) = sent_requests a @ sent_requests b"
  by (simp add: sent_requests_def)

lemma sent_requests_simps [simp]:
  "sent_requests [] = []" "sent_requests (Request b # es) = b # sent_requests es"
  "sent_requests (Nap d # es) = sent_requests es"
  by (simp_all add: sent_requests_def)

lemma to_upper_Cons: "code c < 128 \<Longrightarrow> to_upper (c # s) = upper_char c # to_upper s"
  by (cases s) auto

section \<open>The submission sequence\<close>

definition frames_of :: "string \<Rightarrow> int \<Rightarrow> byte list list" where
  "frames_of cmd timeout = (case atSrvFrame cmd timeout of Inl _ \<Rightarrow> [] | Inr f \<Rightarrow> [f])"

text \<open>What one submission adds to the trace, in every outcome.\<close>

lemma sendPDUviaATSrv_trace:
  assumes "sendPDUviaATSrv srv pduHex tpduLen io = ((ok, info), io')"
  shows "\<exists>t. trace io' = trace io @ t \<and> gapped t
    \<and> prefix (sent_requests t)
        (frames_of ''AT+CMEE=1'' (5 * second) @ frames_of ''AT+CMGF=0'' (5 * second)
         @ frames_of (cmgs_command tpduLen pduHex) (30 * second))
    \<and> (ok \<longrightarrow> sent_requests t =
        frames_of ''AT+CMEE=1'' (5 * second) @ frames_of ''AT+CMGF=0'' (5 * second)
         @ frames_of (cmgs_command tpduLen pduHex) (30 * second)
        \<and> (\<exists>a b c. t = [Request a, Nap atSrvGap, Request b, Nap atSrvGap, Request c]))"
proof -
  obtain r1 io1 where c1: "atSrvCmd srv ''AT+CMEE=1'' (5 * second) io = (r1, io1)"
    by fastforce
  obtain r2 io2 where c2: "atSrvCmd srv ''AT+CMGF=0'' (5 * second) (nap atSrvGap io1) = (r2, io2)"
    by fastforce
  obtain r3 io3 where c3: "atSrvCmd srv (cmgs_command tpduLen pduHex) (30 * second) (nap atSrvGap io2) = (r3, io3)"
    by fastforce
  note t1 = atSrvCmd_trace [OF c1] and t2 = atSrvCmd_trace [OF c2] and t3 = atSrvCmd_trace [OF c3]
  show ?thesis
  proof (cases r1)
    case (Inl e)
    with assms c1 have "io' = io1" and "\<not> ok"
      by (auto simp: sendPDUviaATSrv_def)
    with t1(1) show ?thesis
      by (auto simp: frames_of_def)
  next
    case (Inr a)
    note r1 = Inr
    obtain f1 where f1: "frames_of ''AT+CMEE=1'' (5 * second) = [f1]" "trace io1 = trace io @ [Request f1]"
      using t1(2) [OF r1] by (auto simp: frames_of_def)
    show ?thesis
    proof (cases "\<exists>b. r2 = Inr b \<and> contains b ''OK''")
      case False
      with assms c1 c2 r1 have "io' = io2" and "\<not> ok"
        by (auto simp: sendPDUviaATSrv_def split: sum.splits if_splits)
      with t2(1) f1 show ?thesis
        by (auto simp: frames_of_def)
    next
      case True
      then obtain b where r2: "r2 = Inr b" and "contains b ''OK''"
        by blast
      obtain f2 where f2: "frames_of ''AT+CMGF=0'' (5 * second) = [f2]"
          "trace io2 = trace io @ [Request f1, Nap atSrvGap, Request f2]"
        using t2(2) [OF r2] f1 by (auto simp: frames_of_def)
      have res: "io' = io3" "ok \<longrightarrow> (\<exists>c. r3 = Inr c)"
        using assms c1 c2 c3 r1 r2 \<open>contains b ''OK''\<close>
        by (auto simp: sendPDUviaATSrv_def split: sum.splits)
      have "trace io3 = trace io @ [Request f1, Nap atSrvGap, Request f2, Nap atSrvGap] \<or>
          (\<exists>f3. frames_of (cmgs_command tpduLen pduHex) (30 * second) = [f3] \<and>
            trace io3 = trace io @ [Request f1, Nap atSrvGap, Request f2, Nap atSrvGap, Request f3])"
        using t3(1) f2 by (auto simp: frames_of_def)
      moreover have "ok \<longrightarrow> (\<exists>f3. frames_of (cmgs_command tpduLen pduHex) (30 * second) = [f3] \<and>
            trace io3 = trace io @ [Request f1, Nap atSrvGap, Request f2, Nap atSrvGap, Request f3])"
        using t3(2) f2 res(2) by (auto simp: frames_of_def)
      ultimately show ?thesis
        using res(1) f1 f2 by (auto simp: atSrvGap_def)
    qed
  qed
qed

text \<open>The submission command of a hex PDU is framed as it stands: nothing is trimmed or appended.\<close>

lemma show_int_ascii: "c \<in> set (show_int i) \<Longrightarrow> code c < 128"
  using show_nat_digits by (fastforce simp: show_int_def is_digit_def split: if_splits)

lemma to_upper_append_ascii:
  "list_all (\<lambda>c. code c < 128) s \<Longrightarrow> to_upper (s @ t) = map upper_char s @ to_upper t"
  by (induction s) (auto simp: to_upper_Cons)

lemma atSrvText_cmgs:
  assumes "hex_decode pduHex = Some p"
  shows "atSrvText (cmgs_command n pduHex) = ''AT+CMGS='' @ show_int n @ ''>'' @ map upper_char pduHex"
    and "isATSrvCMGS (cmgs_command n pduHex)"
proof -
  have up: "to_upper pduHex = map upper_char pduHex"
    using assms by (rule hex_decode_ascii)
  then have cmd: "cmgs_command n pduHex = ''AT+CMGS='' @ show_int n @ ''>'' @ map upper_char pduHex"
    by (simp add: cmgs_command_def)
  have "hex_decode (map upper_char pduHex) = Some p"
    using assms hex_decode_upper by simp
  then have vis: "list_all visible (map upper_char pduHex)"
    by (rule hex_decode_visible)
  have "visible (last (cmgs_command n pduHex))"
  proof (cases "pduHex = []")
    case True
    with cmd show ?thesis by (simp add: visible_def)
  next
    case False
    then have "last (map upper_char pduHex) \<in> set (map upper_char pduHex)"
      by (intro last_in_set) simp
    with vis have "visible (last (map upper_char pduHex))"
      unfolding list_all_iff by blast
    with False show ?thesis
      by (simp add: cmd)
  qed
  then have trim: "trim_right (cmgs_command n pduHex) crlf = cmgs_command n pduHex"
    by (intro trim_right_id) (auto simp: crlf_def visible_def)
  have "to_upper (cmgs_command n pduHex) = ''AT'' @ ''+CMGS='' @ to_upper (show_int n @ ''>'' @ map upper_char pduHex)"
    unfolding cmd by (simp add: to_upper_Cons upper_char_def)
  then have "contains (to_upper (cmgs_command n pduHex)) ''+CMGS=''"
    by (simp only: contains_mid)
  moreover have "contains (cmgs_command n pduHex) ''>''"
    unfolding cmd using contains_mid [of "''AT+CMGS='' @ show_int n" "''>''"] by (simp only: append_assoc)
  ultimately show "isATSrvCMGS (cmgs_command n pduHex)"
    by (simp add: isATSrvCMGS_def Let_def)
  with trim show "atSrvText (cmgs_command n pduHex) = ''AT+CMGS='' @ show_int n @ ''>'' @ map upper_char pduHex"
    by (simp add: atSrvText_def Let_def cmd)
qed

section \<open>Counting submissions\<close>

text \<open>A request that makes atserver hand an SMS to the modem: a two-stage \<open>+CMGS\<close>.\<close>

definition is_submission :: "byte list \<Rightarrow> bool" where
  "is_submission req \<longleftrightarrow>
     (case read_request req of
        None \<Rightarrow> False
      | Some ((s, ms), _) \<Rightarrow> contains (to_upper s) ''+CMGS='' \<and> contains s ''>'')"

definition submissions_in :: "at_event list \<Rightarrow> nat" where
  "submissions_in es = length (filter is_submission (sent_requests es))"

lemma submissions_in_append [simp]: "submissions_in (a @ b) = submissions_in a + submissions_in b"
  by (simp add: submissions_in_def)

lemma frames_of_submission:
  "f \<in> set (frames_of cmd timeout) \<Longrightarrow>
     is_submission f \<longleftrightarrow> contains (to_upper (atSrvText cmd)) ''+CMGS='' \<and> contains (atSrvText cmd) ''>''"
  using requests.dec_enc [of "(atSrvText cmd, nat (timeout div millisecond) mod 2 ^ 32)" "[]"]
  by (auto simp: frames_of_def atSrvFrame_cases is_submission_def split: if_splits)

lemma trim_right_keeps: "c \<notin> set cutset \<Longrightarrow> \<exists>zs. trim_right (xs @ c # ys) cutset = xs @ c # zs"
  by (auto simp: trim_right_def dropWhile_append)

text \<open>Whatever the PDU text, the command stays a submission after trimming.\<close>

lemma cmgs_text_submits:
  "contains (to_upper (atSrvText (cmgs_command n p))) ''+CMGS='' \<and> contains (atSrvText (cmgs_command n p)) ''>''"
proof -
  have "CHR ''>'' \<notin> set crlf"
    by (simp add: crlf_def)
  then obtain zs where zs: "trim_right (cmgs_command n p) crlf = (''AT+CMGS='' @ show_int n) @ CHR ''>'' # zs"
    using trim_right_keeps [of "CHR ''>''" crlf "''AT+CMGS='' @ show_int n" "to_upper p"]
    by (auto simp: cmgs_command_def)
  have up: "to_upper ((''AT+CMGS='' @ show_int n) @ CHR ''>'' # zs @ ys)
      = ''AT'' @ ''+CMGS='' @ to_upper (show_int n @ CHR ''>'' # zs @ ys)" for ys
    by (simp add: to_upper_Cons upper_char_def)
  have c: "contains (to_upper ((''AT+CMGS='' @ show_int n) @ CHR ''>'' # zs @ ys)) ''+CMGS=''" for ys
    unfolding up by (rule contains_mid)
  have "atSrvText (cmgs_command n p) = trim_right (cmgs_command n p) crlf
      \<or> atSrvText (cmgs_command n p) = trim_right (cmgs_command n p) crlf @ crlf"
    by (simp add: atSrvText_def Let_def)
  then obtain ys where ys: "atSrvText (cmgs_command n p) = (''AT+CMGS='' @ show_int n) @ CHR ''>'' # zs @ ys"
    using zs by auto
  have "contains (atSrvText (cmgs_command n p)) ''>''"
    unfolding ys using contains_mid [of "''AT+CMGS='' @ show_int n" "''>''" "zs @ ys"] by simp
  with c ys show ?thesis
    by simp
qed

lemma sendPDUviaATSrv_submits:
  assumes "sendPDUviaATSrv srv p n io = ((ok, info), io')"
  shows "submissions_in (trace io) \<le> submissions_in (trace io')"
    and "submissions_in (trace io') \<le> Suc (submissions_in (trace io))"
    and "ok \<Longrightarrow> submissions_in (trace io') = Suc (submissions_in (trace io))"
proof -
  let ?A = "frames_of ''AT+CMEE=1'' (5 * second)" and ?B = "frames_of ''AT+CMGF=0'' (5 * second)"
  let ?C = "frames_of (cmgs_command n p) (30 * second)"
  obtain t where t: "trace io' = trace io @ t" "prefix (sent_requests t) (?A @ ?B @ ?C)"
      "ok \<longrightarrow> sent_requests t = ?A @ ?B @ ?C \<and>
         (\<exists>a b c. t = [Request a, Nap atSrvGap, Request b, Nap atSrvGap, Request c])"
    using sendPDUviaATSrv_trace [OF assms] by blast
  have "\<not> contains (to_upper (atSrvText ''AT+CMEE=1'')) ''+CMGS=''"
    and "\<not> contains (to_upper (atSrvText ''AT+CMGF=0'')) ''+CMGS=''"
    by code_simp+
  then have none: "filter is_submission ?A = []" "filter is_submission ?B = []"
    by (auto simp: filter_empty_conv frames_of_submission)
  have one: "filter is_submission ?C = ?C"
    using cmgs_text_submits by (auto simp: filter_id_conv frames_of_submission)
  have len: "length ?A \<le> 1" "length ?B \<le> 1" "length ?C \<le> 1"
    by (auto simp: frames_of_def split: sum.splits)
  have "prefix (filter is_submission (sent_requests t)) (filter is_submission (?A @ ?B @ ?C))"
    by (rule filter_mono_prefix) (rule t(2))
  then have "submissions_in t \<le> length ?C"
    unfolding submissions_in_def using none one by (simp add: prefix_length_le)
  with t(1) len(3) show "submissions_in (trace io) \<le> submissions_in (trace io')"
    and "submissions_in (trace io') \<le> Suc (submissions_in (trace io))"
    by simp_all
  show "submissions_in (trace io') = Suc (submissions_in (trace io))" if sent: ok
  proof -
    have all: "sent_requests t = ?A @ ?B @ ?C"
      using t(3) sent by blast
    obtain a b c where "t = [Request a, Nap atSrvGap, Request b, Nap atSrvGap, Request c]"
      using t(3) sent by blast
    then have "length (sent_requests t) = 3"
      by simp
    with len have "length ?C = 1"
      unfolding all by simp
    with all none one t(1) show ?thesis
      by (simp add: submissions_in_def)
  qed
qed

section \<open>Properties\<close>

text \<open>The request frame. A command whose text fits becomes exactly 0x208 bytes, from which atserver's read
  recovers the text and the time-out; a longer one is an error and is never cut. The text is the
  command without line ends, with CRLF appended unless it is a two-stage submission.\<close>

theorem atSrvFrame_read:
  "case atSrvFrame cmd timeout of
     Inr buf \<Rightarrow> length buf = 0x208 \<and>
       read_request (buf @ rest) = Some ((atSrvText cmd, nat (timeout div millisecond) mod 2 ^ 32), rest)
   | Inl _ \<Rightarrow> 512 < length (atSrvText cmd)"
  using length_request_bytes [of "atSrvText cmd"] requests.dec_enc [of "(atSrvText cmd, nat (timeout div millisecond) mod 2 ^ 32)" rest]
  by (auto simp: atSrvFrame_cases atSrvTextMax_def atSrvReqSize_def)

text \<open>A hex PDU is submitted byte for byte: the frame's text is the submission command with the PDU in
  upper case directly after the prompt separator, without the line end that corrupts it.\<close>

theorem atSrvFrame_cmgs:
  assumes "hex_decode pduHex = Some p" and "length (show_int n) + length pduHex \<le> 503"
  shows "atSrvFrame (cmgs_command n pduHex) (30 * second) =
      Inr (request_bytes (''AT+CMGS='' @ show_int n @ ''>'' @ map upper_char pduHex) 30000)
    \<and> hex_decode (map upper_char pduHex) = Some p"
  using assms hex_decode_upper [of pduHex] atSrvText_cmgs(1) [OF assms(1), of n]
  by (simp add: atSrvFrame_cases atSrvTextMax_def atSrvReqSize_def)

theorem atSrvFrame_cmgs_witness:
  "hex_decode testPDU \<noteq> None \<and>
   atSrvFrame (cmgs_command 14 testPDU) (30 * second) =
     Inr (request_bytes (''AT+CMGS=14>'' @ testPDU) 30000)"
proof -
  obtain p where p: "hex_decode testPDU = Some p"
    by (simp add: testPDU_def from_hex_char_def)
  have n: "show_int 14 = ''14''" and up: "map upper_char testPDU = testPDU"
    by code_simp+
  have "length (show_int 14) + length testPDU \<le> 503"
    by (simp add: n testPDU_def)
  from atSrvFrame_cmgs [OF p this] show ?thesis
    by (simp add: p n up)
qed

text \<open>Reading a response is total and never leaves the bytes that arrived: of a well-formed response that the
  connection cut after \<open>n\<close> bytes, \<^verbatim>\<open>atSrvCmd\<close> returns the prefix of the text that arrived, the whole
  text when it arrived whole, and an error exactly when not even the header came.\<close>

theorem parse_response_cut:
  assumes "length s \<le> 0x2800" and "length hdr = 6" and "n \<le> 0x2808"
    and "resp = to_le 2 (length s) @ hdr @ bytes_of_string s @ replicate (0x2800 - length s) 0"
  shows "parse_response (take n resp) e =
    (if n < 8 then Inl (''short response ('' @ show_nat n @ '' bytes): '' @ e)
     else Inr (take (n - 8) s))"
proof -
  have len: "length resp = 0x2808"
    using assms by simp
  have two: "take 2 resp = to_le 2 (length s)" and rest: "drop 8 resp = bytes_of_string s @ replicate (0x2800 - length s) 0"
    using assms(2,4) by simp_all
  have "length s < 256 ^ 2"
    using assms(1) by simp
  then have v: "of_le (to_le 2 (length s)) = length s"
    by (simp only: of_le_to_le mod_less)
  have n: "take atSrvRespSize (take n resp) = take n resp" "length (take n resp) = n"
    using assms(3) len by (simp_all add: atSrvRespSize_def)
  show ?thesis
  proof (cases "n < 8")
    case False
    have cut: "drop 8 (take n resp) = take (n - 8) (drop 8 resp)"
      by (rule drop_take)
    have "take 2 (take n resp) = to_le 2 (length s)"
      using False two by (simp add: min_def)
    moreover have "string_of_bytes (take (if length s > n - 8 then n - 8 else length s)
        (take (n - 8) (drop 8 resp))) = take (n - 8) s"
      unfolding rest by (simp add: string_of_bytes_def bytes_of_string_def take_map comp_def min_def)
    ultimately show ?thesis
      unfolding parse_response_def Let_def n cut using False v
      by (cases "n - 8 < length s") simp_all
  next
    case True
    then show ?thesis
      unfolding parse_response_def Let_def n by simp
  qed
qed

theorem parse_response_cut_witness:
  "let s = ''OK'' @ crlf in
   parse_response (take 10 (to_le 2 (length s) @ replicate 6 0 @ bytes_of_string s
     @ replicate (0x2800 - length s) 0)) ''EOF'' = Inr (take 2 s)"
  unfolding Let_def
  by (rule trans [OF parse_response_cut [OF _ _ _ refl]]) (simp_all add: crlf_def)

text \<open>C9: The submission protocol, whatever atserver answers: the requests written are, in order, the error
  mode, the PDU mode and one submission of the PDU, cut off where a step failed; a pause of at least
  300 ms separates any two of them; and success is reported only when all were written.\<close>

theorem sendPDUviaATSrv_protocol:
  "let ((ok, info), io') = sendPDUviaATSrv srv pduHex tpduLen io;
       plan = [request_bytes (''AT+CMEE=1'' @ crlf) 5000, request_bytes (''AT+CMGF=0'' @ crlf) 5000]
              @ frames_of (cmgs_command tpduLen pduHex) (30 * second)
   in \<exists>t. trace io' = trace io @ t \<and> gapped t
        \<and> (if ok then sent_requests t = plan else prefix (sent_requests t) plan)"
proof -
  have "atSrvText ''AT+CMEE=1'' = ''AT+CMEE=1'' @ crlf" and "atSrvText ''AT+CMGF=0'' = ''AT+CMGF=0'' @ crlf"
    by code_simp+
  then have "frames_of ''AT+CMEE=1'' (5 * second) = [request_bytes (''AT+CMEE=1'' @ crlf) 5000]"
    and "frames_of ''AT+CMGF=0'' (5 * second) = [request_bytes (''AT+CMGF=0'' @ crlf) 5000]"
    by (simp_all add: frames_of_def atSrvFrame_cases atSrvTextMax_def atSrvReqSize_def crlf_def)
  moreover obtain ok info io' where "sendPDUviaATSrv srv pduHex tpduLen io = ((ok, info), io')"
    by (cases "sendPDUviaATSrv srv pduHex tpduLen io") auto
  ultimately show ?thesis
    using sendPDUviaATSrv_trace [of srv pduHex tpduLen io ok info io'] by (simp add: Let_def) blast
qed

lemma parse_response_whole:
  assumes "length s \<le> 0x2800" and "length hdr = 6"
  shows "parse_response (to_le 2 (length s) @ hdr @ bytes_of_string s) e = Inr s"
proof -
  have "length s < 256 ^ 2"
    using assms(1) by simp
  then have "of_le (to_le 2 (length s)) = length s"
    by (simp only: of_le_to_le mod_less)
  moreover have "drop 8 (to_le 2 (length s) @ hdr @ bytes_of_string s) = bytes_of_string s"
    "take atSrvRespSize (to_le 2 (length s) @ hdr @ bytes_of_string s) = to_le 2 (length s) @ hdr @ bytes_of_string s"
    using assms by (simp_all add: atSrvRespSize_def)
  ultimately show ?thesis
    using assms(2) by (simp add: parse_response_def Let_def)
qed

text \<open>A server that echoes the command, as a modem with echo on does, and refuses every submission.\<close>

definition echo_answer :: "string \<Rightarrow> string" where
  "echo_answer s = s @ crlf @ (if contains s ''>'' then ''+CMS ERROR: 500'' else ''OK'') @ crlf"

definition echo_server :: "unit atserver" where
  "echo_server req w =
     (case read_request req of
        None \<Rightarrow> (DialError ''short'', w)
      | Some ((s, ms), _) \<Rightarrow>
          (Response (to_le 2 (length (echo_answer s)) @ replicate 6 0 @ bytes_of_string (echo_answer s)) ''EOF'', w))"

lemma atSrvCmd_echo:
  assumes "length (atSrvText cmd) \<le> atSrvTextMax"
  shows "atSrvCmd echo_server cmd timeout io =
    (Inr (echo_answer (atSrvText cmd)),
     io\<lparr>trace := trace io @ [Request (request_bytes (atSrvText cmd) (nat (timeout div millisecond) mod 2 ^ 32))]\<rparr>)"
proof -
  let ?ms = "nat (timeout div millisecond) mod 2 ^ 32"
  have "read_request (request_bytes (atSrvText cmd) ?ms @ []) = Some ((atSrvText cmd, ?ms), [])"
    using assms by (intro read_request_bytes) simp_all
  moreover have "length (echo_answer (atSrvText cmd)) \<le> 0x2800"
    using assms by (simp add: echo_answer_def crlf_def atSrvTextMax_def atSrvReqSize_def)
  ultimately show ?thesis
    using assms
    by (simp add: atSrvCmd_def atSrvFrame_cases echo_server_def parse_response_whole)
qed

lemma sendPDU_echo:
  "\<exists>io'. sendPDUviaATSrv echo_server testPDU 14 io = ((True, ''AT+CMGS=14>'' @ testPDU @ ''  +CMS ERROR: 500''), io')"
proof -
  have texts: "atSrvText ''AT+CMEE=1'' = ''AT+CMEE=1'' @ crlf" "atSrvText ''AT+CMGF=0'' = ''AT+CMGF=0'' @ crlf"
    "atSrvText (cmgs_command 14 testPDU) = ''AT+CMGS=14>'' @ testPDU"
    by code_simp+
  have fit: "length (''AT+CMEE=1'' @ crlf) \<le> atSrvTextMax" "length (''AT+CMGF=0'' @ crlf) \<le> atSrvTextMax"
    "length (''AT+CMGS=14>'' @ testPDU) \<le> atSrvTextMax"
    by (simp_all add: crlf_def atSrvTextMax_def atSrvReqSize_def testPDU_def)
  have answers: "contains (echo_answer (''AT+CMGF=0'' @ crlf)) ''OK''"
    "contains (echo_answer (''AT+CMGS=14>'' @ testPDU)) ''+CMGS''"
    "oneLine (echo_answer (''AT+CMGS=14>'' @ testPDU)) = ''AT+CMGS=14>'' @ testPDU @ ''  +CMS ERROR: 500''"
    by code_simp+
  show ?thesis
    unfolding sendPDUviaATSrv_def
    by (simp only: atSrvCmd_echo texts fit answers prod.case sum.case if_True not_True_eq_False if_False simp_thms) blast
qed

text \<open>C31: Success is recognised by the text \<open>+CMGS\<close> anywhere in the response, so the echo of a refused
  submission is reported as sent.\<close>

theorem sendPDUviaATSrv_echo:
  "fst (sendPDUviaATSrv echo_server testPDU 14 io) = (True, ''AT+CMGS=14>'' @ testPDU @ ''  +CMS ERROR: 500'')"
  using sendPDU_echo [of io] by auto

text \<open>The pause is missing between two submissions: when both run to the end, the last request of the first
  and the first request of the second follow each other without it.\<close>

theorem sendPDUviaATSrv_burst:
  assumes "sendPDUviaATSrv srv p1 n1 io = ((True, i1), io1)"
    and "sendPDUviaATSrv srv p2 n2 io1 = ((True, i2), io2)"
  shows "\<not> gapped (drop (length (trace io)) (trace io2))"
  using sendPDUviaATSrv_trace [OF assms(1)] sendPDUviaATSrv_trace [OF assms(2)]
  by (auto simp: atSrvGap_def)

definition idle_io :: "unit atio" where
  "idle_io = \<lparr>server = (), trace = []\<rparr>"

theorem sendPDUviaATSrv_burst_witness:
  "\<exists>io1 io2. sendPDUviaATSrv echo_server testPDU 14 idle_io = ((True, ''AT+CMGS=14>'' @ testPDU @ ''  +CMS ERROR: 500''), io1)
     \<and> \<not> gapped (drop (length (trace idle_io)) (trace (io2 :: unit atio)))"
proof -
  obtain io1 where 1: "sendPDUviaATSrv echo_server testPDU 14 idle_io =
      ((True, ''AT+CMGS=14>'' @ testPDU @ ''  +CMS ERROR: 500''), io1)"
    using sendPDU_echo by blast
  obtain io2 where 2: "sendPDUviaATSrv echo_server testPDU 14 io1 =
      ((True, ''AT+CMGS=14>'' @ testPDU @ ''  +CMS ERROR: 500''), io2)"
    using sendPDU_echo by blast
  show ?thesis
    using 1 sendPDUviaATSrv_burst [OF 1 2] by blast
qed

text \<open>\<^verbatim>\<open>atServerPID\<close> returns the first process of \<^verbatim>\<open>/proc\<close> whose command line starts with the configured
  path, and 0 if there is none; entries that are no process or cannot be read are passed over.\<close>

theorem atServerPID_first:
  "atServerPID bin (Some ents) =
     (case filter (\<lambda>(name, cmdline). snd (atoi name) \<and> cmdline \<noteq> None \<and> the cmdline \<noteq> []
          \<and> prefix bin (string_of_bytes (takeWhile (\<lambda>c. c \<noteq> 0) (the cmdline)))) ents of
        [] \<Rightarrow> 0 | e # _ \<Rightarrow> fst (atoi (fst e)))"
proof -
  have "cstr b = takeWhile (\<lambda>c. c \<noteq> 0) b" for b
    by (induction b) simp_all
  then have "find_atserver bin ents =
     (case filter (\<lambda>(name, cmdline). snd (atoi name) \<and> cmdline \<noteq> None \<and> the cmdline \<noteq> []
          \<and> prefix bin (string_of_bytes (takeWhile (\<lambda>c. c \<noteq> 0) (the cmdline)))) ents of
        [] \<Rightarrow> 0 | e # _ \<Rightarrow> fst (atoi (fst e)))"
    by (induction ents) (auto simp: has_prefix_def case_prod_beta split: option.splits)
  then show ?thesis
    by (simp add: atServerPID_def)
qed

text \<open>The transport is always one of the two; the automatic choice is atserver exactly when it runs and no
  delivery report is wanted, and an explicit choice overrides both.\<close>

theorem pickTransport_choice:
  "pickTransport m report bin proc = ''atsrv'' \<and>
     (m = ''atsrv'' \<or> m \<noteq> ''rpm30'' \<and> \<not> report \<and> atServerPID bin proc \<noteq> 0)
   \<or> pickTransport m report bin proc = ''rpm30'' \<and> m \<noteq> ''atsrv'' \<and>
     (m = ''rpm30'' \<or> report \<or> atServerPID bin proc = 0)"
  by (auto simp: pickTransport_def)

text \<open>The framing check of the self test recognises \<open>+CMGW\<close> but then splits at \<open>+CMGW:\<close>: if the response
  only echoes the command, the check passes a refused record as correct framing and the split panics.\<close>

theorem dryRunCMGS_panics: "fst (dryRunCMGS echo_server io) = DryPanic"
proof -
  have texts: "atSrvText ''AT+CMGF=0'' = ''AT+CMGF=0'' @ crlf"
    "atSrvText (''AT+CMGW='' @ show_nat 14 @ ''>'' @ testPDU) = ''AT+CMGW=14>'' @ testPDU"
    by code_simp+
  have fit: "length (''AT+CMGF=0'' @ crlf) \<le> atSrvTextMax" "length (''AT+CMGW=14>'' @ testPDU) \<le> atSrvTextMax"
    by (simp_all add: crlf_def atSrvTextMax_def atSrvReqSize_def testPDU_def)
  have answers: "contains (echo_answer (''AT+CMGW=14>'' @ testPDU)) ''+CMGW''"
    "after_first ''+CMGW:'' (oneLine (echo_answer (''AT+CMGW=14>'' @ testPDU))) = None"
    by code_simp+
  show ?thesis
    unfolding dryRunCMGS_def
    by (simp only: atSrvCmd_echo texts fit answers prod.case sum.case option.case if_True
        not_True_eq_False if_False simp_thms fst_conv)
qed

end
