(* ===== verification/At_Port.thy ===== *)
theory At_Port
  imports Pdu
begin

text \<open>
  The fallback transport (\<^verbatim>\<open>port_linux.go\<close>): the descriptor sets of \<^verbatim>\<open>select\<close>, the reader goroutine, the
  polling of its buffer, the two-stage submission over the raw device node, and the decoding of a
  delivery report. The device with its driver is not part of the repository: it is a record of
  functions that say which bytes have arrived and how it reacts to a write.
\<close>

unbundle bit_operations_syntax

section \<open>Descriptor sets\<close>

text \<open>\<^verbatim>\<open>syscall.FdSet\<close> is an array of words; its width differs between targets, so it is a type parameter.\<close>

type_synonym 'a fdset = "'a word list"

definition maxFd :: "('a :: len) fdset \<Rightarrow> int" where
  "maxFd s = int (length s * LENGTH('a))"

definition fdZero :: "('a :: len) fdset \<Rightarrow> 'a fdset" where
  "fdZero s = map (\<lambda>_. 0) s"

definition fdSet :: "int \<Rightarrow> ('a :: len) fdset \<Rightarrow> 'a fdset" where
  "fdSet fd s =
     (if fd < 0 \<or> fd \<ge> maxFd s then s
      else let idx = nat fd div LENGTH('a); offset = nat fd mod LENGTH('a)
           in s[idx := s ! idx OR push_bit offset 1])"

definition fdIsSet :: "int \<Rightarrow> ('a :: len) fdset \<Rightarrow> bool" where
  "fdIsSet fd s \<longleftrightarrow>
     (if fd < 0 \<or> fd \<ge> maxFd s then False
      else let idx = nat fd div LENGTH('a); offset = nat fd mod LENGTH('a)
           in s ! idx AND push_bit offset 1 \<noteq> 0)"

section \<open>The reader goroutine\<close>

text \<open>
  One turn of the loop meets the stop flag, \<^verbatim>\<open>select\<close> as a function of its first two arguments (an error, or
  the count with the set it left), and an outcome of \<^verbatim>\<open>read\<close>.
\<close>

datatype 's select_result = SelIntr | SelError | Selected int 's

datatype read_result = ReadBytes "byte list" | ReadAgain | ReadNothing | ReadError

record 's turn =
  stop_seen :: bool
  select_gives :: "int \<Rightarrow> 's \<Rightarrow> 's select_result"
  read_gives :: read_result

datatype 's syscall = Select int 's | Read

text \<open>The set that \<^verbatim>\<open>select\<close> is asked about, in an array of \<open>n\<close> words; \<^verbatim>\<open>var rfds\<close> is zero before \<^verbatim>\<open>fdZero\<close> too.\<close>

definition asked_set :: "int \<Rightarrow> nat \<Rightarrow> ('a :: len) fdset" where
  "asked_set fd n = (let rfds = replicate n 0; rfds = fdZero rfds in fdSet fd rfds)"

text \<open>
  The buffer after the turns, the system calls made, and whether the goroutine has returned.
  \<^verbatim>\<open>fdIsSet\<close> is asked of the set that select left.
\<close>

fun reader :: "int \<Rightarrow> nat \<Rightarrow> ('a :: len) fdset turn list \<Rightarrow> byte list \<Rightarrow> byte list \<times> 'a fdset syscall list \<times> bool" where
  "reader fd w [] buf = (buf, [], False)"
| "reader fd w (t # ts) buf =
     (if stop_seen t then (buf, [], True)
      else
        let rfds = asked_set fd w; call = Select (fd + 1) rfds in
        (case select_gives t (fd + 1) rfds of
          SelIntr \<Rightarrow> (let (b, cs, e) = reader fd w ts buf in (b, call # cs, e))
        | SelError \<Rightarrow> (buf, [call], True)
        | Selected n rfds \<Rightarrow>
            if n = 0 \<or> \<not> fdIsSet fd rfds
            then (let (b, cs, e) = reader fd w ts buf in (b, call # cs, e))
            else (case read_gives t of
                ReadBytes bs \<Rightarrow>
                  let (b, cs, e) = reader fd w ts (if bs = [] then buf else buf @ bs) in (b, call # Read # cs, e)
              | ReadAgain \<Rightarrow> (let (b, cs, e) = reader fd w ts buf in (b, call # Read # cs, e))
              | ReadNothing \<Rightarrow> (let (b, cs, e) = reader fd w ts buf in (b, call # Read # cs, e))
              | ReadError \<Rightarrow> (buf, [call, Read], True))))"

section \<open>Polling the buffer\<close>

text \<open>
  \<open>arrive\<close> gives the bytes the reader has appended since the port was last looked at; \<open>on_write\<close>
  is the device's reaction to a write. \<open>sent\<close> records the writes.
\<close>

record 'd device =
  arrive :: "'d \<Rightarrow> string \<times> 'd"
  on_write :: "string \<Rightarrow> 'd \<Rightarrow> 'd"

record 'd atPort =
  dev :: 'd
  buf :: string
  sent :: "string list"
  stopped :: bool
  closed :: bool

definition refresh :: "'d device \<Rightarrow> 'd atPort \<Rightarrow> 'd atPort" where
  "refresh dv p = (let (s, d) = arrive dv (dev p) in p\<lparr>dev := d, buf := buf p @ s\<rparr>)"

definition drain :: "'d device \<Rightarrow> 'd atPort \<Rightarrow> 'd atPort" where
  "drain dv p = (refresh dv p)\<lparr>buf := []\<rparr>"

definition port_write :: "'d device \<Rightarrow> string \<Rightarrow> 'd atPort \<Rightarrow> 'd atPort" where
  "port_write dv s p = p\<lparr>dev := on_write dv s (dev p), sent := sent p @ [s]\<rparr>"

text \<open>
  \<^verbatim>\<open>waitFor\<close> polls every 50 ms until the deadline and then looks once more. With a clock that moves
  only while the loop sleeps, that is \<open>polls wait\<close> looks before the last.
\<close>

definition polls :: "int \<Rightarrow> nat" where
  "polls wait = nat ((wait + 50 * millisecond - 1) div (50 * millisecond))"

fun wait_loop :: "'d device \<Rightarrow> nat \<Rightarrow> string list \<Rightarrow> 'd atPort \<Rightarrow> string \<times> 'd atPort" where
  "wait_loop dv 0 tokens p = (let p = refresh dv p in (buf p, p))"
| "wait_loop dv (Suc n) tokens p =
     (let p = refresh dv p in
      if list_ex (\<lambda>t. contains (buf p) t) tokens then (buf p, p) else wait_loop dv n tokens p)"

definition waitFor :: "'d device \<Rightarrow> string list \<Rightarrow> int \<Rightarrow> 'd atPort \<Rightarrow> string \<times> 'd atPort" where
  "waitFor dv tokens wait p = wait_loop dv (polls wait) tokens p"

definition port_cmd :: "'d device \<Rightarrow> string \<Rightarrow> int \<Rightarrow> 'd atPort \<Rightarrow> string \<times> 'd atPort" where
  "port_cmd dv s wait p =
     (let p = port_write dv (s @ [CHR 0x0D]) (drain dv p);
          (r, p) = waitFor dv [''OK'', ''ERROR''] wait p
      in (trim_space r, p))"

text \<open>\<^verbatim>\<open>close\<close> leaves the descriptor open if the reader has not ended within two seconds.\<close>

definition port_close :: "bool \<Rightarrow> 'd atPort \<Rightarrow> 'd atPort" where
  "port_close reader_ended p = p\<lparr>stopped := True, closed := reader_ended\<rparr>"

definition fresh_port :: "'d \<Rightarrow> 'd atPort" where
  "fresh_port d = \<lparr>dev = d, buf = [], sent = [], stopped = False, closed = False\<rparr>"

section \<open>Delivery reports\<close>

text \<open>The longest token of even length that is hex; among equals the first.\<close>

primrec best_token :: "byte list \<Rightarrow> string list \<Rightarrow> byte list" where
  "best_token best [] = best"
| "best_token best (tok # toks) =
     (if length tok = 0 \<or> length tok mod 2 \<noteq> 0 then best_token best toks
      else (case hex_decode tok of
          None \<Rightarrow> best_token best toks
        | Some b \<Rightarrow> best_token (if length b > length best then b else best) toks))"

definition show_hex2 :: "nat \<Rightarrow> string" where
  "show_hex2 n = (if n < 16 then CHR ''0'' # show_hex n else show_hex n)"

text \<open>\<open>None\<close> is a panic, after which the recovering function returns the empty string.\<close>

definition cds_status :: "byte list \<Rightarrow> string option" where
  "cds_status p = do {
     p0 \<leftarrow> go_at p 0;
     let i = 1 + unat p0;
     let i = i + 2;
     raLen \<leftarrow> map_option unat (go_at p i);
     let i = i + (1 + 1 + (raLen + 1) div 2);
     let i = i + (7 + 7);
     if i \<ge> length p then Some []
     else do {
       st \<leftarrow> go_at p i;
       Some (if st = 0 then ''TP-ST=0x00 DELIVERED''
             else if st < 0x20 then ''TP-ST=0x'' @ show_hex2 (unat st) @ '' IN TRANSIT''
             else ''TP-ST=0x'' @ show_hex2 (unat st) @ '' NOT DELIVERED'')
     }
   }"

definition decodeCDS :: "string \<Rightarrow> string" where
  "decodeCDS line =
     (let best = best_token [] (go_fields line) in
      if best = [] then [] else (case cds_status best of None \<Rightarrow> [] | Some s \<Rightarrow> s))"

section \<open>Submitting a PDU\<close>

definition set_srr :: "string \<Rightarrow> string" where
  "set_srr pduHex =
     (case hex_decode pduHex of
        None \<Rightarrow> pduHex
      | Some raw \<Rightarrow>
          if length raw > 1 \<and> 1 + unat (raw ! 0) < length raw
          then hex_encode (raw[1 + unat (raw ! 0) := raw ! (1 + unat (raw ! 0)) OR 0x20])
          else pduHex)"

text \<open>The part of \<^verbatim>\<open>sendPDU\<close> between opening and closing the port.\<close>

definition submit_on_port :: "'d device \<Rightarrow> string \<Rightarrow> int \<Rightarrow> bool \<Rightarrow> 'd atPort \<Rightarrow> (bool \<times> string) \<times> 'd atPort" where
  "submit_on_port dv pduHex tpduLen report p =
     (let (_, p) = port_cmd dv ''AT+CMEE=1'' (3 * second) p;
          (r, p) = port_cmd dv ''AT+CMGF=0'' (3 * second) p in
      if \<not> contains r ''OK'' then ((False, ''AT+CMGF=0 missing OK''), p)
      else
        let (pduHex, p) =
              (if report then (set_srr pduHex, snd (port_cmd dv ''AT+CNMI=2,1,0,1,0'' (3 * second) p))
               else (pduHex, p));
            p = port_write dv (''AT+CMGS='' @ show_int tpduLen @ [CHR 0x0D]) (drain dv p);
            (r, p) = waitFor dv [''>''] (3 * second) p in
        if \<not> contains r ''>'' then ((False, ''prompt '' @ [CHR 0x27] @ ''>'' @ [CHR 0x27] @ '' not received''), p)
        else
          let p = port_write dv (to_upper pduHex @ [CHR 0x1A]) (drain dv p);
              (r, p) = waitFor dv [''+CMGS'', ''ERROR'', ''+CMS''] (20 * second) p;
              resp = trim_space r;
              ok = contains resp ''+CMGS'' in
          if ok \<and> report then
            let (r, p) = waitFor dv [''+CDS''] (90 * second) (drain dv p);
                cds = trim_space r in
            if cds = [] then ((ok, resp @ '' | (+CDS not received)''), p)
            else
              let resp = resp @ '' | '' @ cds; v = decodeCDS cds in
              ((ok, if v \<noteq> [] then resp @ '' | '' @ v else resp), p)
          else ((ok, resp), p))"

text \<open>\<open>opened\<close> is the error of opening the node, if any; \<open>reader_ended\<close> whether the reader stopped in time.\<close>

definition sendPDU ::
    "string option \<Rightarrow> bool \<Rightarrow> 'd device \<Rightarrow> string \<Rightarrow> string \<Rightarrow> int \<Rightarrow> bool \<Rightarrow> 'd \<Rightarrow> (bool \<times> string) \<times> 'd atPort" where
  "sendPDU opened reader_ended dv devPath pduHex tpduLen report d =
     (case opened of
        Some e \<Rightarrow> ((False, ''open '' @ devPath @ '': '' @ e), fresh_port d)
      | None \<Rightarrow>
          let (res, p) = submit_on_port dv pduHex tpduLen report (fresh_port d)
          in (res, port_close reader_ended p))"

section \<open>Facts about the pieces\<close>

lemma and_push_bit_1: "(w :: 'a :: len word) AND push_bit n 1 \<noteq> 0 \<longleftrightarrow> bit w n"
  by (simp add: and_exp_eq_0_iff_not_bit)

lemma fd_index: "0 \<le> fd \<Longrightarrow> fd < maxFd (s :: ('a :: len) fdset) \<Longrightarrow> nat fd div LENGTH('a) < length s"
  by (rule less_mult_imp_div_less) (simp add: maxFd_def nat_less_iff)

lemma maxFd_update [simp]: "maxFd (s[i := w]) = maxFd s"
  by (simp add: maxFd_def)

lemma maxFd_simps [simp]: "maxFd (fdSet fd s) = maxFd s" "maxFd (fdZero s) = maxFd s"
  by (simp_all add: fdSet_def fdZero_def maxFd_def Let_def)

lemma fdIsSet_bit:
  "fdIsSet fd (s :: ('a :: len) fdset) \<longleftrightarrow>
     0 \<le> fd \<and> fd < maxFd s \<and> bit (s ! (nat fd div LENGTH('a))) (nat fd mod LENGTH('a))"
  unfolding fdIsSet_def Let_def and_push_bit_1 by auto

lemma fdIsSet_fdSet:
  "fdIsSet fd (fdSet fd' (s :: ('a :: len) fdset)) \<longleftrightarrow> fd = fd' \<and> 0 \<le> fd \<and> fd < maxFd s \<or> fdIsSet fd s"
proof (cases "0 \<le> fd \<and> fd < maxFd s \<and> 0 \<le> fd' \<and> fd' < maxFd s")
  case True
  let ?i = "nat fd div LENGTH('a)" and ?j = "nat fd' div LENGTH('a)"
  let ?m = "nat fd mod LENGTH('a)" and ?n = "nat fd' mod LENGTH('a)"
  have same: "?i = ?j \<and> ?m = ?n \<longleftrightarrow> fd = fd'"
    using True by (metis div_mult_mod_eq eq_nat_nat_iff)
  have "bit (push_bit ?n 1 :: 'a word) ?m \<longleftrightarrow> ?m = ?n"
    by (simp add: bit_exp_iff eq_commute)
  then show ?thesis
    using True same fd_index [of fd s] fd_index [of fd' s]
    by (auto simp: fdIsSet_bit fdSet_def Let_def nth_list_update bit_or_iff)
next
  case False
  then show ?thesis
    by (auto simp: fdIsSet_bit fdSet_def Let_def maxFd_def)
qed

lemma fdIsSet_fdZero: "\<not> fdIsSet fd (fdZero (s :: ('a :: len) fdset))"
  using fd_index [of fd s] by (auto simp: fdIsSet_bit fdZero_def maxFd_def)

lemma refresh_sent [simp]: "sent (refresh dv p) = sent p"
  by (simp add: refresh_def case_prod_beta)

lemma drain_sent [simp]: "sent (drain dv p) = sent p"
  by (simp add: drain_def)

lemma port_write_sent [simp]: "sent (port_write dv s p) = sent p @ [s]"
  by (simp add: port_write_def)

lemma wait_loop_sent: "sent (snd (wait_loop dv n tokens p)) = sent p"
  by (induction n arbitrary: p) (simp_all add: Let_def)

lemma waitFor_sent [simp]: "sent (snd (waitFor dv tokens wait p)) = sent p"
  by (simp add: waitFor_def wait_loop_sent)

lemma port_cmd_sent [simp]: "sent (snd (port_cmd dv s wait p)) = sent p @ [s @ [CHR 0x0D]]"
  by (simp add: port_cmd_def Let_def case_prod_beta)

text \<open>What never arrives is never seen in the buffer.\<close>

lemma wait_loop_without:
  assumes "\<forall>d. c \<notin> set (fst (arrive dv d))"
  shows "c \<notin> set (buf p) \<Longrightarrow> c \<notin> set (fst (wait_loop dv n tokens p))"
proof (induction n arbitrary: p)
  case (Suc n)
  then have "c \<notin> set (buf (refresh dv p))"
    using assms by (simp add: refresh_def case_prod_beta)
  with Suc.IH show ?case
    by (simp add: Let_def)
qed (use assms in \<open>simp add: refresh_def case_prod_beta Let_def\<close>)

lemma waitFor_without:
  assumes "\<forall>d. c \<notin> set (fst (arrive dv d))" and "buf p = []"
  shows "c \<notin> set (fst (waitFor dv tokens wait p))"
  using wait_loop_without [OF assms(1), of p] assms(2) by (simp add: waitFor_def)

lemma buf_write_drain [simp]: "buf (port_write dv s (drain dv p)) = []"
  by (simp add: port_write_def drain_def)

section \<open>Properties\<close>

text \<open>The descriptor sets: after \<^verbatim>\<open>fdSet\<close> exactly the descriptor set before and the new one are reported, a
  descriptor outside the array changes nothing and is never reported, and \<^verbatim>\<open>fdZero\<close> clears all; for
  every word width and array length.\<close>

theorem fdset_spec:
  "(fdIsSet fd (fdSet fd' (s :: ('a :: len) fdset)) \<longleftrightarrow> fd = fd' \<and> 0 \<le> fd \<and> fd < maxFd s \<or> fdIsSet fd s)
   \<and> \<not> fdIsSet fd (fdZero s)
   \<and> (fdIsSet fd s \<longrightarrow> 0 \<le> fd \<and> fd < maxFd s)"
  using fdIsSet_fdSet fdIsSet_fdZero fdIsSet_bit by blast

theorem fdset_spec_witness:
  "fdIsSet 1023 (fdSet 1023 (replicate 32 (0 :: 32 word))) \<and> \<not> fdIsSet 1024 (fdSet 1024 (replicate 32 (0 :: 32 word)))
   \<and> maxFd (replicate 32 (0 :: 32 word)) = 1024"
proof -
  have m: "maxFd (replicate 32 (0 :: 32 word)) = 1024"
    by (simp add: maxFd_def)
  show ?thesis
    using fdset_spec [of 1023 1023 "replicate 32 (0 :: 32 word)"]
      fdset_spec [of 1024 1024 "fdSet 1024 (replicate 32 (0 :: 32 word))"] m by simp
qed

text \<open>The turns in which select reports the descriptor readable, and the bytes they deliver.\<close>

definition selected :: "int \<Rightarrow> nat \<Rightarrow> ('a :: len) fdset turn \<Rightarrow> 'a fdset select_result" where
  "selected fd w t = select_gives t (fd + 1) (asked_set fd w)"

definition readable :: "int \<Rightarrow> nat \<Rightarrow> ('a :: len) fdset turn \<Rightarrow> bool" where
  "readable fd w t \<longleftrightarrow> (case selected fd w t of Selected n rfds \<Rightarrow> n \<noteq> 0 \<and> fdIsSet fd rfds | _ \<Rightarrow> False)"

definition delivered :: "('a :: len) fdset turn \<Rightarrow> byte list" where
  "delivered t = (case read_gives t of ReadBytes bs \<Rightarrow> bs | _ \<Rightarrow> [])"

definition goes_on :: "int \<Rightarrow> nat \<Rightarrow> ('a :: len) fdset turn \<Rightarrow> bool" where
  "goes_on fd w t \<longleftrightarrow> \<not> stop_seen t \<and> selected fd w t \<noteq> SelError \<and> \<not> (readable fd w t \<and> read_gives t = ReadError)"

fun reads_guarded :: "'s syscall list \<Rightarrow> bool" where
  "reads_guarded (Select _ _ # Read # cs) = reads_guarded cs"
| "reads_guarded (Select _ _ # cs) = reads_guarded cs"
| "reads_guarded (Read # cs) = False"
| "reads_guarded [] = True"

text \<open>A select waits for the descriptor and for no other.\<close>

fun waits_for :: "int \<Rightarrow> nat \<Rightarrow> ('a :: len) fdset syscall \<Rightarrow> bool" where
  "waits_for fd w (Select n s) \<longleftrightarrow>
     n = fd + 1 \<and> length s = w \<and> (\<forall>x. fdIsSet x s \<longleftrightarrow> x = fd \<and> 0 \<le> fd \<and> fd < maxFd s)"
| "waits_for fd w Read \<longleftrightarrow> True"

lemma waits_for_asked: "waits_for fd w (Select (fd + 1) (asked_set fd w :: ('a :: len) fdset))"
proof -
  have "length (asked_set fd w :: 'a fdset) = w"
    and "maxFd (asked_set fd w :: 'a fdset) = maxFd (fdZero (replicate w 0) :: 'a fdset)"
    by (simp_all add: asked_set_def Let_def fdSet_def fdZero_def maxFd_def)
  then show ?thesis
    by (auto simp: asked_set_def Let_def fdIsSet_fdSet fdIsSet_fdZero)
qed

lemma reader_step:
  "goes_on fd w t \<Longrightarrow> reader fd w (t # ts) b0 =
     (let (b, cs, e) = reader fd w ts (b0 @ (if readable fd w t then delivered t else []))
      in (b, (if readable fd w t then [Select (fd + 1) (asked_set fd w), Read] else [Select (fd + 1) (asked_set fd w)]) @ cs, e))"
  by (auto simp: goes_on_def readable_def selected_def delivered_def Let_def case_prod_beta
      split: select_result.splits read_result.splits)

lemma reader_stop:
  "\<not> goes_on fd w t \<Longrightarrow> \<exists>cs. reader fd w (t # ts) b0 = (b0, cs, True) \<and>
     (cs = [] \<or> cs = [Select (fd + 1) (asked_set fd w)] \<or> cs = [Select (fd + 1) (asked_set fd w), Read] \<and> readable fd w t)"
  by (auto simp: goes_on_def readable_def selected_def Let_def split: select_result.splits)

lemma reads_guarded_Select: "reads_guarded cs \<Longrightarrow> reads_guarded (Select n s # cs)"
  by (cases cs rule: reads_guarded.cases) auto

text \<open>C28: The reader never blocks in the driver: it reads only right after a select that waited for its descriptor
  alone and reported it readable, keeps every byte delivered in order until it ends, and ends when it sees
  the stop flag, an error of select other than an interruption, or a failed read, making no call afterwards.\<close>

theorem reader_spec:
  "let (b, cs, ended) = reader fd w ts buf0; run = takeWhile (goes_on fd w) ts in
   reads_guarded cs \<and> list_all (waits_for fd w) cs
   \<and> count_list cs Read \<le> length (filter (readable fd w) ts)
   \<and> length cs \<le> 2 * Suc (length run)
   \<and> b = buf0 @ concat (map delivered (filter (readable fd w) run))
   \<and> ended = (run \<noteq> ts)"
proof (induction ts arbitrary: buf0)
  case (Cons t ts)
  show ?case
  proof (cases "goes_on fd w t")
    case False
    then obtain cs where "reader fd w (t # ts) buf0 = (buf0, cs, True)"
        "cs = [] \<or> cs = [Select (fd + 1) (asked_set fd w)] \<or> cs = [Select (fd + 1) (asked_set fd w), Read] \<and> readable fd w t"
      using reader_stop by blast
    with False show ?thesis
      using waits_for_asked [of fd w] by (auto simp: Let_def simp del: waits_for.simps(1) reader.simps)
  next
    case True
    let ?buf = "buf0 @ (if readable fd w t then delivered t else [])"
    obtain b cs e where r: "reader fd w ts ?buf = (b, cs, e)"
      by (cases "reader fd w ts ?buf") auto
    have step: "reader fd w (t # ts) buf0 = (b, (if readable fd w t
        then [Select (fd + 1) (asked_set fd w), Read] else [Select (fd + 1) (asked_set fd w)]) @ cs, e)"
      by (simp only: reader_step [OF True] r prod.case Let_def)
    show ?thesis
      using Cons.IH [of ?buf] True waits_for_asked [of fd w] unfolding step r Let_def prod.case
      by (cases "readable fd w t") (simp_all add: reads_guarded_Select del: waits_for.simps(1))
  qed
qed simp

text \<open>The writes of a submission, in order.\<close>

definition port_plan :: "string \<Rightarrow> int \<Rightarrow> bool \<Rightarrow> string list" where
  "port_plan pduHex tpduLen report =
     [''AT+CMEE=1'' @ [CHR 0x0D], ''AT+CMGF=0'' @ [CHR 0x0D]]
     @ (if report then [''AT+CNMI=2,1,0,1,0'' @ [CHR 0x0D]] else [])
     @ [''AT+CMGS='' @ show_int tpduLen @ [CHR 0x0D],
        to_upper (if report then set_srr pduHex else pduHex) @ [CHR 0x1A]]"

lemma contains_append_right: "contains a t \<Longrightarrow> contains (a @ b) t"
  using contains_mono [of a t "[]" b] by simp

lemma contains_single: "contains s [c] \<longleftrightarrow> c \<in> set s"
  by (auto simp: contains_def sublist_def dest: split_list)

lemma submit_on_port_run:
  "let ((ok, info), p) = submit_on_port dv pduHex tpduLen report (fresh_port d);
       plan = port_plan pduHex tpduLen report in
   prefix (sent p) plan
   \<and> (ok \<longrightarrow> sent p = plan \<and> contains info ''+CMGS'')
   \<and> ((\<forall>d. CHR ''>'' \<notin> set (fst (arrive dv d))) \<longrightarrow> \<not> ok \<and> length (sent p) < length plan)"
proof -
  obtain r0 p0 where c0: "port_cmd dv ''AT+CMEE=1'' (3 * second) (fresh_port d) = (r0, p0)"
    by fastforce
  obtain r1 p1 where c1: "port_cmd dv ''AT+CMGF=0'' (3 * second) p0 = (r1, p1)"
    by fastforce
  let ?p2 = "if report then snd (port_cmd dv ''AT+CNMI=2,1,0,1,0'' (3 * second) p1) else p1"
  let ?p3 = "port_write dv (''AT+CMGS='' @ show_int tpduLen @ [CHR 0x0D]) (drain dv ?p2)"
  obtain r4 p4 where c4: "waitFor dv [''>''] (3 * second) ?p3 = (r4, p4)"
    by fastforce
  let ?pdu = "if report then set_srr pduHex else pduHex"
  let ?p5 = "port_write dv (to_upper ?pdu @ [CHR 0x1A]) (drain dv p4)"
  obtain r6 p6 where c6: "waitFor dv [''+CMGS'', ''ERROR'', ''+CMS''] (20 * second) ?p5 = (r6, p6)"
    by fastforce
  obtain r7 p7 where c7: "waitFor dv [''+CDS''] (90 * second) (drain dv p6) = (r7, p7)"
    by fastforce
  let ?plan = "port_plan pduHex tpduLen report"
  have s0: "sent p0 = [''AT+CMEE=1'' @ [CHR 0x0D]]"
    using port_cmd_sent [of dv "''AT+CMEE=1''" "3 * second" "fresh_port d"]
    unfolding c0 by (simp add: fresh_port_def)
  have s1: "sent p1 = [''AT+CMEE=1'' @ [CHR 0x0D], ''AT+CMGF=0'' @ [CHR 0x0D]]"
    using port_cmd_sent [of dv "''AT+CMGF=0''" "3 * second" p0] unfolding c1 by (simp add: s0)
  have s4: "sent p4 = butlast ?plan"
    using waitFor_sent [of dv "[''>'']" "3 * second" ?p3] unfolding c4 by (simp add: s1 port_plan_def)
  have s6: "sent p6 = ?plan"
    using waitFor_sent [of dv "[''+CMGS'', ''ERROR'', ''+CMS'']" "20 * second" ?p5] unfolding c6
    by (simp add: s4 port_plan_def)
  have s7: "sent p7 = ?plan"
    using waitFor_sent [of dv "[''+CDS'']" "90 * second" "drain dv p6"] unfolding c7 by (simp add: s6)
  note run = submit_on_port_def c0 c1 c4 c6 c7 Let_def prod.case snd_conv
  show ?thesis
  proof (cases "contains r1 ''OK''")
    case False
    have "submit_on_port dv pduHex tpduLen report (fresh_port d) = ((False, ''AT+CMGF=0 missing OK''), p1)"
      by (simp only: run False not_False_eq_True if_True)
    with s1 show ?thesis
      by (simp add: port_plan_def)
  next
    case True
    note mode = True
    show ?thesis
    proof (cases "contains r4 ''>''")
      case False
      have "submit_on_port dv pduHex tpduLen report (fresh_port d) =
          ((False, ''prompt '' @ [CHR 0x27] @ ''>'' @ [CHR 0x27] @ '' not received''), p4)"
      proof -
        have "(if report then (set_srr pduHex, snd (port_cmd dv ''AT+CNMI=2,1,0,1,0'' (3 * second) p1))
            else (pduHex, p1)) = (?pdu, ?p2)"
          by simp
        then show ?thesis
          by (simp only: run mode False not_False_eq_True not_True_eq_False if_True if_False)
      qed
      moreover have "prefix (butlast ?plan) ?plan" and "length (butlast ?plan) < length ?plan"
        using prefixI [of ?plan "butlast ?plan" "[last ?plan]"] by (simp_all add: port_plan_def)
      ultimately show ?thesis
        by (simp add: s4 Let_def)
    next
      case True
      have prompted: "\<not> (\<forall>d. CHR ''>'' \<notin> set (fst (arrive dv d)))"
      proof
        assume "\<forall>d. CHR ''>'' \<notin> set (fst (arrive dv d))"
        then have "CHR ''>'' \<notin> set (fst (waitFor dv [''>''] (3 * second) ?p3))"
          by (rule waitFor_without) (rule buf_write_drain)
        with True show False
          unfolding c4 contains_single by simp
      qed
      have "\<exists>ok info p. submit_on_port dv pduHex tpduLen report (fresh_port d) = ((ok, info), p)
          \<and> sent p = ?plan \<and> (ok \<longrightarrow> contains info ''+CMGS'')"
      proof -
        have "(if report then (set_srr pduHex, snd (port_cmd dv ''AT+CNMI=2,1,0,1,0'' (3 * second) p1))
            else (pduHex, p1)) = (?pdu, ?p2)"
          by simp
        then show ?thesis
          using s6 s7
          by (simp only: run mode True not_False_eq_True not_True_eq_False if_True if_False)
            (auto simp: contains_append_right)
      qed
      with prompted show ?thesis
        by (auto simp: Let_def)
    qed
  qed
qed

text \<open>C10: A submission over the device node, whatever the device does: the writes are the mode commands, the
  submission command, and the PDU with its terminator, in this order and cut off where a step
  failed; success is reported only when all were written and the response has \<open>+CMGS\<close>; without a
  prompt character from the device the PDU is never written.\<close>

theorem submit_on_port_protocol:
  "let ((ok, info), p) = submit_on_port dv pduHex tpduLen report (fresh_port d);
       plan = port_plan pduHex tpduLen report in
   (if ok then sent p = plan \<and> contains info ''+CMGS'' else prefix (sent p) plan)
   \<and> (length (sent p) < length plan \<or> (\<exists>d. CHR ''>'' \<in> set (fst (arrive dv d))))"
  using submit_on_port_run [of dv pduHex tpduLen report d] by (auto simp: Let_def split: prod.splits)

text \<open>Writing the terminator hands the PDU to the modem; a submission does so at most once.\<close>

definition submits :: "string \<Rightarrow> bool" where
  "submits w \<longleftrightarrow> w \<noteq> [] \<and> last w = CHR 0x1A"

lemma port_plan_submits: "length (filter submits (port_plan p n report)) = 1"
  by (simp add: port_plan_def submits_def)

lemma submit_on_port_plan:
  assumes "submit_on_port dv p n report (fresh_port d) = ((ok, info), port)"
  shows "prefix (sent port) (port_plan p n report)" and "ok \<Longrightarrow> sent port = port_plan p n report"
  using submit_on_port_run [of dv p n report d] unfolding assms by (simp_all add: Let_def)

lemma sendPDU_submits:
  assumes "sendPDU opened ended dv path p n report d = ((ok, info), port)"
  shows "length (filter submits (sent port)) \<le> 1" and "ok \<Longrightarrow> length (filter submits (sent port)) = 1"
proof -
  obtain ok' info' port' where run: "submit_on_port dv p n report (fresh_port d) = ((ok', info'), port')"
    by (metis prod.exhaust)
  have "prefix (filter submits (sent port')) (filter submits (port_plan p n report))"
    by (rule filter_mono_prefix) (rule submit_on_port_plan(1) [OF run])
  then have le: "length (filter submits (sent port')) \<le> 1"
    using prefix_length_le port_plan_submits by metis
  have eq: "length (filter submits (sent port')) = 1" if ok'
    using submit_on_port_plan(2) [OF run that] port_plan_submits by simp
  have "opened = None \<Longrightarrow> ok = ok' \<and> sent port = sent port'"
    using assms run by (simp add: sendPDU_def port_close_def Let_def) auto
  moreover have "opened \<noteq> None \<Longrightarrow> \<not> ok \<and> sent port = []"
    using assms by (auto simp: sendPDU_def fresh_port_def)
  ultimately show "length (filter submits (sent port)) \<le> 1"
    and "ok \<Longrightarrow> length (filter submits (sent port)) = 1"
    using le eq by (cases opened; simp)+
qed

text \<open>Asking for a delivery report changes one bit of the PDU: of a well-formed PDU, the TP-SRR bit of the
  first octet, wherever the SMSC header ends. The destination, the length and all else stay.\<close>

theorem set_srr_submit:
  assumes "submit_ok m"
  shows "set_srr (hex_encode (submit_bytes m)) =
    hex_encode (submit_bytes (m\<lparr>first_octet := first_octet m OR 0x20\<rparr>))"
proof -
  let ?h = "of_nat (length (smsc m)) # smsc m"
  let ?r = "msg_ref m # of_nat (length (dest m)) # ton_npi m # semi_octets (dest m)
      @ [proto_id m, coding m] @ user_data m"
  have raw: "submit_bytes m = ?h @ first_octet m # ?r"
    by (simp add: submit_bytes_def tpdu_def)
  have k: "unat (submit_bytes m ! 0) = length (smsc m)"
    using assms by (simp add: submit_bytes_def submit_ok_def unat_of_nat)
  have len: "1 < length (submit_bytes m)" "1 + length (smsc m) < length (submit_bytes m)"
    by (simp_all add: raw)
  have "(?h @ first_octet m # ?r)[1 + length (smsc m) := (?h @ first_octet m # ?r) ! (1 + length (smsc m)) OR 0x20]
      = ?h @ (first_octet m OR 0x20) # ?r"
    by (simp add: list_update_append nth_append)
  then show ?thesis
    using len unfolding set_srr_def hex_decode_encode option.case k
    by (simp add: raw) (simp add: submit_bytes_def tpdu_def)
qed

theorem set_srr_submit_witness:
  "submit_ok test_submit \<and> set_srr (hex_encode (submit_bytes test_submit)) = ''0021000c9183902143658700000141''"
proof -
  have ok: "submit_ok test_submit"
    by (simp add: submit_ok_def test_submit_def)
  have "hex_encode (submit_bytes (test_submit\<lparr>first_octet := first_octet test_submit OR 0x20\<rparr>))
      = ''0021000c9183902143658700000141''"
    by code_simp
  with ok set_srr_submit [OF ok] show ?thesis
    by simp
qed

text \<open>A status report as 3GPP TS 23.040 lays it out: recipient address, two time stamps, status.\<close>

record status_report =
  sr_smsc :: "byte list"
  sr_first :: byte
  sr_mr :: byte
  sr_ton :: byte
  sr_addr :: "nat list"
  sr_times :: "byte list"
  sr_status :: byte
  sr_rest :: "byte list"

definition report_bytes :: "status_report \<Rightarrow> byte list" where
  "report_bytes r = of_nat (length (sr_smsc r)) # sr_smsc r
     @ [sr_first r, sr_mr r, of_nat (length (sr_addr r)), sr_ton r]
     @ semi_octets (sr_addr r) @ sr_times r @ sr_status r # sr_rest r"

definition status_text :: "byte \<Rightarrow> string" where
  "status_text st =
     (if st = 0 then ''TP-ST=0x00 DELIVERED''
      else if st < 0x20 then ''TP-ST=0x'' @ show_hex2 (unat st) @ '' IN TRANSIT''
      else ''TP-ST=0x'' @ show_hex2 (unat st) @ '' NOT DELIVERED'')"

lemma cds_status_report:
  assumes "length (sr_smsc r) < 256" and "length (sr_addr r) < 256" and "length (sr_times r) = 14"
  shows "cds_status (report_bytes r) = Some (status_text (sr_status r))"
proof -
  let ?k = "length (sr_smsc r)" and ?n = "length (sr_addr r)"
  let ?p = "report_bytes r"
  have k: "unat (of_nat ?k :: byte) = ?k" and n: "unat (of_nat ?n :: byte) = ?n"
    using assms by (auto simp: unat_of_nat)
  have p: "?p = (of_nat ?k # sr_smsc r @ [sr_first r, sr_mr r, of_nat ?n, sr_ton r]
      @ semi_octets (sr_addr r) @ sr_times r) @ sr_status r # sr_rest r"
    by (simp add: report_bytes_def)
  have "go_at ?p 0 = Some (of_nat ?k)" and "go_at ?p (?k + 3) = Some (of_nat ?n)"
    by (auto simp: p go_at_def nth_append nth_Cons')
  moreover have "length (of_nat ?k # sr_smsc r @ [sr_first r, sr_mr r, of_nat ?n, sr_ton r]
      @ semi_octets (sr_addr r) @ sr_times r) = ?k + 3 + (2 + (?n + 1) div 2) + 14"
    using assms(3) by simp
  then have "go_at ?p (?k + 3 + (2 + (?n + 1) div 2) + 14) = Some (sr_status r)"
    and "\<not> length ?p \<le> ?k + 3 + (2 + (?n + 1) div 2) + 14"
    unfolding p by (simp_all add: go_at_def nth_append)
  moreover have "1 + ?k + 2 = ?k + 3" and "1 + 1 + (?n + 1) div 2 = 2 + (?n + 1) div 2" and "7 + 7 = (14 :: nat)"
    by simp_all
  ultimately show ?thesis
    unfolding cds_status_def Let_def status_text_def
    by (simp only: k n option.map bind.bind_lunit if_False)
qed

lemma best_token_short:
  "list_all (\<lambda>t. length t \<le> 2 * length best) toks \<Longrightarrow> best_token best toks = best"
  by (induction toks) (auto split: option.splits dest: hex_decode_length)

lemma best_token_longest:
  assumes "list_all (\<lambda>t. length t < 2 * length p) pre" and "list_all (\<lambda>t. length t \<le> 2 * length p) post"
    and "length best < length p"
  shows "best_token best (pre @ hex_encode p # post) = p"
  using assms(1,3)
proof (induction pre arbitrary: best)
  case Nil
  with assms(2) show ?case
    by (auto simp: best_token_short)
next
  case (Cons t pre)
  then show ?case
    by (auto split: option.splits dest: hex_decode_length)
qed

text \<open>C29: \<^verbatim>\<open>decodeCDS\<close> finds the status in the lines of a \<open>+CDS\<close> notification: when the report is the longest
  token, whatever surrounds it, its status octet is reported in the three classes.\<close>

theorem decodeCDS_report:
  assumes "go_fields line = pre @ hex_encode (report_bytes r) # post"
    and "list_all (\<lambda>t. length t < 2 * length (report_bytes r)) (pre @ post)"
    and "length (sr_smsc r) < 256" and "length (sr_addr r) < 256" and "length (sr_times r) = 14"
  shows "decodeCDS line = status_text (sr_status r)"
proof -
  have "report_bytes r \<noteq> []"
    by (simp add: report_bytes_def)
  moreover have "best_token [] (go_fields line) = report_bytes r"
    unfolding assms(1)
  proof (rule best_token_longest)
    show "list_all (\<lambda>t. length t < 2 * length (report_bytes r)) pre"
      using assms(2) by simp
    show "list_all (\<lambda>t. length t \<le> 2 * length (report_bytes r)) post"
      using assms(2) by (auto simp: list_all_iff intro: less_imp_le)
    show "length [] < length (report_bytes r)"
      by (simp add: report_bytes_def)
  qed
  ultimately show ?thesis
    using cds_status_report [OF assms(3-5)] by (simp add: decodeCDS_def Let_def)
qed

definition test_report :: status_report where
  "test_report = \<lparr>sr_smsc = [], sr_first = 0x06, sr_mr = 1, sr_ton = 0x91, sr_addr = [3, 8, 0, 9],
     sr_times = replicate 14 0x11, sr_status = 0, sr_rest = []\<rparr>"

theorem decodeCDS_report_witness:
  "decodeCDS (''+CDS: 22'' @ [CHR 0x0D, CHR 0x0A] @ hex_encode (report_bytes test_report)) = ''TP-ST=0x00 DELIVERED''"
proof -
  have "go_fields (''+CDS: 22'' @ [CHR 0x0D, CHR 0x0A] @ hex_encode (report_bytes test_report))
      = [''+CDS:'', ''22''] @ hex_encode (report_bytes test_report) # []"
    and "list_all (\<lambda>t. length t < 2 * length (report_bytes test_report)) ([''+CDS:'', ''22''] @ [])"
    and "status_text (sr_status test_report) = ''TP-ST=0x00 DELIVERED''"
    by code_simp+
  then show ?thesis
    using decodeCDS_report [of _ "[''+CDS:'', ''22'']" test_report "[]"] by (simp add: test_report_def)
qed

end
