(* ===== verification/Send_Worker.thy ===== *)
theory Send_Worker
  imports Relay_State At_Server At_Port
begin

text \<open>
  The send worker (\<^verbatim>\<open>sendWorker\<close>, \<^verbatim>\<open>main.go\<close>): the check of the backoff, one submission over the chosen
  transport, the log record and the update of the failure state. What a transport promises to the
  worker is the interface \<open>transport\<close>; atserver, the device node and the choice between them satisfy it.
\<close>

section \<open>The steps of a worker\<close>

text \<open>\<^verbatim>\<open>Duration.String\<close> of a duration truncated to whole seconds.\<close>

definition show_seconds :: "int \<Rightarrow> string" where
  "show_seconds d =
     (let n = nat (d div second); h = n div 3600; m = n div 60 mod 60; s = n mod 60 in
      if h > 0 then show_nat h @ ''h'' @ show_nat m @ ''m'' @ show_nat s @ ''s''
      else if m > 0 then show_nat m @ ''m'' @ show_nat s @ ''s''
      else show_nat s @ ''s'')"

definition emit :: "log_record \<Rightarrow> string \<Rightarrow> string \<Rightarrow> relay \<Rightarrow> relay" where
  "emit base res line st =
     logJSON (AList.update ''at'' (JStr line) (AList.update ''result'' (JStr res) base)) st"

definition in_backoff :: "int \<Rightarrow> health \<Rightarrow> bool" where
  "in_backoff now h \<longleftrightarrow> (case backoffUntil h of None \<Rightarrow> False | Some u \<Rightarrow> now < u)"

text \<open>The first part: \<open>False\<close> and a log record while the backoff lasts.\<close>

definition worker_check :: "int \<Rightarrow> job \<Rightarrow> relay \<Rightarrow> bool \<times> relay" where
  "worker_check now j st =
     (case backoffUntil (hlth st) of
        None \<Rightarrow> (True, st)
      | Some until \<Rightarrow>
          if now < until
          then (False, emit (job_base j) ''backoff''
                 (''backoff for another '' @ show_seconds (until - now) @ '' (''
                  @ show_int (consecFails (hlth st)) @ '' consecutive failures)'') st)
          else (True, st))"

definition record_result :: "int \<Rightarrow> bool \<Rightarrow> health \<Rightarrow> health" where
  "record_result now ok h =
     (if ok then h\<lparr>consecFails := 0, backoffUntil := None\<rparr>
      else let h = h\<lparr>consecFails := consecFails h + 1\<rparr>; d = backoffFor (consecFails h)
           in if d > 0 then h\<lparr>backoffUntil := Some (now + d)\<rparr> else h)"

text \<open>The last part, after the transport has answered.\<close>

definition worker_log :: "string \<Rightarrow> bool \<Rightarrow> string \<Rightarrow> job \<Rightarrow> relay \<Rightarrow> relay" where
  "worker_log tr ok info j st =
     (let line = replace_all (replace_all info (CHR 0x0D) '' '') (CHR 0x0A) '' | '';
          res = ifStr ok ''sent'' ''send-failed''
      in emit (AList.update ''transport'' (JStr tr) (job_base j)) res line st)"

definition worker_record :: "int \<Rightarrow> bool \<Rightarrow> relay \<Rightarrow> relay" where
  "worker_record now ok st = st\<lparr>hlth := record_result now ok (hlth st)\<rparr>"

definition worker_done :: "int \<Rightarrow> string \<Rightarrow> bool \<Rightarrow> string \<Rightarrow> job \<Rightarrow> relay \<Rightarrow> relay" where
  "worker_done now tr ok info j st = worker_record now ok (worker_log tr ok info j st)"

text \<open>
  The whole worker: \<open>pick\<close> is \<^verbatim>\<open>pickTransport\<close> in the present state of the world, \<open>send\<close> the submission
  over the named transport, \<open>t0\<close> and \<open>t1\<close> the instants of the check and of the answer.
\<close>

definition sendWorker ::
    "('w \<Rightarrow> string) \<Rightarrow> (string \<Rightarrow> string \<Rightarrow> int \<Rightarrow> 'w \<Rightarrow> (bool \<times> string) \<times> 'w) \<Rightarrow> int \<Rightarrow> int \<Rightarrow> job
      \<Rightarrow> relay \<times> 'w \<Rightarrow> relay \<times> 'w" where
  "sendWorker pick send t0 t1 j =
     (\<lambda>(st, w).
        let (go, st) = worker_check t0 j st in
        if \<not> go then (st, w)
        else let tr = pick w; ((ok, info), w) = send tr (job_pdu j) (job_len j) w
             in (worker_done t1 tr ok info j st, w))"

text \<open>
  Workers one after another. The code starts a goroutine per job, so this is one of the schedules of
  \<open>Worker_System\<close> (\<open>run_workers_schedule\<close> in \<open>Backoff_System\<close>), the one for which the backoff is made.
\<close>

fun run_workers ::
    "('w \<Rightarrow> string) \<Rightarrow> (string \<Rightarrow> string \<Rightarrow> int \<Rightarrow> 'w \<Rightarrow> (bool \<times> string) \<times> 'w) \<Rightarrow> (int \<times> int \<times> job) list
      \<Rightarrow> relay \<times> 'w \<Rightarrow> relay \<times> 'w" where
  "run_workers pick send [] s = s"
| "run_workers pick send ((t0, t1, j) # js) s = run_workers pick send js (sendWorker pick send t0 t1 j s)"

lemma worker_check_iff: "fst (worker_check now j st) \<longleftrightarrow> \<not> in_backoff now (hlth st)"
  by (simp add: worker_check_def in_backoff_def split: option.splits)

lemma worker_check_frame [simp]:
  "hlth (snd (worker_check now j st)) = hlth st" "ddp (snd (worker_check now j st)) = ddp st"
  "jobs (snd (worker_check now j st)) = jobs st"
  by (simp_all add: worker_check_def emit_def split: option.splits)

lemma worker_done_frame [simp]:
  "hlth (worker_done now tr ok info j st) = record_result now ok (hlth st)"
  "ddp (worker_done now tr ok info j st) = ddp st" "jobs (worker_done now tr ok info j st) = jobs st"
  by (simp_all add: worker_done_def worker_log_def worker_record_def emit_def Let_def)

section \<open>The records a worker writes\<close>

definition sent_records :: "relay \<Rightarrow> nat" where
  "sent_records st = length (filter (\<lambda>r. result_of r = Some (JStr ''sent'')) (logs st))"

lemma emit_logs:
  "\<exists>r. logs (emit base res line st) = logs st @ [r] \<and> result_of r = Some (JStr res)"
  by (simp add: emit_def result_of_def update_conv)

lemma worker_check_logs:
  "worker_check now j st = (True, st') \<Longrightarrow> st' = st"
  "worker_check now j st = (False, st') \<Longrightarrow>
     \<exists>r. logs st' = logs st @ [r] \<and> result_of r = Some (JStr ''backoff'')"
  using emit_logs [of "job_base j" "''backoff''" _ st]
  by (auto simp: worker_check_def split: option.splits if_splits)

lemma worker_done_logs:
  "\<exists>r. logs (worker_done now tr ok info j st) = logs st @ [r]
     \<and> result_of r = Some (JStr (if ok then ''sent'' else ''send-failed''))"
  using emit_logs [of "AList.update ''transport'' (JStr tr) (job_base j)" _ _ st]
  by (simp add: worker_done_def worker_log_def worker_record_def ifStr_def Let_def)

text \<open>The two ways a worker ends.\<close>

lemma sendWorker_cases:
  assumes "sendWorker pick send t0 t1 j (st, w) = (st', w')"
  obtains (backoff) r where "in_backoff t0 (hlth st)" "w' = w" "hlth st' = hlth st"
      "logs st' = logs st @ [r]" "result_of r = Some (JStr ''backoff'')"
    | (attempt) ok info r where "\<not> in_backoff t0 (hlth st)"
      "send (pick w) (job_pdu j) (job_len j) w = ((ok, info), w')"
      "hlth st' = record_result t1 ok (hlth st)" "logs st' = logs st @ [r]"
      "result_of r = Some (JStr (if ok then ''sent'' else ''send-failed''))"
proof (cases "fst (worker_check t0 j st)")
  case False
  then obtain st1 where c: "worker_check t0 j st = (False, st1)"
    by (cases "worker_check t0 j st") auto
  with assms have "st' = st1" "w' = w"
    by (auto simp: sendWorker_def)
  moreover obtain r where "logs st1 = logs st @ [r]" "result_of r = Some (JStr ''backoff'')"
    using worker_check_logs(2) [OF c] by blast
  moreover have "hlth st1 = hlth st" and "in_backoff t0 (hlth st)"
    using c worker_check_frame(1) [of t0 j st] worker_check_iff [of t0 j st] by simp_all
  ultimately show ?thesis
    using backoff by simp
next
  case True
  then have c: "worker_check t0 j st = (True, st)"
    using worker_check_logs(1) by (cases "worker_check t0 j st") auto
  obtain ok info w1 where s: "send (pick w) (job_pdu j) (job_len j) w = ((ok, info), w1)"
    by (metis prod.exhaust)
  from assms c s have "st' = worker_done t1 (pick w) ok info j st" and "w' = w1"
    by (auto simp: sendWorker_def Let_def)
  with True s worker_done_logs [of t1 "pick w" ok info j st] show ?thesis
    using attempt by (auto simp: worker_check_iff)
qed

text \<open>Workers that do not overlap in time, and the end of the last one.\<close>

definition sequential :: "(int \<times> int \<times> job) list \<Rightarrow> bool" where
  "sequential js \<longleftrightarrow> sorted (concat (map (\<lambda>(t0, t1, j). [t0, t1]) js))"

fun end_time :: "int \<Rightarrow> (int \<times> int \<times> job) list \<Rightarrow> int" where
  "end_time t [] = t"
| "end_time t ((t0, t1, j) # js) = end_time t1 js"

lemma sequential_Cons:
  "sequential ((t0, t1, j) # js) \<longleftrightarrow>
     t0 \<le> t1 \<and> (\<forall>(s0, s1, i) \<in> set js. t1 \<le> s0 \<and> t1 \<le> s1) \<and> sequential js"
  by (fastforce simp: sequential_def)

lemma end_time_mono:
  "\<forall>(s0, s1, i) \<in> set js. t \<le> s0 \<and> t \<le> s1 \<Longrightarrow> t' \<le> t \<Longrightarrow> end_time t' js \<le> end_time t js"
  by (cases js) auto

text \<open>The failure state after \<open>k\<close> failures in a row, the last at \<open>t\<close>.\<close>

definition after_fails :: "int \<Rightarrow> nat \<Rightarrow> health \<Rightarrow> bool" where
  "after_fails t k h \<longleftrightarrow> consecFails h = int k \<and>
     backoffUntil h = (if k < 3 then None else Some (t + backoffFor (int k)))"

lemma backoffFor_pos: "0 < backoffFor n \<longleftrightarrow> 3 \<le> n"
  by (simp add: backoffFor_closed)

lemma after_fails_step: "after_fails t k h \<Longrightarrow> after_fails t' (Suc k) (record_result t' False h)"
  using backoffFor_pos [of "int k + 1"]
  by (auto simp: after_fails_def record_result_def Let_def add.commute)

lemma after_fails_wait:
  assumes "after_fails t k h" and "\<not> in_backoff now h" and "t \<le> now"
  shows "t + backoffFor (int k) \<le> now"
proof (cases "k < 3")
  case True
  with assms(3) show ?thesis
    by (simp add: backoffFor_closed)
next
  case False
  with assms show ?thesis
    by (auto simp: after_fails_def in_backoff_def)
qed

section \<open>What a transport promises\<close>

text \<open>
  A send hands the PDU to the modem at most once, and a send that reports success has done so. The
  workers' lemmas rest on these two laws alone.
\<close>

locale transport =
  fixes send :: "string \<Rightarrow> string \<Rightarrow> int \<Rightarrow> 'w \<Rightarrow> (bool \<times> string) \<times> 'w"
    and submissions :: "'w \<Rightarrow> nat"
  assumes at_most_one: "send tr p n w = ((ok, info), w') \<Longrightarrow>
      submissions w \<le> submissions w' \<and> submissions w' \<le> Suc (submissions w)"
    and confirmed: "send tr p n w = ((True, info), w') \<Longrightarrow> submissions w' = Suc (submissions w)"
begin

text \<open>Each worker writes one record and submits at most once; every \<open>sent\<close> record is a submission.\<close>

lemma worker_submits:
  assumes "sendWorker pick send t0 t1 j (st, w) = (st', w')"
  shows "length (logs st') = Suc (length (logs st)) \<and> sent_records st \<le> sent_records st'
    \<and> sent_records st' - sent_records st \<le> submissions w' - submissions w
    \<and> submissions w \<le> submissions w' \<and> submissions w' \<le> Suc (submissions w)
    \<and> (in_backoff t0 (hlth st) \<longrightarrow> w' = w)"
  using assms
proof (cases rule: sendWorker_cases)
  case (attempt ok info r)
  have "submissions w \<le> submissions w'" "submissions w' \<le> Suc (submissions w)"
    and "ok \<Longrightarrow> submissions w' = Suc (submissions w)"
    using at_most_one attempt(2) confirmed [of "pick w" "job_pdu j" "job_len j" w info w'] by auto
  with attempt show ?thesis
    by (auto simp: sent_records_def)
qed (auto simp: sent_records_def)

lemma run_submits:
  "run_workers pick send js (st, w) = (st', w') \<Longrightarrow>
     length (logs st') = length (logs st) + length js
     \<and> sent_records st \<le> sent_records st' \<and> submissions w \<le> submissions w'
     \<and> sent_records st' - sent_records st \<le> submissions w' - submissions w
     \<and> submissions w' - submissions w \<le> length js"
proof (induction js arbitrary: st w)
  case (Cons a js)
  obtain t0 t1 j where a: "a = (t0, t1, j)"
    by (cases a) auto
  obtain st1 w1 where s: "sendWorker pick send t0 t1 j (st, w) = (st1, w1)"
    by fastforce
  with Cons.prems a have "run_workers pick send js (st1, w1) = (st', w')"
    by simp
  from Cons.IH [OF this] worker_submits [OF s] a show ?case
    by auto
qed simp

text \<open>While no send succeeds, the waiting times of the policy lie between the attempts.\<close>

lemma failing_run:
  assumes "run_workers pick send js (st, w) = (st', w')" and "sequential js"
    and "\<forall>(s0, s1, i) \<in> set js. t \<le> s0 \<and> t \<le> s1" and "after_fails t k (hlth st)"
    and "sent_records st' = sent_records st"
  shows "\<exists>m. submissions w' \<le> submissions w + m \<and>
     t + (\<Sum>i\<in>{k..<k + m}. backoffFor (int i)) \<le> end_time t js"
  using assms
proof (induction js arbitrary: st w t k)
  case Nil
  then have "submissions w' \<le> submissions w + 0"
    by simp
  then show ?case
    by (intro exI [of _ 0]) simp
next
  case (Cons a js)
  obtain t0 t1 j where a: "a = (t0, t1, j)"
    by (cases a) auto
  obtain st1 w1 where s: "sendWorker pick send t0 t1 j (st, w) = (st1, w1)"
    by fastforce
  with Cons.prems(1) a have run: "run_workers pick send js (st1, w1) = (st', w')"
    by simp
  have seq: "sequential js" "t0 \<le> t1" and later: "\<forall>(s0, s1, i) \<in> set js. t1 \<le> s0 \<and> t1 \<le> s1"
    and t: "t \<le> t0" "t \<le> t1"
    using Cons.prems(2,3) by (auto simp: a sequential_Cons)
  have sr: "sent_records st1 = sent_records st" "sent_records st' = sent_records st1"
    using worker_submits [OF s] run_submits [OF run] Cons.prems(5) by auto
  from s show ?case
  proof (cases rule: sendWorker_cases)
    case (backoff r)
    have "\<forall>(s0, s1, i) \<in> set js. t \<le> s0 \<and> t \<le> s1"
      using later t(2) by fastforce
    from Cons.IH [OF run seq(1) this _ sr(2)] Cons.prems(4) backoff
    obtain m where "submissions w' \<le> submissions w + m"
        "t + (\<Sum>i\<in>{k..<k + m}. backoffFor (int i)) \<le> end_time t js"
      by auto
    moreover have "end_time t js \<le> end_time t1 js"
      using end_time_mono [OF later t(2)] .
    ultimately show ?thesis
      by (auto simp: a)
  next
    case (attempt ok info r)
    have "\<not> ok"
      using attempt sr(1) by (auto simp: sent_records_def)
    with attempt Cons.prems(4) have "after_fails t1 (Suc k) (hlth st1)"
      using after_fails_step by auto
    from Cons.IH [OF run seq(1) later this sr(2)]
    obtain m where m: "submissions w' \<le> submissions w1 + m"
        "t1 + (\<Sum>i\<in>{Suc k..<Suc k + m}. backoffFor (int i)) \<le> end_time t1 js"
      by blast
    have "t + backoffFor (int k) \<le> t0"
      using after_fails_wait [OF Cons.prems(4) attempt(1) t(1)] .
    moreover have "(\<Sum>i\<in>{k..<k + Suc m}. backoffFor (int i))
        = backoffFor (int k) + (\<Sum>i\<in>{Suc k..<Suc k + m}. backoffFor (int i))"
      by (simp add: sum.atLeast_Suc_lessThan)
    ultimately have "t + (\<Sum>i\<in>{k..<k + Suc m}. backoffFor (int i)) \<le> end_time t ((t0, t1, j) # js)"
      using m(2) seq(2) by simp
    moreover have "submissions w' \<le> submissions w + Suc m"
      using m(1) worker_submits [OF s] by simp
    ultimately show ?thesis
      unfolding a by blast
  qed
qed

lemma failing_rate:
  assumes "run_workers pick send js (st, w) = (st', w')" and "sequential js"
    and "\<forall>(s0, s1, i) \<in> set js. t \<le> s0 \<and> t \<le> s1"
    and "consecFails (hlth st) = 0" and "backoffUntil (hlth st) = None"
    and "sent_records st' = sent_records st"
  shows "int (submissions w' - submissions w) \<le> 8 + (end_time t js - t) div (2 * hour)"
proof -
  have "after_fails t 0 (hlth st)"
    using assms(4,5) by (simp add: after_fails_def)
  from failing_run [OF assms(1-3) this assms(6)] obtain m where
      m: "submissions w' \<le> submissions w + m" "t + (\<Sum>i<m. backoffFor (int i)) \<le> end_time t js"
    by (auto simp: atLeast0LessThan)
  have "int m \<le> 8 + (end_time t js - t) div (2 * hour)"
    using modem.attempts_bounded [of m "end_time t js - t"] m(2) by simp
  with m(1) show ?thesis
    by simp
qed

end

section \<open>The modem\<close>

text \<open>
  The two ways to the modem, as \<^verbatim>\<open>sendWorker\<close> chooses between them: atserver behind its socket, and
  the device node, which each submission opens anew. Whether the node opens and whether its reader
  ends in time are functions of the node's state.
\<close>

record ('w, 'd) radio =
  at_srv :: "'w atserver"
  node :: "'d device"
  node_path :: string
  node_error :: "'d \<Rightarrow> string option"
  node_ends :: "'d \<Rightarrow> bool"
  with_report :: bool

record ('w, 'd) modem_world =
  at_io :: "'w atio"
  node_state :: 'd
  node_writes :: "string list"

definition modem_send ::
    "('w, 'd) radio \<Rightarrow> string \<Rightarrow> string \<Rightarrow> int \<Rightarrow> ('w, 'd) modem_world \<Rightarrow> (bool \<times> string) \<times> ('w, 'd) modem_world" where
  "modem_send r tr pduHex tpduLen w =
     (if tr = ''atsrv''
      then let (res, io) = sendPDUviaATSrv (at_srv r) pduHex tpduLen (at_io w) in (res, w\<lparr>at_io := io\<rparr>)
      else let d = node_state w;
               (res, p) = sendPDU (node_error r d) (node_ends r d) (node r) (node_path r) pduHex tpduLen
                            (with_report r) d
           in (res, w\<lparr>node_state := dev p, node_writes := node_writes w @ sent p\<rparr>))"

definition modem_submissions :: "('w, 'd) modem_world \<Rightarrow> nat" where
  "modem_submissions w = submissions_in (trace (at_io w)) + length (filter submits (node_writes w))"

lemma modem_send_submits:
  assumes "modem_send r tr p n w = ((ok, info), w')"
  shows "modem_submissions w \<le> modem_submissions w' \<and> modem_submissions w' \<le> Suc (modem_submissions w)
    \<and> (ok \<longrightarrow> modem_submissions w' = Suc (modem_submissions w))"
proof (cases "tr = ''atsrv''")
  case True
  with assms obtain io where io: "sendPDUviaATSrv (at_srv r) p n (at_io w) = ((ok, info), io)"
      and "w' = w\<lparr>at_io := io\<rparr>"
    by (auto simp: modem_send_def Let_def split: prod.splits)
  with sendPDUviaATSrv_submits [OF io] show ?thesis
    by (simp add: modem_submissions_def)
next
  case False
  with assms obtain port where
      port: "sendPDU (node_error r (node_state w)) (node_ends r (node_state w)) (node r) (node_path r) p n
         (with_report r) (node_state w) = ((ok, info), port)"
      and "w' = w\<lparr>node_state := dev port, node_writes := node_writes w @ sent port\<rparr>"
    by (auto simp: modem_send_def Let_def split: prod.splits)
  with sendPDU_submits [OF port] show ?thesis
    by (simp add: modem_submissions_def)
qed

interpretation radio: transport "modem_send r" modem_submissions for r :: "('w, 'd) radio"
  by unfold_locales (use modem_send_submits in blast)+

section \<open>Properties\<close>

text \<open>At most one submission per job, over either transport and whatever the modem answers: a run of workers
  writes one record per job, hands the modem at most one SMS per job, and has at least one
  submission for every record that says \<open>sent\<close>.\<close>

theorem run_workers_submissions:
  "let (st', w') = run_workers pick (modem_send r) js (st, w) in
     length (logs st') = length (logs st) + length js
     \<and> sent_records st \<le> sent_records st' \<and> modem_submissions w \<le> modem_submissions w'
     \<and> sent_records st' - sent_records st \<le> modem_submissions w' - modem_submissions w
     \<and> modem_submissions w' - modem_submissions w \<le> length js"
  using radio.run_submits [of pick r js st w]
  by (cases "run_workers pick (modem_send r) js (st, w)") auto

text \<open>C8: The backoff protects the modem: as long as no submission succeeds, workers that run one after the other
  make at most eight submissions and one more per two hours, however many jobs arrive.\<close>

theorem failing_rate_bound:
  assumes "run_workers pick (modem_send r) js (st, w) = (st', w')" and "sequential js"
    and "\<forall>(s0, s1, i) \<in> set js. t \<le> s0 \<and> t \<le> s1"
    and "consecFails (hlth st) = 0" and "backoffUntil (hlth st) = None"
    and "sent_records st' = sent_records st"
  shows "int (modem_submissions w' - modem_submissions w) \<le> 8 + (end_time t js - t) div (2 * hour)"
  using assms by (rule radio.failing_rate)

definition broken_radio :: "(unit, unit) radio" where
  "broken_radio = \<lparr>at_srv = (\<lambda>_ w. (DialError ''no such file'', w)),
     node = \<lparr>arrive = (\<lambda>d. ([], d)), on_write = (\<lambda>_ d. d)\<rparr>, node_path = ''/dev/rpm30'',
     node_error = (\<lambda>_. Some ''no such device''), node_ends = (\<lambda>_. True), with_report = False\<rparr>"

definition test_jobs :: "(int \<times> int \<times> job) list" where
  "test_jobs = map (\<lambda>t. (t * minute, t * minute + second, \<lparr>job_pdu = testPDU, job_len = 14, job_base = []\<rparr>))
     [0, 1, 2, 3, 8]"

definition idle_world :: "(unit, unit) modem_world" where
  "idle_world = \<lparr>at_io = \<lparr>server = (), trace = []\<rparr>, node_state = (), node_writes = []\<rparr>"

theorem failing_rate_bound_witness:
  "map result_of (logs (fst (run_workers (\<lambda>_. ''rpm30'') (modem_send broken_radio) test_jobs (init_relay, idle_world))))
     = map (\<lambda>s. Some (JStr s)) [''send-failed'', ''send-failed'', ''send-failed'', ''backoff'', ''send-failed'']
   \<and> int (modem_submissions (snd (run_workers (\<lambda>_. ''rpm30'') (modem_send broken_radio) test_jobs
           (init_relay, idle_world)))) \<le> 8 + (8 * minute + second) div (2 * hour)"
proof -
  let ?s = "run_workers (\<lambda>_. ''rpm30'') (modem_send broken_radio) test_jobs (init_relay, idle_world)"
  have res: "map result_of (logs (fst ?s))
      = map (\<lambda>s. Some (JStr s)) [''send-failed'', ''send-failed'', ''send-failed'', ''backoff'', ''send-failed'']"
    by code_simp
  have none: "sent_records (fst ?s) = sent_records init_relay"
    by code_simp
  have seq: "sequential test_jobs"
    by code_simp
  have later: "\<forall>(s0, s1, i) \<in> set test_jobs. 0 \<le> s0 \<and> 0 \<le> s1" and e: "end_time 0 test_jobs = 8 * minute + second"
    by (simp_all add: test_jobs_def)
  have run: "run_workers (\<lambda>_. ''rpm30'') (modem_send broken_radio) test_jobs (init_relay, idle_world) = (fst ?s, snd ?s)"
    by simp
  have "consecFails (hlth init_relay) = 0" and "backoffUntil (hlth init_relay) = None"
    by (simp_all add: init_relay_def)
  from failing_rate_bound [OF run seq later this none]
  have "int (modem_submissions (snd ?s) - modem_submissions idle_world) \<le> 8 + (8 * minute + second) div (2 * hour)"
    by (simp only: e diff_0_right)
  moreover have "modem_submissions idle_world = 0"
    by (simp add: modem_submissions_def idle_world_def submissions_in_def)
  ultimately show ?thesis
    using res by simp
qed

end
