(* ===== verification/Worker_System.thy ===== *)
theory Worker_System
  imports Send_Worker
begin

text \<open>
  Workers side by side: every accepted job is a goroutine of its own (\<^verbatim>\<open>go sendWorker\<close>), and only the
  mutexes order them. A state holds the shared relay state, the modem, the holder of \<^verbatim>\<open>modemMu\<close>, a
  clock and the workers; a step is one section of \<^verbatim>\<open>sendWorker\<close> between two points where another
  goroutine can run. The sections under \<^verbatim>\<open>failMu\<close> are single steps.
\<close>

section \<open>The stages of a worker\<close>

datatype stage = Ready | Checked | Picked | Holding | Answered | Unlocked | Logged | Finished

fun rank :: "stage \<Rightarrow> nat" where
  "rank Ready = 0" | "rank Checked = 1" | "rank Picked = 2" | "rank Holding = 3"
| "rank Answered = 4" | "rank Unlocked = 5" | "rank Logged = 6" | "rank Finished = 7"

lemma rank_inj: "rank a = rank b \<Longrightarrow> a = b"
  by (cases a; cases b) simp_all

instantiation stage :: linorder
begin

definition less_eq_stage :: "stage \<Rightarrow> stage \<Rightarrow> bool" where
  "less_eq_stage a b \<longleftrightarrow> rank a \<le> rank b"

definition less_stage :: "stage \<Rightarrow> stage \<Rightarrow> bool" where
  "less_stage a b \<longleftrightarrow> rank a < rank b"

instance
  by standard (auto simp: less_eq_stage_def less_stage_def intro: rank_inj)

end

lemma rank_le: "rank a \<le> 7"
  by (cases a) simp_all

record worker =
  w_job :: job
  w_stage :: stage
  w_tr :: string
  w_answer :: "(bool \<times> string) option"

definition new_worker :: "job \<Rightarrow> worker" where
  "new_worker j = \<lparr>w_job = j, w_stage = Ready, w_tr = [], w_answer = None\<rparr>"

record 'w sys =
  shared :: relay
  modem :: 'w
  holder :: "nat option"
  clock :: int
  workers :: "worker list"

definition put_worker :: "nat \<Rightarrow> worker \<Rightarrow> 'w sys \<Rightarrow> 'w sys" where
  "put_worker i w s = s\<lparr>workers := (workers s)[i := w]\<rparr>"

section \<open>Steps\<close>

inductive sys_step ::
    "('w \<Rightarrow> string) \<Rightarrow> (string \<Rightarrow> string \<Rightarrow> int \<Rightarrow> 'w \<Rightarrow> (bool \<times> string) \<times> 'w) \<Rightarrow> 'w sys \<Rightarrow> 'w sys \<Rightarrow> bool"
  for pick send where
  tick: "0 \<le> d \<Longrightarrow> sys_step pick send s (s\<lparr>clock := clock s + d\<rparr>)"
| start: "sys_step pick send s (s\<lparr>workers := workers s @ [new_worker j]\<rparr>)"
| check: "i < length (workers s) \<Longrightarrow> workers s ! i = w \<Longrightarrow> w_stage w = Ready \<Longrightarrow>
    worker_check (clock s) (w_job w) (shared s) = (go, st) \<Longrightarrow>
    sys_step pick send s
      (put_worker i (w\<lparr>w_stage := if go then Checked else Finished\<rparr>) (s\<lparr>shared := st\<rparr>))"
| pick: "i < length (workers s) \<Longrightarrow> workers s ! i = w \<Longrightarrow> w_stage w = Checked \<Longrightarrow>
    sys_step pick send s (put_worker i (w\<lparr>w_stage := Picked, w_tr := pick (modem s)\<rparr>) s)"
| lock: "i < length (workers s) \<Longrightarrow> workers s ! i = w \<Longrightarrow> w_stage w = Picked \<Longrightarrow> holder s = None \<Longrightarrow>
    sys_step pick send s (put_worker i (w\<lparr>w_stage := Holding\<rparr>) (s\<lparr>holder := Some i\<rparr>))"
| send: "i < length (workers s) \<Longrightarrow> workers s ! i = w \<Longrightarrow> w_stage w = Holding \<Longrightarrow>
    send (w_tr w) (job_pdu (w_job w)) (job_len (w_job w)) (modem s) = (res, m) \<Longrightarrow>
    sys_step pick send s (put_worker i (w\<lparr>w_stage := Answered, w_answer := Some res\<rparr>) (s\<lparr>modem := m\<rparr>))"
| unlock: "i < length (workers s) \<Longrightarrow> workers s ! i = w \<Longrightarrow> w_stage w = Answered \<Longrightarrow>
    sys_step pick send s (put_worker i (w\<lparr>w_stage := Unlocked\<rparr>) (s\<lparr>holder := None\<rparr>))"
| log: "i < length (workers s) \<Longrightarrow> workers s ! i = w \<Longrightarrow> w_stage w = Unlocked \<Longrightarrow>
    w_answer w = Some (ok, info) \<Longrightarrow>
    sys_step pick send s (put_worker i (w\<lparr>w_stage := Logged\<rparr>)
      (s\<lparr>shared := worker_log (w_tr w) ok info (w_job w) (shared s)\<rparr>))"
| settle: "i < length (workers s) \<Longrightarrow> workers s ! i = w \<Longrightarrow> w_stage w = Logged \<Longrightarrow>
    w_answer w = Some (ok, info) \<Longrightarrow>
    sys_step pick send s (put_worker i (w\<lparr>w_stage := Finished\<rparr>)
      (s\<lparr>shared := worker_record (clock s) ok (shared s)\<rparr>))"

inductive reachable ::
    "('w \<Rightarrow> string) \<Rightarrow> (string \<Rightarrow> string \<Rightarrow> int \<Rightarrow> 'w \<Rightarrow> (bool \<times> string) \<times> 'w) \<Rightarrow> 'w sys \<Rightarrow> 'w sys \<Rightarrow> bool"
  for pick send s0 where
  initial: "reachable pick send s0 s0"
| further: "reachable pick send s0 s \<Longrightarrow> sys_step pick send s s' \<Longrightarrow> reachable pick send s0 s'"

inductive_cases sys_stepE: "sys_step pick send s s'"

lemma reachable_trans:
  "reachable p d b c \<Longrightarrow> reachable p d a b \<Longrightarrow> reachable p d a c"
  by (induction rule: reachable.induct) (auto intro: reachable.further)

definition fresh_sys :: "relay \<Rightarrow> 'w \<Rightarrow> int \<Rightarrow> 'w sys" where
  "fresh_sys st m t = \<lparr>shared = st, modem = m, holder = None, clock = t, workers = []\<rparr>"

lemma put_worker_sel [simp]:
  "shared (put_worker i w s) = shared s" "modem (put_worker i w s) = modem s"
  "holder (put_worker i w s) = holder s" "clock (put_worker i w s) = clock s"
  "workers (put_worker i w s) = (workers s)[i := w]"
  by (simp_all add: put_worker_def)

section \<open>The lock\<close>

definition at_modem :: "worker \<Rightarrow> bool" where
  "at_modem w \<longleftrightarrow> Holding \<le> w_stage w \<and> w_stage w \<le> Answered"

definition answered :: "worker \<Rightarrow> bool" where
  "answered w \<longleftrightarrow> w_answer w \<noteq> None"

definition succeeded :: "worker \<Rightarrow> bool" where
  "succeeded w \<longleftrightarrow> (\<exists>info. w_answer w = Some (True, info))"

text \<open>
  The holder of the lock is the one worker between \<^verbatim>\<open>Lock\<close> and \<^verbatim>\<open>Unlock\<close>, and a worker has an answer
  exactly in the stages after the send, unless the check ended it.
\<close>

definition consistent :: "worker \<Rightarrow> bool" where
  "consistent w \<longleftrightarrow>
     (w_stage w < Answered \<longrightarrow> w_answer w = None)
     \<and> (Answered \<le> w_stage w \<and> w_stage w \<le> Logged \<longrightarrow> w_answer w \<noteq> None)"

definition sys_inv :: "'w sys \<Rightarrow> bool" where
  "sys_inv s \<longleftrightarrow>
     (\<forall>i < length (workers s). at_modem (workers s ! i) \<longleftrightarrow> holder s = Some i)
     \<and> (\<forall>i. holder s = Some i \<longrightarrow> i < length (workers s))
     \<and> list_all consistent (workers s)"

lemma stage_order [simp]:
  "Holding \<le> s \<longleftrightarrow> s \<notin> {Ready, Checked, Picked}"
  "s \<le> Answered \<longleftrightarrow> s \<notin> {Unlocked, Logged, Finished}"
  "s < Answered \<longleftrightarrow> s \<in> {Ready, Checked, Picked, Holding}"
  "Answered \<le> s \<longleftrightarrow> s \<notin> {Ready, Checked, Picked, Holding}"
  "s \<le> Logged \<longleftrightarrow> s \<noteq> Finished"
  by (cases s; simp add: less_eq_stage_def less_stage_def)+

lemma sys_invI:
  assumes "\<And>k. k < length (workers s) \<Longrightarrow> at_modem (workers s ! k) \<longleftrightarrow> holder s = Some k"
    and "\<And>k. holder s = Some k \<Longrightarrow> k < length (workers s)" and "list_all consistent (workers s)"
  shows "sys_inv s"
  unfolding sys_inv_def by (intro conjI allI impI; rule assms; assumption?)

lemma list_all_update: "list_all P xs \<Longrightarrow> P x \<Longrightarrow> list_all P (xs[i := x])"
  using set_update_subset_insert [of xs i x] by (auto simp: list_all_iff)

lemma sys_inv_put:
  assumes "sys_inv s" and "i < length (workers s)" and "workers s1 = workers s"
    and "holder s1 = (if at_modem w then Some i else if at_modem (workers s ! i) then None else holder s)"
    and "at_modem w \<Longrightarrow> \<not> at_modem (workers s ! i) \<Longrightarrow> holder s = None" and "consistent w"
  shows "sys_inv (put_worker i w s1)"
proof -
  have "at_modem ((workers s)[i := w] ! k) \<longleftrightarrow> holder s1 = Some k" if "k < length (workers s)" for k
    using that assms(1,2,4,5) by (cases "k = i") (auto simp: sys_inv_def)
  moreover have "holder s1 = Some k \<Longrightarrow> k < length (workers s)" for k
    using assms(1,2,4) by (auto simp: sys_inv_def split: if_splits)
  moreover have "list_all consistent ((workers s)[i := w])"
    using assms(1,6) by (simp add: sys_inv_def list_all_update)
  ultimately show ?thesis
    by (simp add: sys_inv_def assms(3))
qed

lemma sys_inv_nth:
  "sys_inv s \<Longrightarrow> i < length (workers s) \<Longrightarrow>
     consistent (workers s ! i) \<and> (at_modem (workers s ! i) \<longleftrightarrow> holder s = Some i)"
  by (simp add: sys_inv_def list_all_length)

lemmas worker_stage = at_modem_def consistent_def

lemma sys_step_inv: "sys_step pick send s s' \<Longrightarrow> sys_inv s \<Longrightarrow> sys_inv s'"
proof (induction rule: sys_step.induct)
  case (start s j)
  let ?ws = "workers s @ [new_worker j]"
  have new: "\<not> at_modem (new_worker j)" "consistent (new_worker j)"
    by (simp_all add: new_worker_def worker_stage)
  have old: "\<forall>k < length (workers s). at_modem (workers s ! k) \<longleftrightarrow> holder s = Some k"
    "\<forall>k. holder s = Some k \<longrightarrow> k < length (workers s)" "list_all consistent (workers s)"
    using start unfolding sys_inv_def by blast+
  show ?case
  proof (rule sys_invI)
    fix k
    assume k: "k < length (workers (s\<lparr>workers := ?ws\<rparr>))"
    show "at_modem (workers (s\<lparr>workers := ?ws\<rparr>) ! k) \<longleftrightarrow> holder (s\<lparr>workers := ?ws\<rparr>) = Some k"
    proof (cases "k < length (workers s)")
      case True
      with old(1) show ?thesis
        by (simp add: nth_append)
    next
      case False
      with k have k': "k = length (workers s)"
        by simp
      with old(2) have "holder s \<noteq> Some k"
        by blast
      with new(1) k' show ?thesis
        by simp
    qed
  next
    fix k
    assume "holder (s\<lparr>workers := ?ws\<rparr>) = Some k"
    then have "holder s = Some k"
      by simp
    with old(2) have "k < length (workers s)"
      by blast
    then show "k < length (workers (s\<lparr>workers := ?ws\<rparr>))"
      by simp
  next
    show "list_all consistent (workers (s\<lparr>workers := ?ws\<rparr>))"
      using old(3) new(2) by simp
  qed
next
  case (check i s w go st)
  note nth = sys_inv_nth [of s i] this
  show ?case
    by (cases go; rule sys_inv_put [of s i]) (use nth in \<open>simp_all add: worker_stage\<close>)
next
  case (pick i s w)
  note nth = sys_inv_nth [of s i] this
  show ?case
    by (rule sys_inv_put [of s i]) (use nth in \<open>simp_all add: worker_stage\<close>)
next
  case (lock i s w)
  note nth = sys_inv_nth [of s i] this
  show ?case
    by (rule sys_inv_put [of s i]) (use nth in \<open>simp_all add: worker_stage\<close>)
next
  case (send i s w res m)
  note nth = sys_inv_nth [of s i] this
  show ?case
    by (rule sys_inv_put [of s i]) (use nth in \<open>simp_all add: worker_stage\<close>)
next
  case (unlock i s w)
  note nth = sys_inv_nth [of s i] this
  show ?case
    by (rule sys_inv_put [of s i]) (use nth in \<open>simp_all add: worker_stage\<close>)
next
  case (log i s w ok info)
  note nth = sys_inv_nth [of s i] this
  show ?case
    by (rule sys_inv_put [of s i]) (use nth in \<open>simp_all add: worker_stage\<close>)
next
  case (settle i s w ok info)
  note nth = sys_inv_nth [of s i] this
  show ?case
    by (rule sys_inv_put [of s i]) (use nth in \<open>simp_all add: worker_stage\<close>)
qed (simp add: sys_inv_def)

lemma reachable_inv: "reachable pick send s0 s \<Longrightarrow> sys_inv s0 \<Longrightarrow> sys_inv s"
  by (induction rule: reachable.induct) (auto intro: sys_step_inv)

lemma sys_inv_fresh [simp]: "sys_inv (fresh_sys st m t)"
  by (simp add: sys_inv_def fresh_sys_def)

section \<open>Counting\<close>

lemma length_filter_update:
  assumes "i < length xs"
  shows "length (filter P (xs[i := x])) + (if P (xs ! i) then 1 else 0) = length (filter P xs) + (if P x then 1 else 0)"
proof -
  have "filter P xs = filter P (take i xs @ xs ! i # drop (Suc i) xs)"
    using assms by (simp add: id_take_nth_drop [symmetric])
  with assms show ?thesis
    by (simp add: upd_conv_take_nth_drop)
qed

definition answers :: "'w sys \<Rightarrow> nat" where
  "answers s = length (filter answered (workers s))"

definition successes :: "'w sys \<Rightarrow> nat" where
  "successes s = length (filter succeeded (workers s))"

definition work_left :: "'w sys \<Rightarrow> nat" where
  "work_left s = sum_list (map (\<lambda>w. 7 - rank (w_stage w)) (workers s))"

lemma counts_put:
  assumes "i < length (workers s)" and "workers s1 = workers s" and "w_answer w = w_answer (workers s ! i)"
  shows "answers (put_worker i w s1) = answers s" and "successes (put_worker i w s1) = successes s"
  using length_filter_update [OF assms(1), of answered w] length_filter_update [OF assms(1), of succeeded w] assms(2,3)
  by (simp_all add: answers_def successes_def answered_def succeeded_def split: if_splits)

lemma counts_answer:
  assumes "i < length (workers s)" and "workers s1 = workers s" and "w_answer (workers s ! i) = None"
    and "w_answer w = Some (ok, info)"
  shows "answers (put_worker i w s1) = Suc (answers s)"
    and "successes (put_worker i w s1) = successes s + (if ok then 1 else 0)"
  using length_filter_update [OF assms(1), of answered w] length_filter_update [OF assms(1), of succeeded w] assms(2-4)
  by (simp_all add: answers_def successes_def answered_def succeeded_def)

lemma length_filter_mono: "(\<And>x. P x \<Longrightarrow> Q x) \<Longrightarrow> length (filter P xs) \<le> length (filter Q xs)"
  by (induction xs) (auto intro: le_SucI)

lemma successes_le_answers: "successes s \<le> answers s"
  unfolding successes_def answers_def by (rule length_filter_mono) (auto simp: succeeded_def answered_def)

lemma answers_le: "answers s \<le> length (workers s)"
  by (simp add: answers_def)

context transport
begin

lemma sys_step_submits:
  assumes "sys_step pick send s s'" and "sys_inv s"
    and "submissions m0 + successes s \<le> submissions (modem s)"
    and "submissions (modem s) \<le> submissions m0 + answers s"
  shows "submissions m0 + successes s' \<le> submissions (modem s')
    \<and> submissions (modem s') \<le> submissions m0 + answers s'"
  using assms
proof (induction rule: sys_step.induct)
  case (send i s w res m)
  obtain ok info where res: "res = (ok, info)"
    by (cases res)
  have "w_answer (workers s ! i) = None"
    using sys_inv_nth [of s i] send by (simp add: worker_stage)
  then have c: "answers (put_worker i (w\<lparr>w_stage := Answered, w_answer := Some res\<rparr>) (s\<lparr>modem := m\<rparr>)) = Suc (answers s)"
    "successes (put_worker i (w\<lparr>w_stage := Answered, w_answer := Some res\<rparr>) (s\<lparr>modem := m\<rparr>))
       = successes s + (if ok then 1 else 0)"
    using send(1) res by (simp_all add: counts_answer)
  have "submissions (modem s) \<le> submissions m" "submissions m \<le> Suc (submissions (modem s))"
    and "ok \<Longrightarrow> submissions m = Suc (submissions (modem s))"
    using at_most_one [OF send(4) [unfolded res]] send(4) [unfolded res] confirmed by auto
  with send.prems c show ?case
    by auto
qed (simp_all add: counts_put, simp_all add: answers_def successes_def new_worker_def answered_def succeeded_def)

lemma reachable_submits:
  "reachable pick send (fresh_sys st m t) s \<Longrightarrow>
     submissions m + successes s \<le> submissions (modem s) \<and> submissions (modem s) \<le> submissions m + answers s"
proof (induction rule: reachable.induct)
  case initial
  show ?case
    by (simp add: fresh_sys_def answers_def successes_def)
next
  case (further s s')
  then show ?case
    using sys_step_submits [of pick s s' m] reachable_inv [OF further(1)] by simp
qed

end

section \<open>Progress\<close>

lemma work_put:
  assumes "i < length (workers s)" and "workers s1 = workers s" and "w_stage (workers s ! i) < w_stage w"
  shows "work_left (put_worker i w s1) < work_left s"
proof -
  let ?f = "\<lambda>w. 7 - rank (w_stage w)"
  have less: "?f w < ?f (workers s ! i)"
    using assms(3) rank_le [of "w_stage w"] by (simp add: less_stage_def)
  have "?f (workers s ! i) \<le> sum_list (map ?f (workers s))"
    using assms(1) by (intro member_le_sum_list) auto
  with less show ?thesis
    using assms(1,2) by (simp add: work_left_def map_update sum_list_update)
qed

lemma sys_progress:
  assumes "sys_inv s" and "\<not> list_all (\<lambda>w. w_stage w = Finished) (workers s)"
  shows "\<exists>s'. sys_step pick send s s' \<and> work_left s' < work_left s \<and> length (workers s') = length (workers s)"
proof -
  obtain k where k: "k < length (workers s)" "w_stage (workers s ! k) \<noteq> Finished"
    using assms(2) by (auto simp: list_all_length)
  define i where "i = (case holder s of None \<Rightarrow> k | Some h \<Rightarrow> h)"
  have i: "i < length (workers s)"
    using k(1) assms(1) by (auto simp: i_def sys_inv_def split: option.split)
  let ?w = "workers s ! i"
  have nth: "consistent ?w" "at_modem ?w \<longleftrightarrow> holder s = Some i"
    using sys_inv_nth [OF assms(1) i] by auto
  have open_lock: "\<not> at_modem ?w \<Longrightarrow> holder s = None"
    using nth(2) by (auto simp: i_def split: option.splits)
  have unfinished: "w_stage ?w \<noteq> Finished"
    using k(2) nth(2) by (auto simp: i_def at_modem_def split: option.splits)
  have step: "\<exists>s'. sys_step pick send s s' \<and> work_left s' < work_left s \<and> length (workers s') = length (workers s)"
    if "sys_step pick send s (put_worker i w s1)" "workers s1 = workers s" "w_stage ?w < w_stage w" for w s1
    using that work_put [OF i that(2,3)] by (intro exI [of _ "put_worker i w s1"]) simp
  show ?thesis
  proof (cases "w_stage ?w")
    case Ready
    obtain go st where check: "worker_check (clock s) (w_job ?w) (shared s) = (go, st)"
      by fastforce
    show ?thesis
      by (rule step [OF sys_step.check [OF i refl Ready check]]) (simp_all add: Ready less_stage_def)
  next
    case Checked
    show ?thesis
      by (rule step [OF sys_step.pick [OF i refl Checked]]) (simp_all add: Checked less_stage_def)
  next
    case Picked
    have free: "holder s = None"
      using open_lock Picked by (simp add: at_modem_def)
    show ?thesis
      by (rule step [OF sys_step.lock [OF i refl Picked free]]) (simp_all add: Picked less_stage_def)
  next
    case Holding
    obtain res m where sent: "send (w_tr ?w) (job_pdu (w_job ?w)) (job_len (w_job ?w)) (modem s) = (res, m)"
      by fastforce
    show ?thesis
      by (rule step [OF sys_step.send [where send = send, OF i refl Holding sent]]) (simp_all add: Holding less_stage_def)
  next
    case Answered
    show ?thesis
      by (rule step [OF sys_step.unlock [OF i refl Answered]]) (simp_all add: Answered less_stage_def)
  next
    case Unlocked
    then obtain ok info where answer: "w_answer ?w = Some (ok, info)"
      using nth(1) by (auto simp: consistent_def)
    show ?thesis
      by (rule step [OF sys_step.log [OF i refl Unlocked answer]]) (simp_all add: Unlocked less_stage_def)
  next
    case Logged
    then obtain ok info where answer: "w_answer ?w = Some (ok, info)"
      using nth(1) by (auto simp: consistent_def)
    show ?thesis
      by (rule step [OF sys_step.settle [OF i refl Logged answer]]) (simp_all add: Logged less_stage_def)
  qed (use unfinished in simp)
qed

lemma sys_drains:
  "sys_inv s \<Longrightarrow> \<exists>s'. reachable pick send s s' \<and> list_all (\<lambda>w. w_stage w = Finished) (workers s')
     \<and> length (workers s') = length (workers s)"
proof (induction "work_left s" arbitrary: s rule: less_induct)
  case less
  show ?case
  proof (cases "list_all (\<lambda>w. w_stage w = Finished) (workers s)")
    case True
    then show ?thesis
      using reachable.initial by blast
  next
    case False
    then obtain s1 where s1: "sys_step pick send s s1" "work_left s1 < work_left s"
        "length (workers s1) = length (workers s)"
      using sys_progress [OF less.prems] by blast
    from less.hyps [OF s1(2) sys_step_inv [OF s1(1) less.prems]] obtain s' where
        "reachable pick send s1 s'" "list_all (\<lambda>w. w_stage w = Finished) (workers s')"
        "length (workers s') = length (workers s1)"
      by blast
    with s1 show ?thesis
      using reachable_trans [of pick send s1 s' s] reachable.further [OF reachable.initial s1(1)] by auto
  qed
qed

section \<open>Schedules\<close>

text \<open>
  The same steps as a function: \<open>Run i\<close> lets worker \<open>i\<close> do its next section, and does nothing if it has
  none or waits for the lock.
\<close>

datatype sched = Tick nat | Start job | Run nat

definition run_worker ::
    "('w \<Rightarrow> string) \<Rightarrow> (string \<Rightarrow> string \<Rightarrow> int \<Rightarrow> 'w \<Rightarrow> (bool \<times> string) \<times> 'w) \<Rightarrow> nat \<Rightarrow> 'w sys \<Rightarrow> 'w sys" where
  "run_worker pick send i s =
     (if i < length (workers s) then
        let w = workers s ! i in
        (case w_stage w of
           Ready \<Rightarrow>
             let (go, st) = worker_check (clock s) (w_job w) (shared s)
             in put_worker i (w\<lparr>w_stage := if go then Checked else Finished\<rparr>) (s\<lparr>shared := st\<rparr>)
         | Checked \<Rightarrow> put_worker i (w\<lparr>w_stage := Picked, w_tr := pick (modem s)\<rparr>) s
         | Picked \<Rightarrow>
             if holder s = None then put_worker i (w\<lparr>w_stage := Holding\<rparr>) (s\<lparr>holder := Some i\<rparr>) else s
         | Holding \<Rightarrow>
             let (res, m) = send (w_tr w) (job_pdu (w_job w)) (job_len (w_job w)) (modem s)
             in put_worker i (w\<lparr>w_stage := Answered, w_answer := Some res\<rparr>) (s\<lparr>modem := m\<rparr>)
         | Answered \<Rightarrow> put_worker i (w\<lparr>w_stage := Unlocked\<rparr>) (s\<lparr>holder := None\<rparr>)
         | Unlocked \<Rightarrow>
             (case w_answer w of None \<Rightarrow> s
              | Some (ok, info) \<Rightarrow> put_worker i (w\<lparr>w_stage := Logged\<rparr>)
                  (s\<lparr>shared := worker_log (w_tr w) ok info (w_job w) (shared s)\<rparr>))
         | Logged \<Rightarrow>
             (case w_answer w of None \<Rightarrow> s
              | Some (ok, info) \<Rightarrow> put_worker i (w\<lparr>w_stage := Finished\<rparr>)
                  (s\<lparr>shared := worker_record (clock s) ok (shared s)\<rparr>))
         | Finished \<Rightarrow> s)
      else s)"

fun sched_step ::
    "('w \<Rightarrow> string) \<Rightarrow> (string \<Rightarrow> string \<Rightarrow> int \<Rightarrow> 'w \<Rightarrow> (bool \<times> string) \<times> 'w) \<Rightarrow> sched \<Rightarrow> 'w sys \<Rightarrow> 'w sys" where
  "sched_step pick send (Tick d) s = s\<lparr>clock := clock s + int d\<rparr>"
| "sched_step pick send (Start j) s = s\<lparr>workers := workers s @ [new_worker j]\<rparr>"
| "sched_step pick send (Run i) s = run_worker pick send i s"

definition run_schedule ::
    "('w \<Rightarrow> string) \<Rightarrow> (string \<Rightarrow> string \<Rightarrow> int \<Rightarrow> 'w \<Rightarrow> (bool \<times> string) \<times> 'w) \<Rightarrow> sched list \<Rightarrow> 'w sys \<Rightarrow> 'w sys" where
  "run_schedule pick send es s = fold (sched_step pick send) es s"

lemma run_worker_step: "run_worker pick send i s = s \<or> sys_step pick send s (run_worker pick send i s)"
proof (cases "i < length (workers s)")
  case True
  show ?thesis
    using True
    by (cases "w_stage (workers s ! i)")
      (auto simp: run_worker_def Let_def split: option.split prod.split
        intro: sys_step.intros sys_step.check [where go = True, simplified] sys_step.check [where go = False, simplified])
qed (simp add: run_worker_def)

lemma run_schedule_reachable: "reachable pick send s (run_schedule pick send es s)"
proof (induction es rule: rev_induct)
  case Nil
  show ?case
    by (simp add: run_schedule_def reachable.initial)
next
  case (snoc e es)
  let ?s = "run_schedule pick send es s"
  have "sched_step pick send e ?s = ?s \<or> sys_step pick send ?s (sched_step pick send e ?s)"
    using run_worker_step by (cases e) (auto intro: sys_step.intros)
  with snoc show ?case
    by (auto simp: run_schedule_def intro: reachable.further)
qed

text \<open>A worker that runs without interference, \<open>d\<close> passing while the modem is busy.\<close>

definition alone :: "nat \<Rightarrow> job \<Rightarrow> nat \<Rightarrow> sched list" where
  "alone i j d = Start j # replicate 4 (Run i) @ Tick d # replicate 3 (Run i)"

lemma run_worker_last:
  assumes "workers s = ws @ [w]"
  shows "run_worker pick send (length ws) s =
    (case w_stage w of
       Ready \<Rightarrow>
         let (go, st) = worker_check (clock s) (w_job w) (shared s)
         in s\<lparr>shared := st, workers := ws @ [w\<lparr>w_stage := if go then Checked else Finished\<rparr>]\<rparr>
     | Checked \<Rightarrow> s\<lparr>workers := ws @ [w\<lparr>w_stage := Picked, w_tr := pick (modem s)\<rparr>]\<rparr>
     | Picked \<Rightarrow>
         if holder s = None then s\<lparr>holder := Some (length ws), workers := ws @ [w\<lparr>w_stage := Holding\<rparr>]\<rparr> else s
     | Holding \<Rightarrow>
         let (res, m) = send (w_tr w) (job_pdu (w_job w)) (job_len (w_job w)) (modem s)
         in s\<lparr>modem := m, workers := ws @ [w\<lparr>w_stage := Answered, w_answer := Some res\<rparr>]\<rparr>
     | Answered \<Rightarrow> s\<lparr>holder := None, workers := ws @ [w\<lparr>w_stage := Unlocked\<rparr>]\<rparr>
     | Unlocked \<Rightarrow>
         (case w_answer w of None \<Rightarrow> s
          | Some (ok, info) \<Rightarrow>
              s\<lparr>shared := worker_log (w_tr w) ok info (w_job w) (shared s), workers := ws @ [w\<lparr>w_stage := Logged\<rparr>]\<rparr>)
     | Logged \<Rightarrow>
         (case w_answer w of None \<Rightarrow> s
          | Some (ok, info) \<Rightarrow>
              s\<lparr>shared := worker_record (clock s) ok (shared s), workers := ws @ [w\<lparr>w_stage := Finished\<rparr>]\<rparr>)
     | Finished \<Rightarrow> s)"
  by (cases "w_stage w")
    (simp_all add: run_worker_def put_worker_def assms list_update_append Let_def split: option.split prod.split)

lemma run_alone:
  assumes "holder s = None"
  shows "let s' = run_schedule pick send (alone (length (workers s)) j d) s in
    (shared s', modem s') = sendWorker pick send (clock s) (clock s + int d) j (shared s, modem s)
    \<and> holder s' = None \<and> clock s' = clock s + int d
    \<and> length (workers s') = Suc (length (workers s)) \<and> w_stage (last (workers s')) = Finished"
proof -
  obtain go st where c: "worker_check (clock s) j (shared s) = (go, st)"
    by fastforce
  note eval = run_schedule_def alone_def new_worker_def c eval_nat_numeral
  show ?thesis
  proof (cases go)
    case False
    then show ?thesis
      using assms by (simp add: eval run_worker_last Let_def sendWorker_def)
  next
    case True
    obtain ok info m where sent: "send (pick (modem s)) (job_pdu j) (job_len j) (modem s) = ((ok, info), m)"
      by (metis prod.exhaust)
    from True sent show ?thesis
      using assms by (simp add: eval run_worker_last Let_def sendWorker_def worker_done_def)
  qed
qed

section \<open>Properties\<close>

text \<open>C14: The modem is used by one worker at a time: in every reachable state at most one worker is between
  taking and releasing the modem lock, and it is the holder.\<close>

theorem modem_exclusive:
  assumes "reachable pick send (fresh_sys st m t) s"
  shows "\<forall>i < length (workers s). \<forall>j < length (workers s).
    at_modem (workers s ! i) \<and> at_modem (workers s ! j) \<longrightarrow> i = j \<and> holder s = Some i"
  using reachable_inv [OF assms] sys_inv_nth [of s] by auto

definition rejecting_radio :: "(unit, string) radio" where
  "rejecting_radio = \<lparr>at_srv = (\<lambda>_ w. (DialError ''no such file'', w)),
     node = \<lparr>arrive = (\<lambda>d. (d, [])),
       on_write = (\<lambda>s d. if contains s [CHR 0x1A] then ''+CMS ERROR: 42''
                         else if contains s ''AT+CMGS'' then ''> '' else ''OK'')\<rparr>,
     node_path = ''/dev/rpm30'', node_error = (\<lambda>_. None), node_ends = (\<lambda>_. True), with_report = False\<rparr>"

definition quiet_world :: "(unit, string) modem_world" where
  "quiet_world = \<lparr>at_io = \<lparr>server = (), trace = []\<rparr>, node_state = [], node_writes = []\<rparr>"

definition test_job :: job where
  "test_job = \<lparr>job_pdu = testPDU, job_len = 14, job_base = []\<rparr>"

abbreviation rejected :: "sched list \<Rightarrow> (unit, string) modem_world sys" where
  "rejected es \<equiv>
     run_schedule (\<lambda>_. ''rpm30'') (modem_send rejecting_radio) es (fresh_sys init_relay quiet_world 0)"

theorem modem_exclusive_witness:
  "map at_modem (workers (rejected [Start test_job, Start test_job, Run 0, Run 1, Run 0, Run 1, Run 1, Run 0]))
     = [False, True]
   \<and> holder (rejected [Start test_job, Start test_job, Run 0, Run 1, Run 0, Run 1, Run 1, Run 0]) = Some 1"
proof -
  let ?s = "rejected [Start test_job, Start test_job, Run 0, Run 1, Run 0, Run 1, Run 1, Run 0]"
  have reach: "reachable (\<lambda>_. ''rpm30'') (modem_send rejecting_radio) (fresh_sys init_relay quiet_world 0) ?s"
    by (rule run_schedule_reachable)
  have a: "map at_modem (workers ?s) = [False, True]"
    by code_simp
  then have n: "1 < length (workers ?s)" and "at_modem (workers ?s ! 1)"
    by (auto simp: map_eq_Cons_conv)
  with modem_exclusive [OF reach] have "holder ?s = Some 1"
    by blast
  with a show ?thesis
    by blast
qed

text \<open>C5: However the workers interleave, the modem is handed at most one SMS per worker that got an answer and
  at least one per worker that was told of success.\<close>

theorem system_submissions:
  assumes "reachable pick (modem_send r) (fresh_sys st m t) s"
  shows "modem_submissions m + successes s \<le> modem_submissions (modem s)
    \<and> modem_submissions (modem s) \<le> modem_submissions m + answers s \<and> answers s \<le> length (workers s)"
  using radio.reachable_submits [OF assms] answers_le by simp

theorem system_submissions_witness:
  "modem_submissions (modem (rejected (alone 0 test_job 5))) \<le> 1 \<and> answers (rejected (alone 0 test_job 5)) = 1"
proof -
  have "answers (rejected (alone 0 test_job 5)) = 1"
    by code_simp
  moreover have "modem_submissions quiet_world = 0"
    by code_simp
  moreover have "reachable (\<lambda>_. ''rpm30'') (modem_send rejecting_radio) (fresh_sys init_relay quiet_world 0)
      (rejected (alone 0 test_job 5))"
    by (rule run_schedule_reachable)
  note system_submissions [OF this]
  ultimately show ?thesis
    by linarith
qed

text \<open>C15: No deadlock: from every reachable state the workers can all be run to their end, with no further
  worker started and no time passing.\<close>

theorem system_drains:
  assumes "reachable pick send (fresh_sys st m t) s"
  shows "\<exists>s'. reachable pick send s s' \<and> list_all (\<lambda>w. w_stage w = Finished) (workers s')
    \<and> length (workers s') = length (workers s)"
  by (rule sys_drains) (rule reachable_inv [OF assms sys_inv_fresh])

theorem system_drains_witness:
  "\<exists>s'. reachable (\<lambda>_. ''rpm30'') (modem_send rejecting_radio)
       (rejected [Start test_job, Start test_job, Run 0, Run 1, Run 1, Run 1]) s'
     \<and> list_all (\<lambda>w. w_stage w = Finished) (workers s') \<and> length (workers s') = 2"
proof -
  have "length (workers (rejected [Start test_job, Start test_job, Run 0, Run 1, Run 1, Run 1])) = 2"
    by code_simp
  moreover have "reachable (\<lambda>_. ''rpm30'') (modem_send rejecting_radio) (fresh_sys init_relay quiet_world 0)
      (rejected [Start test_job, Start test_job, Run 0, Run 1, Run 1, Run 1])"
    by (rule run_schedule_reachable)
  note system_drains [OF this]
  ultimately show ?thesis
    by metis
qed

end
