(* ===== verification/Backoff_System.thy ===== *)
theory Backoff_System
  imports Worker_System "HOL-Library.Multiset"
begin

text \<open>
  The failure state while workers interleave. \<^verbatim>\<open>consecFails\<close> and \<^verbatim>\<open>backoffUntil\<close> are updated under \<^verbatim>\<open>failMu\<close>
  after the record is written, so their order is the order of the updates and not that of the records; and the
  check at the beginning of a worker does not bind those that have passed it.
\<close>

section \<open>Sequential workers as a schedule\<close>

fun one_by_one :: "nat \<Rightarrow> int \<Rightarrow> (int \<times> int \<times> job) list \<Rightarrow> sched list" where
  "one_by_one n t [] = []"
| "one_by_one n t ((t0, t1, j) # js) = Tick (nat (t0 - t)) # alone n j (nat (t1 - t0)) @ one_by_one (Suc n) t1 js"

lemma run_schedule_append: "run_schedule pick send (es @ fs) s = run_schedule pick send fs (run_schedule pick send es s)"
  by (simp add: run_schedule_def)

lemma run_schedule_Cons: "run_schedule pick send (e # es) s = run_schedule pick send es (sched_step pick send e s)"
  by (simp add: run_schedule_def)

lemma run_schedule_Nil [simp]: "run_schedule pick send [] s = s"
  by (simp add: run_schedule_def)

lemma run_workers_schedule:
  assumes "holder s = None" and "sequential js" and "\<forall>(t0, t1, j) \<in> set js. clock s \<le> t0"
  shows "let s' = run_schedule pick send (one_by_one (length (workers s)) (clock s) js) s in
    (shared s', modem s') = run_workers pick send js (shared s, modem s) \<and> holder s' = None"
  using assms
proof (induction js arbitrary: s)
  case Nil
  then show ?case
    by simp
next
  case (Cons a js)
  obtain t0 t1 j where a: "a = (t0, t1, j)"
    by (cases a) auto
  have times: "clock s \<le> t0" "t0 \<le> t1" "sequential js" "\<forall>(s0, s1, i) \<in> set js. t1 \<le> s0"
    using Cons.prems(2,3) by (auto simp: a sequential_Cons)
  let ?s = "s\<lparr>clock := t0\<rparr>"
  let ?s1 = "run_schedule pick send (alone (length (workers ?s)) j (nat (t1 - t0))) ?s"
  have one: "(shared ?s1, modem ?s1) = sendWorker pick send t0 t1 j (shared s, modem s)"
      "holder ?s1 = None" "clock ?s1 = t1" "length (workers ?s1) = Suc (length (workers s))"
    using run_alone [of ?s pick send j "nat (t1 - t0)"] Cons.prems(1) times(2) by (simp_all add: Let_def)
  have "\<forall>(s0, s1, i) \<in> set js. clock ?s1 \<le> s0"
    using times(4) one(3) by simp
  from Cons.IH [OF one(2) times(3) this] show ?case
    using times(1,2) one by (simp add: a run_schedule_Cons run_schedule_append Let_def)
qed

section \<open>The history of the outcomes\<close>
















section \<open>Workers past the check\<close>

text \<open>All jobs start and pass the check at one instant; then \<open>k\<close> of the workers run to their end, one after the other.\<close>

definition overtaking :: "job list \<Rightarrow> nat \<Rightarrow> sched list" where
  "overtaking js k = map Start js @ map Run [0..<length js] @ concat (map (\<lambda>i. replicate 6 (Run i)) [0..<k])"

definition attempt_all :: "('w \<Rightarrow> string) \<Rightarrow> (string \<Rightarrow> string \<Rightarrow> int \<Rightarrow> 'w \<Rightarrow> (bool \<times> string) \<times> 'w) \<Rightarrow> job list \<Rightarrow> 'w \<Rightarrow> 'w" where
  "attempt_all pick send js m = fold (\<lambda>j m. snd (send (pick m) (job_pdu j) (job_len j) m)) js m"

text \<open>The attempts \<open>attempt_all\<close> makes, and none succeeds.\<close>

fun all_fail :: "('w \<Rightarrow> string) \<Rightarrow> (string \<Rightarrow> string \<Rightarrow> int \<Rightarrow> 'w \<Rightarrow> (bool \<times> string) \<times> 'w) \<Rightarrow> job list \<Rightarrow> 'w \<Rightarrow> bool" where
  "all_fail pick send [] m \<longleftrightarrow> True"
| "all_fail pick send (j # js) m \<longleftrightarrow>
     (let ((ok, info), m) = send (pick m) (job_pdu j) (job_len j) m in \<not> ok \<and> all_fail pick send js m)"

lemma all_fail_nth:
  assumes "all_fail pick send js m" and "k < length js" and "attempt_all pick send (take k js) m = m1"
  shows "\<not> fst (fst (send (pick m1) (job_pdu (js ! k)) (job_len (js ! k)) m1))"
  using assms
proof (induction js arbitrary: m k)
  case (Cons j js)
  obtain ok info m2 where s: "send (pick m) (job_pdu j) (job_len j) m = ((ok, info), m2)"
    by (metis prod.exhaust)
  show ?case
  proof (cases k)
    case 0
    with Cons.prems s show ?thesis
      by (simp add: attempt_all_def)
  next
    case (Suc i)
    have "all_fail pick send js m2" "i < length js" "attempt_all pick send (take i js) m2 = m1"
      using Cons.prems s Suc by (simp_all add: attempt_all_def)
    from Cons.IH [OF this] Suc show ?thesis
      by simp
  qed
qed simp

lemma starts: "run_schedule pick send (map Start js) s = s\<lparr>workers := workers s @ map new_worker js\<rparr>"
  by (induction js arbitrary: s) (simp_all add: run_schedule_Cons)

definition checked_worker :: "job \<Rightarrow> worker" where
  "checked_worker j = (new_worker j)\<lparr>w_stage := Checked\<rparr>"

lemma checks:
  assumes "workers s = map new_worker js" and "backoffUntil (hlth (shared s)) = None" and "k \<le> length js"
  shows "run_schedule pick send (map Run [0..<k]) s
    = s\<lparr>workers := map checked_worker (take k js) @ map new_worker (drop k js)\<rparr>"
  using assms(3)
proof (induction k)
  case 0
  with assms(1) show ?case
    by simp
next
  case (Suc k)
  let ?s = "s\<lparr>workers := map checked_worker (take k js) @ map new_worker (drop k js)\<rparr>"
  have k: "k < length js"
    using Suc.prems by simp
  have w: "workers ?s ! k = new_worker (js ! k)"
    using k by (simp add: nth_append)
  have "run_worker pick send k ?s = s\<lparr>workers := map checked_worker (take (Suc k) js) @ map new_worker (drop (Suc k) js)\<rparr>"
    using k assms(2) w
    by (simp add: run_worker_def put_worker_def worker_check_def new_worker_def checked_worker_def list_update_append
        take_Suc_conv_app_nth flip: Cons_nth_drop_Suc)
  then show ?case
    using Suc k by (simp add: run_schedule_append run_schedule_Cons)
qed

lemma run_checked:
  assumes "i < length (workers s)" and "workers s ! i = w" and "w_stage w = Checked" and "holder s = None"
    and "send (pick (modem s)) (job_pdu (w_job w)) (job_len (w_job w)) (modem s) = ((ok, info), m)"
  shows "run_schedule pick send (replicate 6 (Run i)) s =
    s\<lparr>shared := worker_done (clock s) (pick (modem s)) ok info (w_job w) (shared s), modem := m,
      workers := (workers s)[i := w\<lparr>w_stage := Finished, w_tr := pick (modem s), w_answer := Some (ok, info)\<rparr>]\<rparr>"
  using assms
  by (cases s, cases w) (simp add: run_schedule_def eval_nat_numeral run_worker_def put_worker_def worker_done_def Let_def)

lemma overtake:
  assumes "all_fail pick send js (modem s0)" and "k \<le> length js"
    and "shared s0 = st" and "hlth st = \<lparr>consecFails = 0, backoffUntil = None\<rparr>" and "workers s0 = []" and "holder s0 = None"
  shows "let s = run_schedule pick send (overtaking js k) s0 in
    modem s = attempt_all pick send (take k js) (modem s0) \<and> clock s = clock s0 \<and> holder s = None
    \<and> after_fails (clock s0) k (hlth (shared s))
    \<and> length (workers s) = length js \<and> (\<forall>i. k \<le> i \<and> i < length js \<longrightarrow> workers s ! i = checked_worker (js ! i))"
  using assms(2)
proof (induction k)
  case 0
  have "run_schedule pick send (overtaking js 0) s0 = s0\<lparr>workers := map checked_worker js\<rparr>"
    using checks [of "s0\<lparr>workers := map new_worker js\<rparr>" js "length js"] assms(3-5)
    by (simp add: overtaking_def run_schedule_append starts)
  with assms(3,4,6) show ?case
    by (simp add: attempt_all_def after_fails_def)
next
  case (Suc k)
  let ?s = "run_schedule pick send (overtaking js k) s0"
  have k: "k < length js"
    using Suc.prems by simp
  note IH = Suc.IH [OF less_imp_le [OF k], unfolded Let_def]
  have w: "workers ?s ! k = checked_worker (js ! k)"
    using IH k by blast
  have j: "w_job (checked_worker (js ! k)) = js ! k" "w_stage (checked_worker (js ! k)) = Checked"
    by (simp_all add: checked_worker_def new_worker_def)
  obtain ok info m where sent: "send (pick (modem ?s)) (job_pdu (js ! k)) (job_len (js ! k)) (modem ?s) = ((ok, info), m)"
    by (metis prod.exhaust)
  have fail: "\<not> ok"
    using all_fail_nth [OF assms(1) k, of "modem ?s"] IH sent by simp
  have "overtaking js (Suc k) = overtaking js k @ replicate 6 (Run k)"
    by (simp add: overtaking_def)
  then have run: "run_schedule pick send (overtaking js (Suc k)) s0
      = ?s\<lparr>shared := worker_done (clock ?s) (pick (modem ?s)) ok info (js ! k) (shared ?s), modem := m,
          workers := (workers ?s)[k := (checked_worker (js ! k))\<lparr>w_stage := Finished, w_tr := pick (modem ?s), w_answer := Some (ok, info)\<rparr>]\<rparr>"
    using run_checked [of k ?s "checked_worker (js ! k)"] IH k w j sent by (simp add: run_schedule_append)
  have "attempt_all pick send (take (Suc k) js) (modem s0) = m"
    using IH sent k by (simp add: attempt_all_def take_Suc_conv_app_nth)
  moreover have "after_fails (clock s0) (Suc k) (hlth (worker_done (clock ?s) (pick (modem ?s)) ok info (js ! k) (shared ?s)))"
    using IH fail after_fails_step [of "clock s0" k "hlth (shared ?s)" "clock ?s"] by simp
  ultimately show ?case
    using IH unfolding run Let_def by simp
qed

text \<open>One after the other, only the first three are sent.\<close>

lemma in_backoff_after: "after_fails t k h \<Longrightarrow> 3 \<le> k \<Longrightarrow> in_backoff t h"
  using backoffFor_pos [of "int k"] by (simp add: after_fails_def in_backoff_def)

lemma backed_off:
  "in_backoff t (hlth st) \<Longrightarrow> snd (run_workers pick send (map (\<lambda>j. (t, t, j)) js) (st, m)) = m"
proof (induction js arbitrary: st)
  case (Cons j js)
  obtain st1 m1 where s: "sendWorker pick send t t j (st, m) = (st1, m1)"
    by fastforce
  with Cons.prems have "m1 = m" "hlth st1 = hlth st"
    by (auto elim: sendWorker_cases)
  with Cons s show ?case
    by simp
qed simp

lemma sequential_stops:
  assumes "all_fail pick send js m" and "after_fails t k (hlth st)"
  shows "snd (run_workers pick send (map (\<lambda>j. (t, t, j)) js) (st, m)) = attempt_all pick send (take (3 - k) js) m"
  using assms
proof (induction js arbitrary: st m k)
  case Nil
  then show ?case
    by (simp add: attempt_all_def)
next
  case (Cons j js)
  obtain st1 m1 where s: "sendWorker pick send t t j (st, m) = (st1, m1)"
    by fastforce
  show ?case
  proof (cases "in_backoff t (hlth st)")
    case True
    then have "\<not> k < 3"
      using Cons.prems(2) by (auto simp: after_fails_def in_backoff_def)
    moreover have "m1 = m" "hlth st1 = hlth st"
      using s True by (auto elim: sendWorker_cases)
    ultimately show ?thesis
      using True s backed_off [of t st1] by (simp add: attempt_all_def)
  next
    case False
    then have k: "k < 3"
      using in_backoff_after [OF Cons.prems(2)] by (meson not_le)
    from s False obtain ok info where r: "send (pick m) (job_pdu j) (job_len j) m = ((ok, info), m1)"
        "hlth st1 = record_result t ok (hlth st)"
      by (auto elim: sendWorker_cases)
    then have fails: "\<not> ok" "all_fail pick send js m1"
      using Cons.prems(1) by simp_all
    then have "after_fails t (Suc k) (hlth st1)"
      using r(2) after_fails_step [OF Cons.prems(2)] by simp
    from Cons.IH [OF fails(2) this] k r(1) s show ?thesis
      by (simp add: attempt_all_def Suc_diff_Suc take_Cons' Suc_diff_le)
  qed
qed

section \<open>Properties\<close>



text \<open>C17: The backoff does not bind workers that have passed the check: of any jobs whose workers pass it at one instant,
  while the attempts fail, each is handed to the modem, and from the fourth on during the backoff that the
  third failure set. Workers that run one after the other at that instant hand over the first three only.\<close>

theorem backoff_overtaken:
  assumes "all_fail pick send js m" and "k \<le> length js"
  shows "let s = run_schedule pick send (overtaking js k) (fresh_sys init_relay m t);
             alone = snd (run_workers pick send (map (\<lambda>j. (t, t, j)) js) (init_relay, m)) in
     reachable pick send (fresh_sys init_relay m t) s \<and> clock s = t
     \<and> modem s = attempt_all pick send (take k js) m \<and> consecFails (hlth (shared s)) = int k
     \<and> (3 \<le> k \<longrightarrow> in_backoff t (hlth (shared s)))
     \<and> alone = attempt_all pick send (take 3 js) m"
proof -
  let ?s = "run_schedule pick send (overtaking js k) (fresh_sys init_relay m t)"
  have init: "hlth init_relay = \<lparr>consecFails = 0, backoffUntil = None\<rparr>" "after_fails t 0 (hlth init_relay)"
    by (simp_all add: init_relay_def after_fails_def)
  have s: "modem ?s = attempt_all pick send (take k js) m" "clock ?s = t" "after_fails t k (hlth (shared ?s))"
    using overtake [of pick send js "fresh_sys init_relay m t" k init_relay] assms init(1) by (simp_all add: fresh_sys_def Let_def)
  then have "consecFails (hlth (shared ?s)) = int k" "3 \<le> k \<longrightarrow> in_backoff t (hlth (shared ?s))"
    using in_backoff_after by (auto simp: after_fails_def)
  moreover have "snd (run_workers pick send (map (\<lambda>j. (t, t, j)) js) (init_relay, m)) = attempt_all pick send (take 3 js) m"
    using sequential_stops [OF assms(1) init(2)] by simp
  ultimately show ?thesis
    using s run_schedule_reachable by (simp add: Let_def)
qed

theorem backoff_overtaken_witness:
  "let js = replicate 5 test_job;
       s = run_schedule (\<lambda>_. ''rpm30'') (modem_send rejecting_radio) (overtaking js 5) (fresh_sys init_relay quiet_world 0) in
     modem_submissions (modem s) = 5 \<and> in_backoff 0 (hlth (shared s))
     \<and> modem_submissions (snd (run_workers (\<lambda>_. ''rpm30'') (modem_send rejecting_radio)
         (map (\<lambda>j. (0, 0, j)) js) (init_relay, quiet_world))) = 3"
proof -
  have fails: "all_fail (\<lambda>_. ''rpm30'') (modem_send rejecting_radio) (replicate 5 test_job) quiet_world"
    by code_simp
  have "5 \<le> length (replicate 5 test_job)"
    by simp
  note all = backoff_overtaken [OF fails this, of 0, unfolded Let_def]
  have "modem_submissions (attempt_all (\<lambda>_. ''rpm30'') (modem_send rejecting_radio) (take 5 (replicate 5 test_job)) quiet_world) = 5"
      "modem_submissions (attempt_all (\<lambda>_. ''rpm30'') (modem_send rejecting_radio) (take 3 (replicate 5 test_job)) quiet_world) = 3"
    by code_simp+
  with all show ?thesis
    by (simp add: Let_def)
qed

end
