(* ===== verification/Relay_System.thy ===== *)
theory Relay_System
  imports Http_System Backoff_System
begin

text \<open>
  The webhook as a whole while it runs: the goroutines of the connections (\<^verbatim>\<open>go serve\<close>) and those of the jobs
  (\<^verbatim>\<open>go sendWorker\<close>) take turns in any order. Both halves see one relay state and one clock; a handler that
  starts a worker adds it to the workers, and from then on it is one goroutine among the others.
\<close>

section \<open>The two halves\<close>

record 'w whole =
  front :: hook_system
  rear :: "'w sys"

datatype event = Hook hook_event | Work nat

text \<open>The workers of the jobs that are new in the relay state.\<close>

definition take_over :: "relay \<Rightarrow> hook_system \<Rightarrow> 'w sys \<Rightarrow> 'w sys" where
  "take_over before h s =
     s\<lparr>shared := hs_relay h, clock := hs_clock h,
       workers := workers s @ map new_worker (drop (length (jobs before)) (jobs (hs_relay h)))\<rparr>"

fun happens ::
    "config \<Rightarrow> ('w \<Rightarrow> string) \<Rightarrow> (string \<Rightarrow> string \<Rightarrow> int \<Rightarrow> 'w \<Rightarrow> (bool \<times> string) \<times> 'w) \<Rightarrow> event \<Rightarrow> 'w whole \<Rightarrow> 'w whole" where
  "happens cfg pick send (Hook e) s =
     (let h = hook_happens cfg e (front s)
      in s\<lparr>front := h, rear := take_over (hs_relay (front s)) h (rear s)\<rparr>)"
| "happens cfg pick send (Work i) s =
     (let r = run_worker pick send i (rear s)
      in s\<lparr>front := (front s)\<lparr>hs_relay := shared r\<rparr>, rear := r\<rparr>)"

definition whole_run ::
    "config \<Rightarrow> ('w \<Rightarrow> string) \<Rightarrow> (string \<Rightarrow> string \<Rightarrow> int \<Rightarrow> 'w \<Rightarrow> (bool \<times> string) \<times> 'w) \<Rightarrow> int \<Rightarrow> relay \<Rightarrow> 'w
      \<Rightarrow> event list \<Rightarrow> 'w whole" where
  "whole_run cfg pick send t0 st m es =
     fold (happens cfg pick send) es
       \<lparr>front = \<lparr>hs_relay = st, hs_clock = t0, hs_handlers = [], hs_claims = []\<rparr>, rear = fresh_sys st m t0\<rparr>"

section \<open>The invariant\<close>

text \<open>A worker's turn keeps the deduplication state, the jobs and what the workers are for.\<close>

lemma worker_turn_frame:
  "ddp (shared (run_worker pick send i s)) = ddp (shared s)" "jobs (shared (run_worker pick send i s)) = jobs (shared s)"
  "clock (run_worker pick send i s) = clock s"
  "map w_job (workers (run_worker pick send i s)) = map w_job (workers s)"
proof -
  have log: "ddp (worker_log tr ok info j st) = ddp st" "jobs (worker_log tr ok info j st) = jobs st" for tr ok info j st
    by (simp_all add: worker_log_def emit_def Let_def)
  have same: "map w_job ((workers s)[i := w]) = map w_job (workers s)" if "w_job w = w_job (workers s ! i)" for w
    using that by (simp add: map_update list_update_same_conv) (metis list_update_beyond list_update_id map_update not_le)
  show "ddp (shared (run_worker pick send i s)) = ddp (shared s)" "jobs (shared (run_worker pick send i s)) = jobs (shared s)"
      "clock (run_worker pick send i s) = clock s" "map w_job (workers (run_worker pick send i s)) = map w_job (workers s)"
    using worker_check_frame(2,3) [of "clock s" "w_job (workers s ! i)" "shared s"]
    by (cases "w_stage (workers s ! i)";
        simp add: run_worker_def Let_def log same worker_record_def case_prod_beta split: option.split)+
qed

lemma happens_sync:
  assumes "hs_relay (front s) = shared (rear s)" and "hs_clock (front s) = clock (rear s)"
    and "map w_job (workers (rear s)) = drop n (jobs (shared (rear s)))" and "n \<le> length (jobs (shared (rear s)))"
  shows "let s' = happens cfg pick send e s in
    hs_relay (front s') = shared (rear s') \<and> hs_clock (front s') = clock (rear s')
    \<and> map w_job (workers (rear s')) = drop n (jobs (shared (rear s'))) \<and> n \<le> length (jobs (shared (rear s')))"
proof (cases e)
  case (Hook e)
  obtain js where "jobs (hs_relay (hook_happens cfg e (front s))) = jobs (hs_relay (front s)) @ js"
    using hook_happens_grows by blast
  with assms show ?thesis
    by (simp add: Hook take_over_def Let_def new_worker_def comp_def)
next
  case (Work i)
  with assms show ?thesis
    by (simp add: Let_def worker_turn_frame)
qed

lemma happens_hooks_ok:
  assumes "hooks_ok cfg st (front s)" and "hs_relay (front s) = shared (rear s)"
  shows "hooks_ok cfg st (front (happens cfg pick send e s))"
proof (cases e)
  case (Hook e)
  with assms show ?thesis
    by (simp add: Let_def hooks_ok_happens)
next
  case (Work i)
  with assms show ?thesis
    by (simp add: Let_def hooks_ok_def worker_turn_frame all_owed_def all_may_claim_def)
qed

context transport
begin

text \<open>What \<open>reachable_submits\<close> states of the workers alone.\<close>

definition submits_ok :: "'w \<Rightarrow> 'w sys \<Rightarrow> bool" where
  "submits_ok m0 s \<longleftrightarrow> sys_inv s
     \<and> submissions m0 + successes s \<le> submissions (modem s) \<and> submissions (modem s) \<le> submissions m0 + answers s"

lemma submits_ok_step: "sys_step pick send s s' \<Longrightarrow> submits_ok m0 s \<Longrightarrow> submits_ok m0 s'"
  using sys_step_submits [of pick s s' m0] sys_step_inv [of pick send s s'] by (simp add: submits_ok_def)

lemma submits_ok_start: "submits_ok m0 s \<Longrightarrow> submits_ok m0 (s\<lparr>workers := workers s @ map new_worker js\<rparr>)"
proof (induction js arbitrary: s)
  case (Cons j js)
  let ?s = "s\<lparr>workers := workers s @ [new_worker j]\<rparr>"
  have "sys_step undefined send s ?s"
    by (rule sys_step.start)
  then have "submits_ok m0 ?s"
    using Cons.prems by (rule submits_ok_step)
  from Cons.IH [OF this] show ?case
    by simp
qed simp

lemma submits_ok_happens:
  assumes "submits_ok m0 (rear s)"
  shows "submits_ok m0 (rear (happens cfg pick send e s))"
proof (cases e)
  case (Hook e)
  let ?h = "hook_happens cfg e (front s)" and ?js = "drop (length (jobs (hs_relay (front s))))"
  have "submits_ok m0 ((rear s)\<lparr>workers := workers (rear s) @ map new_worker (?js (jobs (hs_relay ?h)))\<rparr>)"
    using assms by (rule submits_ok_start)
  then have "submits_ok m0 (take_over (hs_relay (front s)) ?h (rear s))"
    by (simp add: take_over_def submits_ok_def sys_inv_def successes_def answers_def)
  then show ?thesis
    by (simp add: Hook Let_def)
next
  case (Work i)
  with assms run_worker_step [of pick send i "rear s"] show ?thesis
    by (auto simp: Let_def intro: submits_ok_step)
qed

lemma whole_run_ok:
  "let s = whole_run cfg pick send t0 st m es in
     submits_ok m (rear s) \<and> hooks_ok cfg st (front s) \<and> hs_relay (front s) = shared (rear s)
     \<and> map w_job (workers (rear s)) = drop (length (jobs st)) (jobs (shared (rear s)))"
proof -
  let ?ok = "\<lambda>s. submits_ok m (rear s) \<and> hooks_ok cfg st (front s)
     \<and> hs_relay (front s) = shared (rear s) \<and> hs_clock (front s) = clock (rear s)
     \<and> map w_job (workers (rear s)) = drop (length (jobs st)) (jobs (shared (rear s)))
     \<and> length (jobs st) \<le> length (jobs (shared (rear s)))"
  have step: "?ok s \<Longrightarrow> ?ok (happens cfg pick send e s)" for s e
    using submits_ok_happens [of m s cfg pick e] happens_hooks_ok [of cfg st s pick send e]
      happens_sync [of s "length (jobs st)" cfg pick send e] by (simp add: Let_def)
  have "?ok s \<Longrightarrow> ?ok (fold (happens cfg pick send) es s)" for s
    by (induction es arbitrary: s) (simp_all add: step)
  moreover have "?ok \<lparr>front = \<lparr>hs_relay = st, hs_clock = t0, hs_handlers = [], hs_claims = []\<rparr>, rear = fresh_sys st m t0\<rparr>"
    by (simp add: hooks_ok_start submits_ok_def) (simp add: fresh_sys_def successes_def answers_def)
  ultimately show ?thesis
    unfolding whole_run_def Let_def by blast
qed

end

section \<open>Properties\<close>

text \<open>C16: The running webhook, whatever connections arrive and however handlers and workers take turns, from the
  start of a connection to the end of its worker: each worker is for one granted claim of an admitted
  destination, at most one per connection; the modem is handed at most one SMS per worker that got an
  answer and at least one per worker that was told of success; one worker at a time is at the modem; and
  granted claims of one PDU in direct succession are the cooldown apart.\<close>

theorem relay_system_sends:
  assumes "cooldown cfg \<le> max_duration"
  shows "let s = whole_run cfg pick (modem_send r) t0 st m es; ws = workers (rear s);
             gs = granted (cooldown cfg) (hs_claims (front s)) (ddp st); n = modem_submissions (modem (rear s)) in
     modem_submissions m + successes (rear s) \<le> n \<and> n \<le> modem_submissions m + answers (rear s)
     \<and> mset (map (job_pdu \<circ> w_job) ws) \<subseteq># mset (map snd gs)
     \<and> (list_all (\<lambda>h. snd h = Returned) (hs_handlers (front s)) \<longrightarrow> mset (map (job_pdu \<circ> w_job) ws) = mset (map snd gs))
     \<and> answers (rear s) \<le> length ws \<and> length ws \<le> length gs \<and> length gs \<le> length (hs_handlers (front s))
     \<and> list_all (may_send (destinationAllowed (allowedDest cfg)) \<circ> w_job) ws
     \<and> (\<forall>i < length ws. at_modem (ws ! i) \<longleftrightarrow> holder (rear s) = Some i)
     \<and> spaced (cooldown cfg) gs"
proof -
  let ?s = "whole_run cfg pick (modem_send r) t0 st m es"
  let ?gs = "granted (cooldown cfg) (hs_claims (front ?s)) (ddp st)"
  note ok = radio.whole_run_ok [where r = r and m = m and cfg = cfg and st = st and pick = pick and ?t0.0 = t0 and es = es, unfolded Let_def]
  then obtain js where js: "jobs (hs_relay (front ?s)) = jobs st @ js"
      "list_all (may_send (destinationAllowed (allowedDest cfg))) js"
      "mset (map job_pdu js) + all_owed (front ?s) = mset (map snd ?gs)"
      and claims: "length (hs_claims (front ?s)) \<le> length (hs_handlers (front ?s))"
    by (auto simp: hooks_ok_def)
  have ws: "map w_job (workers (rear ?s)) = js"
    using ok js(1) by simp
  then have pdus: "map (job_pdu \<circ> w_job) (workers (rear ?s)) = map job_pdu js"
    by (metis map_map)
  have sub: "mset (map (job_pdu \<circ> w_job) (workers (rear ?s))) \<subseteq># mset (map snd ?gs)"
    unfolding pdus using js(3) by (metis mset_subset_eq_add_left)
  then have "length (workers (rear ?s)) \<le> length ?gs"
    using size_mset_mono [OF sub] by simp
  moreover have "list_all (may_send (destinationAllowed (allowedDest cfg)) \<circ> w_job) (workers (rear ?s))"
    using js(2) by (simp add: ws [symmetric] list.pred_map)
  moreover have "list_all (\<lambda>h. snd h = Returned) (hs_handlers (front ?s)) \<Longrightarrow>
      mset (map (job_pdu \<circ> w_job) (workers (rear ?s))) = mset (map snd ?gs)"
    unfolding pdus using js(3) all_returned_owed by simp
  moreover have "length ?gs \<le> length (hs_handlers (front ?s))"
    using claims length_granted [of "cooldown cfg" "hs_claims (front ?s)" "ddp st"] by linarith
  moreover have "\<forall>i < length (workers (rear ?s)). at_modem (workers (rear ?s) ! i) \<longleftrightarrow> holder (rear ?s) = Some i"
    using ok by (simp add: radio.submits_ok_def sys_inv_def)
  ultimately show ?thesis
    using ok sub spaced_granted [OF assms] answers_le [of "rear ?s"] by (simp add: Let_def radio.submits_ok_def del: mset_map)
qed

lemma front_hooks:
  "front (fold (happens cfg pick send) (map Hook es) s) = fold (hook_happens cfg) es (front s)"
  by (induction es arbitrary: s) (simp_all add: Let_def)

lemma front_works:
  "hs_handlers (front (fold (happens cfg pick send) (map Work is) s)) = hs_handlers (front s)"
  "hs_claims (front (fold (happens cfg pick send) (map Work is) s)) = hs_claims (front s)"
  by (induction "is" arbitrary: s) (simp_all add: Let_def)

theorem relay_system_sends_witness:
  "let s = whole_run test_config (\<lambda>_. ''rpm30'') (modem_send rejecting_radio) 0 init_relay quiet_world
             (map Hook test_events @ map Work (replicate 7 0)) in
     map (job_pdu \<circ> w_job) (workers (rear s)) = [testPDU] \<and> modem_submissions (modem (rear s)) \<le> 1"
proof -
  let ?s = "whole_run test_config (\<lambda>_. ''rpm30'') (modem_send rejecting_radio) 0 init_relay quiet_world
    (map Hook test_events @ map Work (replicate 7 0))"
  have "cooldown test_config \<le> max_duration" and c: "cooldown test_config = 90 * second"
    by (simp_all add: test_config_def max_duration_def)
  note all = relay_system_sends [OF this(1), of "\<lambda>_. ''rpm30''" rejecting_radio 0 init_relay quiet_world
    "map Hook test_events @ map Work (replicate 7 0)", unfolded Let_def]
  have front: "hs_handlers (front ?s) = hs_handlers (hook_run test_config 0 init_relay test_events)"
      "hs_claims (front ?s) = hs_claims (hook_run test_config 0 init_relay test_events)"
    by (simp_all add: whole_run_def front_hooks front_works hook_run_def del: map_replicate)
  have gs: "granted (cooldown test_config) (hs_claims (front ?s)) (ddp init_relay) = [(0, testPDU)]"
    by (simp only: front test_run c)
      (simp add: init_relay_def granted_Cons claimPDU_def init_dedup_def time_since_def max_duration_def testPDU_def)
  have "list_all (\<lambda>h. snd h = Returned) (hs_handlers (front ?s))"
    by (simp only: front test_run)
  with all gs have one: "mset (map (job_pdu \<circ> w_job) (workers (rear ?s))) = {#testPDU#}"
    by (simp del: mset_map)
  have "modem_submissions quiet_world = 0"
    by code_simp
  moreover have "modem_submissions (modem (rear ?s)) \<le> modem_submissions quiet_world + answers (rear ?s)"
    by (rule all [THEN conjunct2, THEN conjunct1])
  moreover have "answers (rear ?s) \<le> length (workers (rear ?s))"
    by (rule all [THEN conjunct2, THEN conjunct2, THEN conjunct2, THEN conjunct2, THEN conjunct1])
  moreover have "length (workers (rear ?s)) \<le> length (granted (cooldown test_config) (hs_claims (front ?s)) (ddp init_relay))"
    by (rule all [THEN conjunct2, THEN conjunct2, THEN conjunct2, THEN conjunct2, THEN conjunct2, THEN conjunct1])
  ultimately have "modem_submissions (modem (rear ?s)) \<le> 1"
    by (simp add: gs del: map_replicate)
  with one show ?thesis
    by (simp only: mset_single_iff Let_def simp_thms)
qed

end
