(* ===== verification/Session_System.thy ===== *)
theory Session_System
  imports Ws_Session Relay_System
begin

text \<open>
  WebSocket mode with its workers beside it: the read loop handles one request after the other (\<^verbatim>\<open>wsServe\<close>) while
  the workers it has started (\<^verbatim>\<open>go sendWorker\<close>) take their turns. The handler uses the deduplication state and
  starts jobs, the workers use the failure state, and each appends whole records to the log, so a handler's
  call is one turn. What follows holds for every front end and every transport that keep their promises.
\<close>

section \<open>One handler and its workers\<close>

datatype 'r input_event = Elapse nat | Request 'r | Turn nat

text \<open>The jobs a request starts are listed with the instant of the request.\<close>

fun sees ::
    "(int \<Rightarrow> 'r \<Rightarrow> relay \<Rightarrow> relay) \<Rightarrow> ('w \<Rightarrow> string) \<Rightarrow> (string \<Rightarrow> string \<Rightarrow> int \<Rightarrow> 'w \<Rightarrow> (bool \<times> string) \<times> 'w)
      \<Rightarrow> 'r input_event \<Rightarrow> (int \<times> job) list \<times> 'w sys \<Rightarrow> (int \<times> job) list \<times> 'w sys" where
  "sees handle pick send (Elapse d) (acc, s) = (acc, s\<lparr>clock := clock s + int d\<rparr>)"
| "sees handle pick send (Request r) (acc, s) =
     (let st = handle (clock s) r (shared s); js = drop (length (jobs (shared s))) (jobs st)
      in (acc @ map (Pair (clock s)) js, s\<lparr>shared := st, workers := workers s @ map new_worker js\<rparr>))"
| "sees handle pick send (Turn i) (acc, s) = (acc, run_worker pick send i s)"

definition session_run ::
    "(int \<Rightarrow> 'r \<Rightarrow> relay \<Rightarrow> relay) \<Rightarrow> ('w \<Rightarrow> string) \<Rightarrow> (string \<Rightarrow> string \<Rightarrow> int \<Rightarrow> 'w \<Rightarrow> (bool \<times> string) \<times> 'w)
      \<Rightarrow> int \<Rightarrow> relay \<Rightarrow> 'w \<Rightarrow> 'r input_event list \<Rightarrow> (int \<times> job) list \<times> 'w sys" where
  "session_run handle pick send t0 st m es = fold (sees handle pick send) es ([], fresh_sys st m t0)"

definition requests_in :: "'r input_event list \<Rightarrow> nat" where
  "requests_in es = length (filter (\<lambda>e. \<exists>r. e = Request r) es)"

locale relay_program = front_end handle cool allowed + transport send submissions
  for handle :: "int \<Rightarrow> 'r \<Rightarrow> relay \<Rightarrow> relay" and cool :: int and allowed :: "string \<Rightarrow> bool"
    and send :: "string \<Rightarrow> string \<Rightarrow> int \<Rightarrow> 'w \<Rightarrow> (bool \<times> string) \<times> 'w" and submissions :: "'w \<Rightarrow> nat"
begin

text \<open>The jobs are those of claims that were granted one after the other.\<close>

definition claims_ok :: "relay \<Rightarrow> (int \<times> job) list \<Rightarrow> 'w sys \<Rightarrow> bool" where
  "claims_ok st0 acc s \<longleftrightarrow>
     map w_job (workers s) = map snd acc \<and> list_all (\<lambda>a. may_send allowed (snd a)) acc
     \<and> (let cs = map (map_prod id job_pdu) acc in
          granted cool cs (ddp st0) = cs \<and> claims_state cool cs (ddp st0) = ddp (shared s))"

lemma claims_ok_request:
  assumes "claims_ok st0 acc s" and "sees handle pick send (Request r) (acc, s) = (acc', s')"
  shows "claims_ok st0 acc' s' \<and> length acc' \<le> Suc (length acc)"
  using accepts [of "clock s" r "shared s"]
proof (elim disjE exE conjE)
  assume "jobs (handle (clock s) r (shared s)) = jobs (shared s)" "ddp (handle (clock s) r (shared s)) = ddp (shared s)"
  with assms show ?thesis
    by (auto simp: claims_ok_def Let_def)
next
  fix j
  assume "jobs (handle (clock s) r (shared s)) = jobs (shared s) @ [j]" "may_send allowed j"
    "claimPDU cool (clock s) (job_pdu j) (ddp (shared s)) = (True, ddp (handle (clock s) r (shared s)))"
  with assms show ?thesis
    by (auto simp: claims_ok_def Let_def granted_append claims_state_append granted_Cons new_worker_def)
qed

lemma submits_ok_request:
  assumes "submits_ok m0 s" and "sees handle pick send (Request r) (acc, s) = (acc', s')"
  shows "submits_ok m0 s'"
proof -
  let ?js = "drop (length (jobs (shared s))) (jobs (handle (clock s) r (shared s)))"
  have "submits_ok m0 (s\<lparr>workers := workers s @ map new_worker ?js\<rparr>)"
    using assms(1) by (rule submits_ok_start)
  with assms(2) show ?thesis
    by (auto simp: Let_def submits_ok_def sys_inv_def successes_def answers_def)
qed

lemma sees_ok:
  assumes "submits_ok m0 s" and "claims_ok st0 acc s" and "sees handle pick send e (acc, s) = (acc', s')"
  shows "submits_ok m0 s' \<and> claims_ok st0 acc' s' \<and> length acc' \<le> length acc + requests_in [e]"
proof (cases e)
  case (Elapse d)
  with assms show ?thesis
    by (auto simp: submits_ok_def claims_ok_def sys_inv_def successes_def answers_def)
next
  case (Request r)
  with assms show ?thesis
    using submits_ok_request [of m0 s pick r acc acc' s'] claims_ok_request [of st0 acc s pick r acc' s']
    by (simp add: requests_in_def)
next
  case (Turn i)
  with assms run_worker_step [of pick send i s] show ?thesis
    by (auto simp: claims_ok_def worker_turn_frame intro: submits_ok_step)
qed

lemma session_run_ok:
  "let (acc, s) = session_run handle pick send t0 st m es in
     submits_ok m s \<and> claims_ok st acc s \<and> length acc \<le> requests_in es"
proof (induction es rule: rev_induct)
  case Nil
  show ?case
    by (simp add: session_run_def submits_ok_def claims_ok_def) (simp add: fresh_sys_def successes_def answers_def)
next
  case (snoc e es)
  obtain acc s where before: "session_run handle pick send t0 st m es = (acc, s)"
    by fastforce
  obtain acc' s' where after: "sees handle pick send e (acc, s) = (acc', s')"
    by fastforce
  have "requests_in (es @ [e]) = requests_in es + requests_in [e]"
    by (simp add: requests_in_def)
  moreover have "session_run handle pick send t0 st m (es @ [e]) = (acc', s')"
    using before after by (simp add: session_run_def)
  ultimately show ?case
    using snoc sees_ok [OF _ _ after, of m st] before by simp
qed

lemma session_run_sends:
  assumes "cool \<le> max_duration" and "session_run handle pick send t0 st m es = (acc, s)"
  shows "submissions m + successes s \<le> submissions (modem s) \<and> submissions (modem s) \<le> submissions m + answers s
    \<and> answers s \<le> length acc \<and> length acc \<le> requests_in es \<and> map w_job (workers s) = map snd acc
    \<and> list_all (\<lambda>a. may_send allowed (snd a)) acc \<and> spaced cool (map (map_prod id job_pdu) acc)
    \<and> (\<forall>i < length acc. at_modem (workers s ! i) \<longleftrightarrow> holder s = Some i)"
proof -
  note ok = session_run_ok [of pick t0 st m es, unfolded assms(2), simplified]
  have "granted cool (map (map_prod id job_pdu) acc) (ddp st) = map (map_prod id job_pdu) acc"
    using ok by (simp add: claims_ok_def Let_def)
  then have "spaced cool (map (map_prod id job_pdu) acc)"
    using spaced_granted [OF assms(1)] by metis
  moreover have "map w_job (workers s) = map snd acc" "length (workers s) = length acc"
    using ok arg_cong [of _ _ length] by (auto simp: claims_ok_def dest: map_eq_imp_length_eq)
  ultimately show ?thesis
    using ok answers_le [of s] by (simp add: submits_ok_def claims_ok_def sys_inv_def)
qed

end

interpretation gateway_program: relay_program "handleWSRequest cfg" "cooldown cfg" "destinationAllowed (allowedDest cfg)"
    "modem_send r" modem_submissions
  for cfg and r :: "('w, 'd) radio"
  by unfold_locales

section \<open>Properties\<close>

text \<open>C19: WebSocket mode while its workers run: whatever requests the read loop handles and whenever the workers take
  their turns, each worker is for one request to an admitted destination, the modem is handed at most one SMS
  per worker that got an answer and at least one per worker that was told of success, one worker at a time is
  at the modem, and the requests accepted for one PDU in direct succession are the cooldown apart.\<close>

theorem session_system_sends:
  assumes "cooldown cfg \<le> max_duration"
    and "session_run (handleWSRequest cfg) pick (modem_send r) t0 st m es = (acc, s)"
  shows "modem_submissions m + successes s \<le> modem_submissions (modem s)
    \<and> modem_submissions (modem s) \<le> modem_submissions m + answers s
    \<and> answers s \<le> length acc \<and> length acc \<le> requests_in es \<and> map w_job (workers s) = map snd acc
    \<and> list_all (\<lambda>a. may_send (destinationAllowed (allowedDest cfg)) (snd a)) acc
    \<and> spaced (cooldown cfg) (map (map_prod id job_pdu) acc)
    \<and> (\<forall>i < length acc. at_modem (workers s ! i) \<longleftrightarrow> holder s = Some i)"
  using assms by (rule gateway_program.session_run_sends)

text \<open>Two requests with one PDU and the turns of the worker of the first.\<close>

theorem session_system_sends_witness:
  "let (acc, s) = session_run (handleWSRequest test_config) (\<lambda>_. ''rpm30'') (modem_send rejecting_radio) 0 init_relay
         quiet_world (Request test_plain # map Turn [0, 0] @ Request test_plain # map Turn [0, 0, 0, 0, 0]) in
     length acc = 1 \<and> modem_submissions (modem s) = 1"
proof -
  let ?es = "Request test_plain # map Turn [0, 0] @ Request test_plain # map Turn [0, 0, 0, 0, 0]"
  let ?run = "session_run (handleWSRequest test_config) (\<lambda>_. ''rpm30'') (modem_send rejecting_radio) 0 init_relay quiet_world ?es"
  have run: "?run = (fst ?run, snd ?run)"
    by simp
  have "cooldown test_config \<le> max_duration"
    by (simp add: test_config_def max_duration_def)
  note all = session_system_sends [OF this run]
  have "length (fst ?run) = 1"
    by code_simp
  moreover have "1 \<le> modem_submissions (modem (snd ?run))" "modem_submissions quiet_world = 0"
    by code_simp+
  ultimately have "length (fst ?run) = 1 \<and> modem_submissions (modem (snd ?run)) = 1"
    using all by linarith
  then show ?thesis
    by (simp add: case_prod_beta)
qed

end
