(* ===== verification/Deliveries.thy ===== *)
theory Deliveries
  imports Ws_Session
begin

text \<open>
  From the bytes of a connection to the job of a worker, through every layer of a front end: a POST
  whose JSON body carries a PDU, and a WebSocket session whose frames carry encrypted requests.
\<close>

section \<open>The webhook\<close>

text \<open>The body the panel posts, with any white space \<open>g\<close> between the tokens.\<close>

definition panel_body :: "string \<Rightarrow> string \<Rightarrow> json \<Rightarrow> string \<Rightarrow> string" where
  "panel_body g message ty pduHex =
     g @ print_json g (Object [(''message'', Text message), (''type'', ty), (''pdu'', Text pduHex)]) @ g"

lemma unmarshal_panel_body:
  assumes "list_all is_blank g" and "utf8_ok message" and "json_ok ty" and "floats_ok ty" and "depth ty < max_depth"
    and "list_all literal_char pduHex"
  shows "unmarshal_hook (bytes_of_string (panel_body g message ty pduHex)) =
    Some \<lparr>hk_message = message, hk_type = ty, hk_PDU = pduHex, hk_PDULength = 0\<rparr>"
proof -
  let ?ms = "[(''message'', Text message), (''type'', ty), (''pdu'', Text pduHex)]"
  have "json_ok (Object ?ms)"
    using assms literal_utf8 [of pduHex] literal_utf8 [of "''message''"] literal_utf8 [of "''type''"] literal_utf8 [of "''pdu''"]
    by (simp add: literal_char_def)
  moreover have "depth (Object ?ms) \<le> max_depth"
    using assms(5) by (simp add: max_depth_def)
  ultimately have "unmarshal hook_field r (bytes_of_string (g @ print_json g (Object ?ms) @ g)) = store_members hook_field ?ms r" for r
    by (rule unmarshal_print [OF _ assms(1)])
  then show ?thesis
    unfolding unmarshal_hook_def panel_body_def
    using assms(4) by (simp add: hook_field_def store_string_def store_any_def lower_char_def)
qed

text \<open>C3: A POST of a well-formed SMS-SUBMIT PDU as JSON to the secret path is answered with 200 and
  starts one worker with this PDU and the length that \<open>AT+CMGS\<close> wants, when the destination is
  admitted and the PDU is not within the cooldown; from the bytes of the connection on, whatever
  else the headers and the body hold.\<close>

theorem webhook_sends:
  assumes "submit_ok m" and "destinationAllowed (allowedDest cfg) (map hex_upper (dest m))"
    and "fst (claimPDU (cooldown cfg) (at_hook cl) (hex_encode (submit_bytes m)) (ddp st))"
    and "secret cfg \<noteq> []" and "list_all visible (secret cfg)" and "list_all good_header hs"
    and "list_all is_blank g" and "utf8_ok message" and "json_ok ty" and "floats_ok ty" and "depth ty < max_depth"
    and "length (panel_body g message ty (hex_encode (submit_bytes m))) \<le> 65536"
  shows "let conn = http_text ''POST'' (''/hook/'' @ secret cfg) hs
               (bytes_of_string (panel_body g message ty (hex_encode (submit_bytes m))));
             (reply, st') = serve cfg today cl peer conn st
         in reply = Some (response ''200 OK'' [])
            \<and> map (\<lambda>j. (job_pdu j, job_len j)) (jobs st')
              = map (\<lambda>j. (job_pdu j, job_len j)) (jobs st) @ [(hex_encode (submit_bytes m), int (length (tpdu m)))]
            \<and> ddp st' = \<lparr>lastPDU = hex_encode (submit_bytes m), lastSent = Some (at_hook cl)\<rparr>"
proof -
  let ?pdu = "hex_encode (submit_bytes m)" and ?path = "''/hook/'' @ secret cfg"
  let ?body = "bytes_of_string (panel_body g message ty ?pdu)"
  let ?hk = "\<lparr>hk_message = message, hk_type = ty, hk_PDU = ?pdu, hk_PDULength = 0\<rparr>"
  let ?info = "\<lparr>phone = map hex_upper (dest m), dcs = unat (coding m), atLength = length (tpdu m), mr = unat (msg_ref m)\<rparr>"
  have "list_all visible ''POST''" and "list_all visible ?path"
    using assms(5) by (simp_all add: visible_def)
  then obtain req where req: "read_http (reqlog cfg) peer (at_open cl) (at_headers cl) (at_body cl) (http_text ''POST'' ?path hs ?body) = Some req"
      "rq_method req = ''POST''" "rq_path req = ?path" "rq_body req = ?body"
    using read_http_text [of "''POST''" ?path hs ?body "reqlog cfg" peer "at_open cl" "at_headers cl" "at_body cl" "[]"] assms(6,12)
    by (auto simp: int_max_def)
  have ne: "?pdu \<noteq> []"
    by (simp add: submit_bytes_def hex_encode_def hex_byte_def)
  have "unmarshal_hook ?body = Some ?hk"
    using assms(7-11) by (intro unmarshal_panel_body) (simp_all add: hex_encode_literal)
  then have v: "hook_verdict cfg (at_hook cl) req (ddp st) = Queued ?hk ?info"
    using assms(1-3) ne by (simp add: hook_verdict_def req(4) decode_submit)
  have "matchSecretPath ?path ''/hook/'' (secret cfg)"
    using assms(4) by (simp add: matchSecretPath_iff)
  then have route: "route cfg today (at_hook cl) req st =
      (let (status, st) = handleHook cfg (at_hook cl) req st in ((status, []), st))"
    by (simp add: route_def req)
  let ?h = "handleHook cfg (at_hook cl) req st"
  note h = handleHook_verdict [of cfg "at_hook cl" req st, unfolded v verdict.case Let_def case_prod_beta]
  have "serve cfg today cl peer (http_text ''POST'' ?path hs ?body) st =
      (Some (response ''200 OK'' []), logRequest cfg (at_end cl) req ''200 OK'' (snd ?h))"
    using h unfolding serve_def req(1) route option.case by (simp add: Let_def case_prod_beta)
  then show ?thesis
    using h by (simp add: hook_job_def Let_def)
qed

theorem webhook_sends_witness:
  "let conn = http_text ''POST'' ''/hook/s3cret'' [(''Host'', ''a b'')]
        (bytes_of_string (panel_body '' '' ''on'' (Text ''1'') (hex_encode (submit_bytes test_submit))));
      (reply, st') = serve test_config None \<lparr>at_open = 0, at_headers = 0, at_body = 0, at_hook = 0, at_end = 0\<rparr> ''peer'' conn init_relay
   in map (\<lambda>j. (job_pdu j, job_len j)) (jobs st') = [(''0001000c9183902143658700000141'', 14)]"
proof -
  let ?cl = "\<lparr>at_open = 0, at_headers = 0, at_body = 0, at_hook = 0, at_end = 0\<rparr>"
  have pdu: "hex_encode (submit_bytes test_submit) = ''0001000c9183902143658700000141''" and len: "length (tpdu test_submit) = 14"
    by code_simp+
  have ok: "submit_ok test_submit"
    by (simp add: submit_ok_def test_submit_def)
  have size: "length (panel_body '' '' ''on'' (Text ''1'') (hex_encode (submit_bytes test_submit))) \<le> 65536"
    unfolding pdu by (simp add: panel_body_def quote_def escape_def)
  note webhook_sends [of test_submit test_config ?cl init_relay "[(''Host'', ''a b'')]" "'' ''" "''on''" "Text ''1''" None "''peer''"]
  then show ?thesis
    using ok size by (simp add: pdu len Let_def case_prod_beta test_config_def destinationAllowed_def claimPDU_def init_relay_def
        init_dedup_def good_header_def visible_def is_blank_def max_depth_def)
qed

section \<open>The WebSocket gateway\<close>

text \<open>
  The server sends a plain text as one binary message: padded, chained under some vector, encrypted, and
  cut into frames in any way, with keepalives between them.
\<close>

definition sends :: "(byte list \<Rightarrow> byte list) \<Rightarrow> frame list \<Rightarrow> byte list \<Rightarrow> bool" where
  "sends enc fs plain \<longleftrightarrow>
     (\<exists>iv ps. length iv = 16 \<and> ps \<noteq> [] \<and> concat ps = ws_encrypt enc iv plain \<and> carries fs (fragments opBinary ps)
        \<and> list_all (good_frame None) fs \<and> length (ws_encrypt enc iv plain) \<le> wsMaxPayload)"

lemma pings_append [simp]: "pings (a @ b) = pings a @ pings b"
  by (simp add: pings_def)

lemma stream_append [simp]: "stream mk (a @ b) = stream mk a @ stream mk b"
  by (simp add: stream_def)

lemma session_requests_none: "input c = [] \<Longrightarrow> session_requests env key c = []"
proof -
  have "readMessage c = (Inl ReadFailed, c)" if "input c = []"
    unfolding readMessage_def using that by (subst read_msg.simps) (simp add: readFrame_def read_full_def)
  then show "input c = [] \<Longrightarrow> session_requests env key c = []"
    by (subst session_requests.simps) simp
qed

lemma session_requests_sent:
  assumes "se_cipher env key = Some dec" and "\<And>b. length b = 16 \<Longrightarrow> length (enc b) = 16 \<and> dec (enc b) = b"
    and "list_all2 (sends enc) fss plains"
  shows "input c = stream None (concat fss) \<Longrightarrow> write_results c = map Written mks @ ws
    \<Longrightarrow> length mks = length (pings (concat fss)) \<Longrightarrow> map snd (session_requests env key c) = plains"
  using assms(3)
proof (induction fss plains arbitrary: c mks rule: list_all2_induct)
  case Nil
  then show ?case
    by (simp add: session_requests_none stream_def)
next
  case (Cons fs fss plain plains)
  obtain iv ps where iv: "length iv = 16" and ps: "ps \<noteq> []" "concat ps = ws_encrypt enc iv plain"
      "carries fs (fragments opBinary ps)" and good: "list_all (good_frame None) fs"
      and size: "length (ws_encrypt enc iv plain) \<le> wsMaxPayload"
    using Cons.hyps(1) by (auto simp: sends_def)
  let ?m = "take (length (pings fs)) mks" and ?r = "drop (length (pings fs)) mks"
  let ?c = "c\<lparr>input := stream None (concat fss), write_results := map Written ?r @ ws,
      frames_out := frames_out c @ pongs ?m (pings fs)\<rparr>"
  have "map Written mks @ ws = map Written ?m @ map Written ?r @ ws"
    by (simp flip: map_append append_assoc)
  then have read: "readMessage c = (Inr (opBinary, ws_encrypt enc iv plain), ?c)"
    unfolding readMessage_def ps(2) [symmetric]
    using Cons.prems ps size good
    by (intro read_msg_starts) simp_all
  have "map snd (session_requests env key ?c) = plains"
    using Cons.prems(3) by (intro Cons.IH [of _ ?r]) simp_all
  moreover have "wsDecrypt (se_cipher env) (ws_encrypt enc iv plain) key = Inr plain"
    using assms(1) iv assms(2) by (rule wsDecrypt_sealed)
  ultimately show ?case
    using read by (subst session_requests.simps) (simp add: opcodes)
qed

definition gateway_body :: "string \<Rightarrow> string \<Rightarrow> string" where
  "gateway_body g pduHex =
     g @ print_json g (Object [(''type'', Text ''pdu''), (''pdu'', Text pduHex)]) @ g"

lemma unmarshal_gateway_body:
  assumes "list_all is_blank g" and "list_all literal_char pduHex"
  shows "unmarshal_request (bytes_of_string (gateway_body g pduHex)) =
    Some \<lparr>ws_type = ''pdu'', ws_PDU = pduHex, ws_Length = None, ws_SMS = [], ws_Phone = []\<rparr>"
proof -
  let ?ms = "[(''type'', Text ''pdu''), (''pdu'', Text pduHex)]"
  have "json_ok (Object ?ms)"
    using assms literal_utf8 [of pduHex] literal_utf8 [of "''type''"] literal_utf8 [of "''pdu''"]
    by (simp add: literal_char_def)
  moreover have "depth (Object ?ms) \<le> max_depth"
    by (simp add: max_depth_def)
  ultimately have "unmarshal request_field r (bytes_of_string (g @ print_json g (Object ?ms) @ g)) = store_members request_field ?ms r" for r
    by (rule unmarshal_print [OF _ assms(1)])
  then show ?thesis
    unfolding unmarshal_request_def gateway_body_def
    by (simp add: request_field_def store_string_def lower_char_def)
qed

lemma session_delivers:
  assumes "se_cipher env key = Some dec" and "\<And>b. length b = 16 \<Longrightarrow> length (enc b) = 16 \<and> dec (enc b) = b"
    and "list_all2 (sends enc) fss plains" and "input c = stream None (concat fss)"
    and "write_results c = map Written mks @ ws" and "length mks = length (pings (concat fss))"
  shows "\<exists>ts. length ts = length plains \<and>
     same_sending (snd (snd (serve_loop cfg env key c st))) (handle_all (handleWSRequest cfg) (zip ts plains) st)"
proof -
  let ?rs = "session_requests env key c"
  have "map snd ?rs = plains"
    using assms by (rule session_requests_sent)
  then have rs: "zip (map fst ?rs) plains = ?rs" "length (map fst ?rs) = length plains"
    by (auto simp: zip_map_fst_snd)
  moreover have "same_sending st st"
    by (simp add: same_sending_def)
  then have "same_sending (snd (snd (serve_loop cfg env key c st))) (handle_all (handleWSRequest cfg) ?rs st)"
    by (rule serve_loop_refines)
  ultimately show ?thesis
    by metis
qed

text \<open>C22: A session handles exactly the requests the server sends, in order and each once, however
  they are cut into frames and mixed with keepalives, for any block cipher whose decryption undoes
  its encryption.\<close>

theorem gateway_delivers:
  assumes "se_cipher env key = Some dec" and "\<And>b. length b = 16 \<Longrightarrow> length (enc b) = 16 \<and> dec (enc b) = b"
    and "list_all2 (sends enc) fss plains" and "input c = stream None (concat fss)"
    and "write_results c = map Written mks @ ws" and "length mks = length (pings (concat fss))"
  shows "\<exists>ts. length ts = length plains \<and>
     same_sending (snd (snd (serve_loop cfg env key c st))) (handle_all (handleWSRequest cfg) (zip ts plains) st)"
  using assms by (rule session_delivers)

theorem gateway_delivers_witness:
  "\<exists>ts. length ts = 1 \<and> same_sending
     (snd (snd (serve_loop test_config test_env (replicate 16 7) test_conn init_relay)))
     (handle_all (handleWSRequest test_config) (zip ts [test_plain]) init_relay)"
proof -
  let ?enc = "\<lambda>b. xor_block (rev b) (replicate 16 7)" and ?fs = "[(opBinary, True, test_message)]"
  have size: "length test_message = 80"
    by code_simp
  have "sends ?enc ?fs test_plain"
    unfolding sends_def
  proof (intro exI conjI)
    show "concat [test_message] = ws_encrypt ?enc (replicate 16 1) test_plain"
      by (simp add: test_message_def)
    show "carries ?fs (fragments opBinary [test_message])"
      by (simp add: carries_def keepalive_def opcodes)
    show "list_all (good_frame None) ?fs"
      by (simp add: good_frame_def wsMaxPayload_def opcodes size)
  qed (use size in \<open>simp_all add: test_message_def wsMaxPayload_def\<close>)
  moreover have "length (xor_block (rev b) (replicate 16 7)) = 16
      \<and> rev (xor_block (xor_block (rev b) (replicate 16 7)) (replicate 16 7)) = b" if "length b = 16" for b :: "byte list"
    using that by (simp add: xor_block_twice)
  ultimately show ?thesis
    using gateway_delivers [of test_env "replicate 16 7" "\<lambda>b. rev (xor_block b (replicate 16 7))" ?enc "[?fs]" "[test_plain]" test_conn
        "[]" "[]" test_config init_relay]
    by (simp add: test_env_def toy_cipher_def test_conn_def pings_def opcodes)
qed

text \<open>C4: One request with a well-formed SMS-SUBMIT PDU, sent to a gateway that is not in the cooldown,
  starts one worker with this PDU and the length that \<open>AT+CMGS\<close> wants, when the destination is
  admitted: through the frames, the encryption, the JSON and the PDU.\<close>

theorem gateway_sends:
  assumes "se_cipher env key = Some dec" and "\<And>b. length b = 16 \<Longrightarrow> length (enc b) = 16 \<and> dec (enc b) = b"
    and "sends enc fs (bytes_of_string (gateway_body g (hex_encode (submit_bytes m))))" and "input c = stream None fs"
    and "write_results c = map Written mks @ ws" and "length mks = length (pings fs)"
    and "submit_ok m" and "destinationAllowed (allowedDest cfg) (map hex_upper (dest m))"
    and "list_all is_blank g" and "lastPDU (ddp st) \<noteq> hex_encode (submit_bytes m)"
  shows "let st' = snd (snd (serve_loop cfg env key c st)) in
     map (\<lambda>j. (job_pdu j, job_len j)) (jobs st')
       = map (\<lambda>j. (job_pdu j, job_len j)) (jobs st) @ [(hex_encode (submit_bytes m), int (length (tpdu m)))]
     \<and> lastPDU (ddp st') = hex_encode (submit_bytes m)"
proof -
  let ?pdu = "hex_encode (submit_bytes m)"
  let ?plain = "bytes_of_string (gateway_body g ?pdu)"
  have "list_all2 (sends enc) [fs] [?plain]"
    using assms(3) by simp
  then obtain ts where "length ts = 1"
      and same: "same_sending (snd (snd (serve_loop cfg env key c st))) (handle_all (handleWSRequest cfg) (zip ts [?plain]) st)"
    using session_delivers [OF assms(1,2), of "[fs]" "[?plain]" c mks ws cfg st] assms(4-6) by auto
  then obtain t where ts: "ts = [t]"
    by (cases ts) auto
  let ?req = "\<lparr>ws_type = ''pdu'', ws_PDU = ?pdu, ws_Length = None, ws_SMS = [], ws_Phone = []\<rparr>"
  let ?info = "\<lparr>phone = map hex_upper (dest m), dcs = unat (coding m), atLength = length (tpdu m), mr = unat (msg_ref m)\<rparr>"
  have "unmarshal_request ?plain = Some ?req"
    using assms(9) by (rule unmarshal_gateway_body) (rule hex_encode_literal)
  then have "ws_verdict_of cfg t ?plain (ddp st) = WsQueued ?req ?info"
    using assms(7,8,10) by (simp add: ws_verdict_of_def decode_submit claimPDU_def)
  note v = handleWSRequest_verdict [of cfg t ?plain st, unfolded this]
  show ?thesis
    using same v unfolding ts by (simp add: same_sending_def Let_def ws_job_def)
qed

text \<open>Half of the message, a ping, the other half.\<close>

definition test_sealed :: "byte list" where
  "test_sealed = ws_encrypt (\<lambda>b. xor_block (rev b) (replicate 16 7)) (replicate 16 1)
     (bytes_of_string (gateway_body '' '' (hex_encode (submit_bytes test_submit))))"

definition test_cut :: "frame list" where
  "test_cut = [(opBinary, False, take 40 test_sealed), (opPing, True, []), (opContinuation, True, drop 40 test_sealed)]"

theorem gateway_sends_witness:
  "map (\<lambda>j. (job_pdu j, job_len j))
     (jobs (snd (snd (serve_loop test_config test_env (replicate 16 7)
        \<lparr>input = stream None test_cut, frames_out = [], write_results = [Written [0, 0, 0, 0]]\<rparr> init_relay))))
   = [(''0001000c9183902143658700000141'', 14)]"
proof -
  let ?enc = "\<lambda>b. xor_block (rev b) (replicate 16 7)"
  let ?c = "\<lparr>input = stream None test_cut, frames_out = [], write_results = [Written [0, 0, 0, 0]]\<rparr>"
  have pdu: "hex_encode (submit_bytes test_submit) = ''0001000c9183902143658700000141''" and len: "length (tpdu test_submit) = 14"
    by code_simp+
  have size: "length test_sealed = 80"
    by code_simp
  have ok: "submit_ok test_submit"
    by (simp add: submit_ok_def test_submit_def)
  have "sends ?enc test_cut (bytes_of_string (gateway_body '' '' (hex_encode (submit_bytes test_submit))))"
    unfolding sends_def
  proof (intro exI conjI)
    show "concat [take 40 test_sealed, drop 40 test_sealed] =
        ws_encrypt ?enc (replicate 16 1) (bytes_of_string (gateway_body '' '' (hex_encode (submit_bytes test_submit))))"
      by (simp add: test_sealed_def)
    show "carries test_cut (fragments opBinary [take 40 test_sealed, drop 40 test_sealed])"
      by (simp add: test_cut_def carries_def keepalive_def opcodes)
    show "list_all (good_frame None) test_cut"
      by (simp add: test_cut_def good_frame_def wsMaxPayload_def opcodes size)
  qed (use size in \<open>simp_all add: test_sealed_def wsMaxPayload_def\<close>)
  moreover have "se_cipher test_env (replicate 16 7) = Some (\<lambda>b. rev (xor_block b (replicate 16 7)))"
    by (simp add: test_env_def toy_cipher_def)
  moreover have "length (xor_block (rev b) (replicate 16 7)) = 16
      \<and> rev (xor_block (xor_block (rev b) (replicate 16 7)) (replicate 16 7)) = b" if "length b = 16" for b :: "byte list"
    using that by (simp add: xor_block_twice)
  moreover have "length [[0, 0, 0, 0 :: byte]] = length (pings test_cut)"
    by (simp add: test_cut_def pings_def opcodes)
  ultimately show ?thesis
    using gateway_sends [of test_env "replicate 16 7" "\<lambda>b. rev (xor_block b (replicate 16 7))" ?enc test_cut "'' ''" test_submit ?c
        "[[0, 0, 0, 0]]" "[]" test_config init_relay] ok
    by (simp add: pdu len Let_def test_config_def destinationAllowed_def init_relay_def init_dedup_def is_blank_def)
qed

end
