(* ===== verification/Ws_Writers.thy ===== *)
theory Ws_Writers
  imports Ws_Frame
begin

text \<open>
  The write side of a WebSocket connection (\<^verbatim>\<open>ws.go\<close>): the read loop answers pings and the ticker of \<^verbatim>\<open>wsServe\<close>
  sends its own, both through \<^verbatim>\<open>writeFrame\<close>, which holds \<^verbatim>\<open>wmu\<close> while it draws a mask and makes one write
  for the header and one for the body. The writers take turns in any order; each turn does what one
  goroutine does up to its next blocking call. A failed write may have put out a part of its bytes. On a
  \<^verbatim>\<open>wss\<close> connection every later write then fails too, as \<^verbatim>\<open>crypto/tls\<close> keeps the error; on a plain TCP
  connection, whose deadline the next frame renews, a later write may succeed.
\<close>

section \<open>The goroutines\<close>

datatype write_stage = Waiting | MaskNext | BodyNext

text \<open>The frames a goroutine still has to write, each with the mask it will draw.\<close>

type_synonym outgoing = "byte list \<times> byte \<times> byte list"

record frame_writer =
  w_todo :: "outgoing list"
  w_stage :: write_stage

text \<open>\<open>w_log\<close> lists the frames whose \<^verbatim>\<open>writeFrame\<close> returned without an error, with the goroutine; \<open>w_broken\<close> is how many
  they were when a write failed for the first time.\<close>

record wire =
  w_tls :: bool
  w_out :: "byte list"
  w_lock :: "nat option"
  w_writers :: "frame_writer list"
  w_broken :: "nat option"
  w_log :: "(nat \<times> outgoing) list"

text \<open>The outcome of the call a turn makes: \<open>NoMask\<close> if \<^verbatim>\<open>randRead\<close> or the deadline fails before anything is written.\<close>

datatype turn_result = Wrote | Cut nat | NoMask

definition head_bytes :: "outgoing \<Rightarrow> byte list" where
  "head_bytes f = (case f of (mk, op, p) \<Rightarrow> frame_header (0x80 OR op) 0x80 (length p) @ mk)"

definition body_bytes :: "outgoing \<Rightarrow> byte list" where
  "body_bytes f = (case f of (mk, op, p) \<Rightarrow> xor_mask mk p)"

definition whole_frame :: "outgoing \<Rightarrow> byte list" where
  "whole_frame f = (case f of (mk, op, p) \<Rightarrow> frame_bytes mk op p)"

definition release :: "nat \<Rightarrow> outgoing list \<Rightarrow> wire \<Rightarrow> wire" where
  "release i todo s =
     s\<lparr>w_lock := None, w_writers := (w_writers s)[i := \<lparr>w_todo = todo, w_stage = Waiting\<rparr>]\<rparr>"

text \<open>Whether every further write fails.\<close>

definition write_blocked :: "wire \<Rightarrow> bool" where
  "write_blocked s \<longleftrightarrow> w_tls s \<and> w_broken s \<noteq> None"

text \<open>A write of the bytes \<open>b\<close>: \<open>None\<close> if it returns without an error, with the state after it.\<close>

definition put_bytes :: "byte list \<Rightarrow> turn_result \<Rightarrow> wire \<Rightarrow> bool \<times> wire" where
  "put_bytes b r s =
     (if write_blocked s then (False, s)
      else case r of
          Cut k \<Rightarrow> (False, s\<lparr>w_out := w_out s @ take k b,
            w_broken := Some (case w_broken s of None \<Rightarrow> length (w_log s) | Some n \<Rightarrow> n)\<rparr>)
        | _ \<Rightarrow> (True, s\<lparr>w_out := w_out s @ b\<rparr>))"

definition written :: "nat \<Rightarrow> outgoing \<Rightarrow> outgoing list \<Rightarrow> wire \<Rightarrow> wire" where
  "written i f todo s = (release i todo s)\<lparr>w_log := w_log s @ [(i, f)]\<rparr>"

definition wire_turn :: "nat \<times> turn_result \<Rightarrow> wire \<Rightarrow> wire" where
  "wire_turn t s =
     (let (i, r) = t in
      if i \<ge> length (w_writers s) then s
      else case w_todo (w_writers s ! i) of
          [] \<Rightarrow> s
        | f # todo \<Rightarrow>
            (case w_stage (w_writers s ! i) of
               Waiting \<Rightarrow>
                 if w_lock s = None
                 then s\<lparr>w_lock := Some i, w_writers := (w_writers s)[i := \<lparr>w_todo = f # todo, w_stage = MaskNext\<rparr>]\<rparr>
                 else s
             | MaskNext \<Rightarrow>
                 if r = NoMask then release i [] s
                 else
                   let (ok, s) = put_bytes (head_bytes f) r s in
                   if \<not> ok then release i [] s
                   else if body_bytes f = [] then written i f todo s
                   else s\<lparr>w_writers := (w_writers s)[i := \<lparr>w_todo = f # todo, w_stage = BodyNext\<rparr>]\<rparr>
             | BodyNext \<Rightarrow>
                 let (ok, s) = put_bytes (body_bytes f) r s in
                 if \<not> ok then release i [] s else written i f todo s))"

text \<open>
  The two goroutines of a session. The read loop writes the greeting of \<^verbatim>\<open>-ws-hello\<close> and then a pong per ping it
  reads; the ticker runs only if the interval \<^verbatim>\<open>-ws-ping\<close> is positive, and writes an empty ping at each tick.
\<close>

definition reader_frames :: "string \<Rightarrow> byte list \<Rightarrow> (byte list \<times> byte list) list \<Rightarrow> outgoing list" where
  "reader_frames hello mk answers =
     (if hello \<noteq> [] then [(mk, opText, bytes_of_string hello)] else []) @ map (\<lambda>(mk, p). (mk, opPong, p)) answers"

definition ticker_frames :: "int \<Rightarrow> byte list list \<Rightarrow> outgoing list" where
  "ticker_frames ping mks = (if ping > 0 then map (\<lambda>mk. (mk, opPing, [])) mks else [])"

definition wire_init :: "bool \<Rightarrow> outgoing list list \<Rightarrow> wire" where
  "wire_init tls todos =
     \<lparr>w_tls = tls, w_out = [], w_lock = None, w_writers = map (\<lambda>fs. \<lparr>w_todo = fs, w_stage = Waiting\<rparr>) todos,
      w_broken = None, w_log = []\<rparr>"

definition wire_run :: "bool \<Rightarrow> outgoing list list \<Rightarrow> (nat \<times> turn_result) list \<Rightarrow> wire" where
  "wire_run tls todos ts = fold wire_turn ts (wire_init tls todos)"

section \<open>The invariant\<close>

lemma whole_frame_split: "whole_frame f = head_bytes f @ body_bytes f"
  by (auto simp: whole_frame_def head_bytes_def body_bytes_def frame_bytes_def split: prod.splits)

text \<open>What is on the wire of the frame that is being written.\<close>

definition partial :: "wire \<Rightarrow> byte list" where
  "partial s =
     (case w_lock s of
        None \<Rightarrow> []
      | Some i \<Rightarrow>
          if w_stage (w_writers s ! i) = BodyNext then head_bytes (hd (w_todo (w_writers s ! i))) else [])"

definition bytes_of_log :: "(nat \<times> outgoing) list \<Rightarrow> byte list" where
  "bytes_of_log l = concat (map (\<lambda>(i, f). whole_frame f) l)"

lemma bytes_of_log_append [simp]: "bytes_of_log (l @ l') = bytes_of_log l @ bytes_of_log l'"
  by (simp add: bytes_of_log_def)

definition begins_frame :: "byte list \<Rightarrow> bool" where
  "begins_frame q \<longleftrightarrow> (\<exists>f. prefix q (whole_frame f))"

lemma begins_frameI: "prefix q (whole_frame f) \<Longrightarrow> begins_frame q"
  unfolding begins_frame_def by blast

text \<open>The frames written before a write failed, and what may follow them.\<close>

definition whole_count :: "wire \<Rightarrow> nat" where
  "whole_count s = (case w_broken s of None \<Rightarrow> length (w_log s) | Some n \<Rightarrow> n)"

definition out_ok :: "wire \<Rightarrow> bool" where
  "out_ok s \<longleftrightarrow> whole_count s \<le> length (w_log s)
     \<and> (\<exists>q. w_out s = bytes_of_log (take (whole_count s) (w_log s)) @ q
          \<and> (w_broken s = None \<longrightarrow> q = partial s)
          \<and> (w_tls s \<and> w_broken s \<noteq> None \<longrightarrow> whole_count s = length (w_log s) \<and> begins_frame q))"

definition lock_ok :: "wire \<Rightarrow> bool" where
  "lock_ok s \<longleftrightarrow>
     (\<forall>i < length (w_writers s).
        (w_stage (w_writers s ! i) \<noteq> Waiting) = (w_lock s = Some i)
        \<and> (w_stage (w_writers s ! i) \<noteq> Waiting \<longrightarrow> w_todo (w_writers s ! i) \<noteq> []))
     \<and> (\<forall>i. w_lock s = Some i \<longrightarrow> i < length (w_writers s))"

definition by_writer :: "nat \<Rightarrow> wire \<Rightarrow> outgoing list" where
  "by_writer i s = map snd (filter (\<lambda>x. fst x = i) (w_log s))"

definition order_ok :: "outgoing list list \<Rightarrow> wire \<Rightarrow> bool" where
  "order_ok todos s \<longleftrightarrow> length (w_writers s) = length todos
     \<and> (\<forall>i < length todos. \<exists>rest. todos ! i = by_writer i s @ rest
          \<and> (w_todo (w_writers s ! i) = rest \<or> w_todo (w_writers s ! i) = []))
     \<and> (\<forall>x \<in> set (w_log s). fst x < length todos)"

definition wire_ok :: "outgoing list list \<Rightarrow> wire \<Rightarrow> bool" where
  "wire_ok todos s \<longleftrightarrow> out_ok s \<and> lock_ok s \<and> order_ok todos s"

lemma wire_ok_init: "wire_ok todos (wire_init tls todos)"
  by (simp add: wire_ok_def out_ok_def lock_ok_def order_ok_def wire_init_def bytes_of_log_def whole_count_def partial_def by_writer_def)

lemma release_lock: "lock_ok s \<Longrightarrow> w_lock s = Some i \<Longrightarrow> lock_ok (release i todo s)"
  by (auto simp: lock_ok_def release_def nth_list_update)

lemma release_order:
  "order_ok todos s \<Longrightarrow> i < length todos \<Longrightarrow> order_ok todos (release i [] s)"
  by (auto simp: order_ok_def release_def by_writer_def nth_list_update)

lemma by_writer_written:
  "by_writer j (written i f todo s) = by_writer j s @ (if j = i then [f] else [])"
  by (simp add: by_writer_def written_def release_def)

lemma written_order:
  assumes "order_ok todos s" and "i < length todos" and "w_todo (w_writers s ! i) = f # todo"
  shows "order_ok todos (written i f todo s)"
  unfolding order_ok_def
proof (intro conjI allI impI ballI)
  show "length (w_writers (written i f todo s)) = length todos"
    using assms(1) by (simp add: order_ok_def written_def release_def)
  show "fst x < length todos" if "x \<in> set (w_log (written i f todo s))" for x
    using that assms(1,2) by (auto simp: order_ok_def written_def release_def)
next
  fix j assume j: "j < length todos"
  obtain rest where rest: "todos ! j = by_writer j s @ rest"
      "w_todo (w_writers s ! j) = rest \<or> w_todo (w_writers s ! j) = []"
    using assms(1) j by (auto simp: order_ok_def)
  have len: "length (w_writers s) = length todos"
    using assms(1) by (simp add: order_ok_def)
  show "\<exists>rest. todos ! j = by_writer j (written i f todo s) @ rest
      \<and> (w_todo (w_writers (written i f todo s) ! j) = rest \<or> w_todo (w_writers (written i f todo s) ! j) = [])"
  proof (cases "j = i")
    case True
    with rest assms(3) len j show ?thesis
      unfolding by_writer_written by (auto simp: written_def release_def)
  next
    case False
    with rest show ?thesis
      unfolding by_writer_written by (auto simp: written_def release_def)
  qed
qed

lemma wire_frame [simp]:
  "lock_ok (s\<lparr>w_out := b\<rparr>) = lock_ok s" "order_ok todos (s\<lparr>w_out := b\<rparr>) = order_ok todos s"
  "lock_ok (s\<lparr>w_broken := c\<rparr>) = lock_ok s" "order_ok todos (s\<lparr>w_broken := c\<rparr>) = order_ok todos s"
  by (simp_all add: lock_ok_def order_ok_def by_writer_def)

text \<open>The stream goes on: bytes are added, and perhaps the frame in hand is complete or given up.\<close>

lemma out_ok_whole: "out_ok s \<Longrightarrow> w_broken s = None \<Longrightarrow> w_out s = bytes_of_log (w_log s) @ partial s"
  by (simp add: out_ok_def whole_count_def)

lemma out_okI_whole: "w_broken s = None \<Longrightarrow> w_out s = bytes_of_log (w_log s) @ partial s \<Longrightarrow> out_ok s"
  by (simp add: out_ok_def whole_count_def)

lemma out_okI_broken:
  assumes "out_ok s" and "w_broken s \<noteq> None" and "w_tls s \<Longrightarrow> b = [] \<and> l = []"
    and "w_tls s' = w_tls s" "w_out s' = w_out s @ b" "w_broken s' = w_broken s" "w_log s' = w_log s @ l"
  shows "out_ok s'"
proof -
  have n: "whole_count s' = whole_count s" "whole_count s \<le> length (w_log s)"
    using assms by (auto simp: whole_count_def out_ok_def)
  from assms(1) obtain q where q: "w_out s = bytes_of_log (take (whole_count s) (w_log s)) @ q"
      "w_tls s \<and> w_broken s \<noteq> None \<longrightarrow> whole_count s = length (w_log s) \<and> begins_frame q"
    unfolding out_ok_def by blast
  with n assms(2-) show ?thesis
    unfolding out_ok_def by (intro conjI exI [of _ "q @ b"]) auto
qed

lemma out_okI_cut:
  assumes "out_ok s" and "w_broken s = None" and "begins_frame (partial s @ b)"
    and "w_out s' = w_out s @ b" "w_broken s' = Some (length (w_log s))" "w_log s' = w_log s"
  shows "out_ok s'"
  using assms out_ok_whole [OF assms(1,2)] by (simp add: out_ok_def whole_count_def)

text \<open>What a turn of the goroutine that holds the lock may do: give up before it writes, fail in a write after a part of
  it, complete its frame, or go on to the body.\<close>

lemma wire_ok_give_up:
  assumes "wire_ok todos s" and "w_lock s = Some i" and "w_stage (w_writers s ! i) = MaskNext \<or> w_broken s \<noteq> None"
    and "i < length todos"
  shows "wire_ok todos (release i [] s)"
proof -
  have "out_ok (release i [] s)"
  proof (cases "w_broken s")
    case None
    with assms show ?thesis
      using out_ok_whole [of s] by (intro out_okI_whole) (simp_all add: wire_ok_def release_def partial_def)
  next
    case (Some n)
    show ?thesis
      by (rule out_okI_broken [of s "[]" "[]"]) (use Some assms in \<open>simp_all add: wire_ok_def release_def\<close>)
  qed
  then show ?thesis
    using assms release_lock release_order by (auto simp: wire_ok_def)
qed

definition cut_write :: "byte list \<Rightarrow> wire \<Rightarrow> wire" where
  "cut_write b s = s\<lparr>w_out := w_out s @ b, w_broken := Some (whole_count s)\<rparr>"

lemma wire_ok_cut:
  assumes "wire_ok todos s" and "w_lock s = Some i" and "\<not> write_blocked s" and "i < length todos"
    and "prefix (partial s @ b) (whole_frame f)"
  shows "wire_ok todos (release i [] (cut_write b s))"
proof -
  have "out_ok (cut_write b s)"
  proof (cases "w_broken s")
    case None
    show ?thesis
      by (rule out_okI_cut [of s b])
        (use None assms(1) begins_frameI [OF assms(5)] in \<open>simp_all add: wire_ok_def cut_write_def whole_count_def\<close>)
  next
    case (Some n)
    show ?thesis
      by (rule out_okI_broken [of s b "[]"])
        (use Some assms(1,3) in \<open>simp_all add: wire_ok_def cut_write_def whole_count_def write_blocked_def\<close>)
  qed
  then show ?thesis
    using assms(1,2,4) by (intro wire_ok_give_up) (auto simp: wire_ok_def cut_write_def)
qed

lemma wire_ok_written:
  assumes "wire_ok todos s" and "w_lock s = Some i" and "\<not> write_blocked s" and "i < length todos"
    and "w_todo (w_writers s ! i) = f # todo" and "w_broken s = None \<Longrightarrow> partial s @ b = whole_frame f"
  shows "wire_ok todos (written i f todo (s\<lparr>w_out := w_out s @ b\<rparr>))"
proof -
  let ?s = "s\<lparr>w_out := w_out s @ b\<rparr>"
  have "lock_ok (written i f todo ?s)"
    using release_lock [of ?s i todo] assms(1,2) by (simp add: wire_ok_def written_def lock_ok_def)
  moreover have "order_ok todos (written i f todo ?s)"
    using assms(1,4,5) by (intro written_order) (simp_all add: wire_ok_def)
  moreover have "out_ok (written i f todo ?s)"
  proof (cases "w_broken s")
    case None
    with assms(1,6) show ?thesis
      using out_ok_whole [of s]
      by (intro out_okI_whole) (simp_all add: wire_ok_def written_def release_def bytes_of_log_def partial_def [of "_\<lparr>w_log := _\<rparr>"])
  next
    case (Some n)
    show ?thesis
      by (rule out_okI_broken [of s b "[(i, f)]"])
        (use Some assms(1,3) in \<open>simp_all add: wire_ok_def written_def release_def write_blocked_def\<close>)
  qed
  ultimately show ?thesis
    by (simp add: wire_ok_def)
qed

lemma wire_ok_stage:
  assumes "wire_ok todos s" and "i < length todos" and "w_todo (w_writers s ! i) = fs" and "fs \<noteq> []" and "st \<noteq> Waiting"
    and "w_lock s = None \<or> w_lock s = Some i"
    and "w_broken s = None \<Longrightarrow> partial s @ b = (if st = BodyNext then head_bytes (hd fs) else [])"
    and "write_blocked s \<Longrightarrow> b = []"
  shows "wire_ok todos (s\<lparr>w_out := w_out s @ b, w_lock := Some i, w_writers := (w_writers s)[i := \<lparr>w_todo = fs, w_stage = st\<rparr>]\<rparr>)"
proof -
  let ?s = "s\<lparr>w_out := w_out s @ b, w_lock := Some i, w_writers := (w_writers s)[i := \<lparr>w_todo = fs, w_stage = st\<rparr>]\<rparr>"
  have len: "i < length (w_writers s)"
    using assms(1,2) by (simp add: wire_ok_def order_ok_def)
  have "lock_ok ?s"
    using assms(1,4,5,6) len by (auto simp: wire_ok_def lock_ok_def nth_list_update)
  moreover have "w_todo ((w_writers s)[i := \<lparr>w_todo = fs, w_stage = st\<rparr>] ! j) = w_todo (w_writers s ! j)" for j
    using assms(3) len by (cases "j = i") simp_all
  then have "order_ok todos ?s"
    using assms(1) by (simp add: wire_ok_def order_ok_def by_writer_def)
  moreover have "out_ok ?s"
  proof (cases "w_broken s")
    case None
    with assms(1,7) len show ?thesis
      using out_ok_whole [of s] by (intro out_okI_whole) (auto simp: wire_ok_def partial_def [of "_\<lparr>w_writers := _\<rparr>"])
  next
    case (Some n)
    show ?thesis
      by (rule out_okI_broken [of s b "[]"]) (use Some assms(1,8) in \<open>simp_all add: wire_ok_def write_blocked_def\<close>)
  qed
  ultimately show ?thesis
    by (simp add: wire_ok_def)
qed

lemma same_lock:
  "w_lock s = Some i \<Longrightarrow> s\<lparr>w_out := b, w_writers := c\<rparr> = s\<lparr>w_out := b, w_lock := Some i, w_writers := c\<rparr>"
  by (cases s) simp

lemma wire_ok_turn:
  assumes "wire_ok todos s"
  shows "wire_ok todos (wire_turn (i, r) s)"
proof (cases "i < length (w_writers s) \<and> w_todo (w_writers s ! i) \<noteq> []")
  case False
  then have "wire_turn (i, r) s = s"
    by (auto simp: wire_turn_def)
  with assms show ?thesis
    by simp
next
  case True
  obtain f todo where i: "i < length (w_writers s)" and todo: "w_todo (w_writers s ! i) = f # todo"
    using True by (cases "w_todo (w_writers s ! i)") auto
  have it: "i < length todos" and lock: "lock_ok s"
    using assms i by (simp_all add: wire_ok_def order_ok_def)
  note turn = wire_turn_def Let_def prod.case put_bytes_def
  show ?thesis
  proof (cases "w_stage (w_writers s ! i)")
    case Waiting
    then have "w_lock s = None \<Longrightarrow> partial s = []"
      by (simp add: partial_def)
    with Waiting i todo show ?thesis
      using assms wire_ok_stage [OF assms it todo, of MaskNext "[]"] by (auto simp: turn)
  next
    case MaskNext
    then have held: "w_lock s = Some i" and part: "partial s = []"
      using lock i by (auto simp: lock_ok_def partial_def)
    have cut: "wire_ok todos (release i [] (cut_write (take k (head_bytes f)) s))" if "\<not> write_blocked s" for k
      by (rule wire_ok_cut [OF assms held that it, of _ f]) (auto simp: part whole_frame_split take_is_prefix intro: prefix_prefix)
    have finish: "wire_ok todos (written i f todo (s\<lparr>w_out := w_out s @ head_bytes f\<rparr>))"
      if "\<not> write_blocked s" "body_bytes f = []"
      using that(2) by (intro wire_ok_written [OF assms held that(1) it todo]) (simp add: part whole_frame_split)
    have body: "wire_ok todos (s\<lparr>w_out := w_out s @ head_bytes f, w_writers := (w_writers s)[i := \<lparr>w_todo = f # todo, w_stage = BodyNext\<rparr>]\<rparr>)"
      if "\<not> write_blocked s"
      using wire_ok_stage [OF assms it todo, of BodyNext "head_bytes f"] that
      by (simp add: held part same_lock [OF held])
    have "wire_ok todos (release i [] s)"
      using MaskNext by (intro wire_ok_give_up [OF assms held _ it]) simp
    with i todo MaskNext cut finish body show ?thesis
      by (cases r; cases "write_blocked s") (simp_all add: turn cut_write_def whole_count_def)
  next
    case BodyNext
    then have held: "w_lock s = Some i" and part: "partial s = head_bytes f"
      using lock i todo by (auto simp: lock_ok_def partial_def)
    have cut: "wire_ok todos (release i [] (cut_write (take k (body_bytes f)) s))" if "\<not> write_blocked s" for k
      by (rule wire_ok_cut [OF assms held that it, of _ f]) (simp add: part whole_frame_split take_is_prefix)
    have finish: "wire_ok todos (written i f todo (s\<lparr>w_out := w_out s @ body_bytes f\<rparr>))" if "\<not> write_blocked s"
      by (rule wire_ok_written [OF assms held that it todo]) (simp add: part whole_frame_split)
    have "wire_ok todos (release i [] s)" if "write_blocked s"
      using that by (intro wire_ok_give_up [OF assms held _ it]) (simp add: write_blocked_def)
    with i todo BodyNext cut finish show ?thesis
      by (cases r; cases "write_blocked s") (simp_all add: turn cut_write_def whole_count_def)
  qed
qed

lemma wire_ok_run: "wire_ok todos (wire_run tls todos ts)"
proof -
  have "wire_ok todos s \<Longrightarrow> wire_ok todos (fold wire_turn ts s)" for s
    by (induction ts arbitrary: s) (auto simp: wire_ok_turn)
  then show ?thesis
    unfolding wire_run_def using wire_ok_init by blast
qed

lemma w_tls_run [simp]: "w_tls (wire_run tls todos ts) = tls"
proof -
  have "w_tls (wire_turn x s) = w_tls s" for x s
    by (auto simp: wire_turn_def put_bytes_def release_def written_def Let_def split: prod.split list.split write_stage.split turn_result.split)
  then have "w_tls (fold wire_turn ts s) = w_tls s" for s
    by (induction ts arbitrary: s) simp_all
  then show ?thesis
    by (simp add: wire_run_def wire_init_def)
qed

lemma wire_ok_whole:
  assumes "wire_ok todos s"
  shows "\<exists>q. w_out s = bytes_of_log (take (whole_count s) (w_log s)) @ q
    \<and> (w_tls s \<or> w_broken s = None \<longrightarrow> whole_count s = length (w_log s) \<and> begins_frame q)
    \<and> (w_broken s = None \<and> w_lock s = None \<longrightarrow> q = [])"
proof -
  have "begins_frame (partial s)"
    by (rule begins_frameI [of _ "hd (w_todo (w_writers s ! the (w_lock s)))"])
      (auto simp: partial_def whole_frame_split split: option.split)
  moreover have "w_lock s = None \<Longrightarrow> partial s = []"
    by (simp add: partial_def)
  moreover have "w_broken s = None \<Longrightarrow> whole_count s = length (w_log s)"
    by (simp add: whole_count_def)
  ultimately show ?thesis
    using assms unfolding wire_ok_def out_ok_def by (cases "w_broken s") auto
qed

lemma by_writer_prefix: "wire_ok todos s \<Longrightarrow> prefix (by_writer i s) (if i < length todos then todos ! i else [])"
proof (cases "i < length todos")
  case False
  assume "wire_ok todos s"
  with False have "by_writer i s = []"
    by (auto simp: wire_ok_def order_ok_def by_writer_def filter_empty_conv)
  with False show ?thesis
    by simp
qed (auto simp: wire_ok_def order_ok_def prefix_def)

section \<open>What the server reads\<close>

primrec read_frames :: "nat \<Rightarrow> byte list \<Rightarrow> (frame list \<times> byte list) option" where
  "read_frames 0 s = Some ([], s)"
| "read_frames (Suc n) s =
     (case readFrame s of
        Inl e \<Rightarrow> None
      | Inr (f, s) \<Rightarrow> map_option (apfst ((#) f)) (read_frames n s))"

definition good_outgoing :: "outgoing \<Rightarrow> bool" where
  "good_outgoing f \<longleftrightarrow> (case f of (mk, op, p) \<Rightarrow> length mk = 4 \<and> op AND 0x0F = op \<and> length p \<le> 65536)"

definition frame_of :: "outgoing \<Rightarrow> frame" where
  "frame_of f = (case f of (mk, op, p) \<Rightarrow> (op, True, p))"

lemma read_whole_frames:
  "list_all good_outgoing fs \<Longrightarrow> read_frames (length fs) (concat (map whole_frame fs) @ q) = Some (map frame_of fs, q)"
proof (induction fs)
  case (Cons f fs)
  obtain mk op p where f: "f = (mk, op, p)"
    by (cases f)
  have "good_frame (Some mk) (op, True, p)"
    using Cons.prems by (simp add: f good_outgoing_def good_frame_def wsMaxPayload_def)
  moreover have "whole_frame f = enc_frame (Some mk) (op, True, p)" and "frame_of f = (op, True, p)"
    by (simp_all add: f whole_frame_def frame_bytes_enc frame_of_def)
  ultimately show ?case
    using Cons by (simp add: readFrame_enc)
qed simp

lemma written_read_back:
  assumes "list_all (list_all good_outgoing) todos"
  shows "let s = wire_run tls todos ts; n = whole_count s in
     (\<exists>q. read_frames n (w_out s) = Some (map (\<lambda>(i, f). frame_of f) (take n (w_log s)), q)
        \<and> (tls \<or> w_broken s = None \<longrightarrow> n = length (w_log s) \<and> begins_frame q)
        \<and> (w_broken s = None \<and> w_lock s = None \<longrightarrow> q = []))
     \<and> (\<forall>i. prefix (by_writer i s) (if i < length todos then todos ! i else []))"
proof -
  let ?s = "wire_run tls todos ts"
  let ?l = "take (whole_count ?s) (w_log ?s)"
  have ok: "wire_ok todos ?s"
    by (rule wire_ok_run)
  have "good_outgoing f" if "(i, f) \<in> set (w_log ?s)" for i f
  proof -
    have "f \<in> set (by_writer i ?s)"
      using that by (force simp: by_writer_def)
    moreover have "i < length todos"
      using ok that by (auto simp: wire_ok_def order_ok_def)
    moreover have "set (by_writer i ?s) \<subseteq> set (if i < length todos then todos ! i else [])"
      using by_writer_prefix [OF ok, of i] by (rule set_mono_prefix)
    moreover have "i < length todos \<Longrightarrow> list_all good_outgoing (todos ! i)"
      using assms by (simp add: list_all_length)
    ultimately show ?thesis
      by (auto simp: list_all_iff)
  qed
  then have "list_all good_outgoing (map snd ?l)"
    by (auto simp: list_all_iff dest: in_set_takeD)
  from read_whole_frames [OF this]
  have read: "read_frames (length ?l) (bytes_of_log ?l @ q) = Some (map (\<lambda>(i, f). frame_of f) ?l, q)" for q
    by (simp add: bytes_of_log_def split_def comp_def)
  have "length ?l = whole_count ?s"
    using ok by (simp add: wire_ok_def out_ok_def)
  with read have "read_frames (whole_count ?s) (bytes_of_log ?l @ q) = Some (map (\<lambda>(i, f). frame_of f) ?l, q)" for q
    by metis
  moreover obtain q where q: "w_out ?s = bytes_of_log ?l @ q"
      "tls \<or> w_broken ?s = None \<longrightarrow> whole_count ?s = length (w_log ?s) \<and> begins_frame q"
      "w_broken ?s = None \<and> w_lock ?s = None \<longrightarrow> q = []"
    using wire_ok_whole [OF ok] by auto
  ultimately have "read_frames (whole_count ?s) (w_out ?s) = Some (map (\<lambda>(i, f). frame_of f) ?l, q)"
    by simp
  note ex = exI [of "\<lambda>q. read_frames (whole_count ?s) (w_out ?s) = Some (map (\<lambda>(i, f). frame_of f) ?l, q)
      \<and> (tls \<or> w_broken ?s = None \<longrightarrow> whole_count ?s = length (w_log ?s) \<and> begins_frame q)
      \<and> (w_broken ?s = None \<and> w_lock ?s = None \<longrightarrow> q = [])", OF conjI [OF this conjI [OF q(2,3)]]]
  show ?thesis
    unfolding Let_def by (intro conjI allI ex by_writer_prefix [OF ok])
qed

lemma good_session:
  assumes "length mk = 4" and "length hello \<le> 65536" and "list_all (\<lambda>(m, p). length m = 4 \<and> length p \<le> 65536) answers"
    and "list_all (\<lambda>m. length m = 4) mks"
  shows "list_all (list_all good_outgoing) [reader_frames hello mk answers, ticker_frames ping mks]"
  using assms
  by (auto simp: reader_frames_def ticker_frames_def good_outgoing_def list_all_iff opText_def opPong_def opPing_def)

text \<open>C24: However the turns of the goroutines interleave: as long as no write has failed, and on a TLS connection wherever
  a write fails, the server reads exactly the frames that were written without an error, whole and unmixed,
  each goroutine's in its order; after them there is at most the beginning of one more frame, and nothing
  while nobody writes. On a plain connection that holds for the frames written before the first failure.\<close>

theorem wire_read_back:
  assumes "length mk = 4" and "length hello \<le> 65536" and "list_all (\<lambda>(m, p). length m = 4 \<and> length p \<le> 65536) answers"
    and "list_all (\<lambda>m. length m = 4) mks"
  shows "let todos = [reader_frames hello mk answers, ticker_frames ping mks]; s = wire_run tls todos ts;
             n = (case w_broken s of None \<Rightarrow> length (w_log s) | Some n \<Rightarrow> n) in
     (\<exists>q. read_frames n (w_out s) = Some (map (\<lambda>(i, f). frame_of f) (take n (w_log s)), q)
        \<and> (tls \<or> w_broken s = None \<longrightarrow> n = length (w_log s) \<and> begins_frame q)
        \<and> (w_broken s = None \<and> w_lock s = None \<longrightarrow> q = []))
     \<and> prefix (by_writer 0 s) (todos ! 0) \<and> prefix (by_writer 1 s) (todos ! 1)"
proof -
  note both = written_read_back [OF good_session [OF assms], of tls ping ts, unfolded Let_def whole_count_def]
  from conjunct2 [OF both, rule_format, of 0] conjunct2 [OF both, rule_format, of 1] conjunct1 [OF both]
  show ?thesis
    by (simp only: Let_def list.size nth_Cons_0 nth_Cons_Suc One_nat_def) simp
qed

lemma body_bytes_Nil: "body_bytes (mk, op, p) = [] \<longleftrightarrow> p = []"
  using length_xor_mask [of mk p] by (cases p) (auto simp: body_bytes_def simp flip: length_0_conv)

text \<open>A pong of the read loop and a ping of the ticker, in a schedule in which each waits for the other.\<close>

lemma demo_turns:
  assumes "body_bytes f \<noteq> []" and "body_bytes g = []"
  shows "wire_run tls [[f], [g]] [(0, Wrote), (1, Wrote), (0, Wrote), (1, Wrote), (0, Wrote), (1, Wrote), (1, Wrote)]
    = \<lparr>w_tls = tls, w_out = head_bytes f @ body_bytes f @ head_bytes g, w_lock = None,
       w_writers = [\<lparr>w_todo = [], w_stage = Waiting\<rparr>, \<lparr>w_todo = [], w_stage = Waiting\<rparr>], w_broken = None,
       w_log = [(0, f), (1, g)]\<rparr>"
proof -
  note turn = wire_turn_def put_bytes_def write_blocked_def written_def release_def assms
  define s where "s b l u v lg = \<lparr>w_tls = tls, w_out = b, w_lock = l, w_writers = [u, v], w_broken = None, w_log = lg\<rparr>" for b l u v lg
  let ?f = "\<lambda>st. \<lparr>w_todo = [f], w_stage = st\<rparr>" and ?g = "\<lambda>st. \<lparr>w_todo = [g], w_stage = st\<rparr>"
  let ?e = "\<lparr>w_todo = [], w_stage = Waiting\<rparr>"
  have "wire_turn (0, Wrote) (s [] None (?f Waiting) (?g Waiting) []) = s [] (Some 0) (?f MaskNext) (?g Waiting) []"
    and "wire_turn (1, Wrote) (s [] (Some 0) (?f MaskNext) (?g Waiting) []) = s [] (Some 0) (?f MaskNext) (?g Waiting) []"
    and "wire_turn (0, Wrote) (s [] (Some 0) (?f MaskNext) (?g Waiting) []) = s (head_bytes f) (Some 0) (?f BodyNext) (?g Waiting) []"
    and "wire_turn (1, Wrote) (s (head_bytes f) (Some 0) (?f BodyNext) (?g Waiting) []) = s (head_bytes f) (Some 0) (?f BodyNext) (?g Waiting) []"
    and "wire_turn (0, Wrote) (s (head_bytes f) (Some 0) (?f BodyNext) (?g Waiting) []) = s (head_bytes f @ body_bytes f) None ?e (?g Waiting) [(0, f)]"
    and "wire_turn (1, Wrote) (s (head_bytes f @ body_bytes f) None ?e (?g Waiting) [(0, f)]) = s (head_bytes f @ body_bytes f) (Some 1) ?e (?g MaskNext) [(0, f)]"
    and "wire_turn (1, Wrote) (s (head_bytes f @ body_bytes f) (Some 1) ?e (?g MaskNext) [(0, f)]) = s (head_bytes f @ body_bytes f @ head_bytes g) None ?e ?e [(0, f), (1, g)]"
    by (simp_all add: turn s_def)
  moreover have "wire_init tls [[f], [g]] = s [] None (?f Waiting) (?g Waiting) []"
    by (simp add: wire_init_def s_def)
  ultimately show ?thesis
    unfolding wire_run_def by (simp add: s_def)
qed

theorem wire_read_back_witness:
  "let s = wire_run True [reader_frames [] [] [([1, 2, 3, 4], [0xAA, 0xBB])], ticker_frames 30 [[5, 6, 7, 8]]]
         [(0, Wrote), (1, Wrote), (0, Wrote), (1, Wrote), (0, Wrote), (1, Wrote), (1, Wrote)]
   in read_frames 2 (w_out s) = Some ([(opPong, True, [0xAA, 0xBB]), (opPing, True, [])], [])"
proof -
  have frames: "reader_frames [] mk [([1, 2, 3, 4], [0xAA, 0xBB])] = [([1, 2, 3, 4], opPong, [0xAA, 0xBB])]"
      "ticker_frames 30 [[5, 6, 7, 8]] = [([5, 6, 7, 8], opPing, [])]" for mk
    by (simp_all add: reader_frames_def ticker_frames_def)
  note wire_read_back [of "[0, 0, 0, 0]" "[]" "[([1, 2, 3, 4], [0xAA, 0xBB])]" "[[5, 6, 7, 8]]" 30 True
      "[(0, Wrote), (1, Wrote), (0, Wrote), (1, Wrote), (0, Wrote), (1, Wrote), (1, Wrote)]"]
  moreover note demo_turns [of "([1, 2, 3, 4], opPong, [0xAA, 0xBB])" "([5, 6, 7, 8], opPing, [])"]
  ultimately show ?thesis
    unfolding frames by (simp add: body_bytes_Nil frame_of_def Let_def numeral_2_eq_2)
qed

text \<open>On a plain connection the failure of a ping is not seen by the read loop, contrary to the comment in the ticker:
  a ping that times out after \<open>k\<close> bytes is followed by the pong, so the server takes bytes of the pong for
  the rest of the ping.\<close>

lemma plain_write_mixes:
  assumes "body_bytes f \<noteq> []"
  shows "w_out (wire_run False [[f], [g]] [(1, Wrote), (1, Cut k), (0, Wrote), (0, Wrote), (0, Wrote)])
    = take k (head_bytes g) @ whole_frame f"
  using assms
  by (simp add: wire_run_def wire_init_def wire_turn_def put_bytes_def write_blocked_def written_def release_def whole_frame_split)

end
