(* ===== verification/Go_Path.thy ===== *)
theory Go_Path
  imports Go_Strings
begin

text \<open>
  The functions of Go's \<^verbatim>\<open>path/filepath\<close> that the program calls, which work on the text of a path alone,
  and the file names they give: the identity file (\<^verbatim>\<open>ws.go\<close>) and the debug log.
\<close>

text \<open>
  \<^verbatim>\<open>filepath.Clean\<close>: empty elements and \<open>.\<close> are dropped, and \<open>..\<close> drops the element before it; above a root
  it is dropped itself. \<open>acc\<close> holds the elements kept, the last first.
\<close>

fun clean_parts :: "bool \<Rightarrow> string list \<Rightarrow> string list \<Rightarrow> string list" where
  "clean_parts rooted acc [] = rev acc"
| "clean_parts rooted acc (w # ws) =
     (if w = [] \<or> w = ''.'' then clean_parts rooted acc ws
      else if w = ''..'' then
        clean_parts rooted
          (case acc of
             [] \<Rightarrow> if rooted then [] else [''..'']
           | a # as \<Rightarrow> if a = ''..'' then ''..'' # acc else as) ws
      else clean_parts rooted (w # acc) ws)"

definition rooted_path :: "string \<Rightarrow> bool" where
  "rooted_path p \<longleftrightarrow> p \<noteq> [] \<and> hd p = CHR ''/''"

definition path_parts :: "string \<Rightarrow> string list" where
  "path_parts p = clean_parts (rooted_path p) [] (split_on (CHR ''/'') p)"

definition unsplit_path :: "bool \<Rightarrow> string list \<Rightarrow> string" where
  "unsplit_path rooted ps =
     (if rooted then CHR ''/'' # join_with ''/'' ps else if ps = [] then ''.'' else join_with ''/'' ps)"

definition clean_path :: "string \<Rightarrow> string" where
  "clean_path p = unsplit_path (rooted_path p) (path_parts p)"

text \<open>\<^verbatim>\<open>filepath.Join\<close> skips the empty elements before the first that is not.\<close>

definition join_path :: "string list \<Rightarrow> string" where
  "join_path es =
     (case dropWhile (\<lambda>e. e = []) es of [] \<Rightarrow> [] | e # es \<Rightarrow> clean_path (join_with ''/'' (e # es)))"

text \<open>\<^verbatim>\<open>filepath.Base\<close>.\<close>

definition base_path :: "string \<Rightarrow> string" where
  "base_path p =
     (if p = [] then ''.''
      else let p = trim_right p ''/'';
               b = (case last_index p (CHR ''/'') of None \<Rightarrow> p | Some i \<Rightarrow> drop (i + 1) p)
           in if b = [] then ''/'' else b)"

section \<open>File names\<close>

definition wsIdentityPath :: "string \<Rightarrow> string \<Rightarrow> string" where
  "wsIdentityPath wsIDFile logDir =
     (if wsIDFile \<noteq> [] then wsIDFile else join_path [logDir, ''ws-identity.json''])"

definition debug_log :: "string \<Rightarrow> string" where
  "debug_log logDir = join_path [logDir, ''debug.log'']"

text \<open>\<open>day\<close> is the date in UTC as \<^verbatim>\<open>20060102\<close> shows it.\<close>

definition json_log :: "string \<Rightarrow> string \<Rightarrow> string" where
  "json_log logDir day = join_path [logDir, ''relay-'' @ day @ ''.jsonl'']"

section \<open>Facts\<close>

definition plain_part :: "string \<Rightarrow> bool" where
  "plain_part w \<longleftrightarrow> w \<noteq> [] \<and> w \<noteq> ''.'' \<and> w \<noteq> ''..'' \<and> CHR ''/'' \<notin> set w"

lemma join_split: "join_with [x] (split_on x s) = s"
proof (induction s)
  case (Cons c s)
  then show ?case
    by (cases "split_on x s") (auto simp: join_with.simps split: list.splits,
      (metis append_Cons append_Nil join_with.simps(2,3) neq_Nil_conv)+)
qed simp

lemma split_on_parts: "list_all (\<lambda>w. x \<notin> set w) (split_on x s)"
  by (induction s) (auto split: list.splits)

lemma clean_parts_plain:
  "plain_part w \<Longrightarrow> clean_parts rooted acc (ws @ [w]) = clean_parts rooted acc ws @ [w]"
  by (induction rooted acc ws rule: clean_parts.induct) (auto simp: plain_part_def)

text \<open>The elements that remain: no empty element and no dot, and the steps up only in front, of a
  rooted path none.\<close>

fun cleaned :: "bool \<Rightarrow> string list \<Rightarrow> bool" where
  "cleaned rooted [] = True"
| "cleaned rooted (w # ws) =
     (if w = ''..'' then \<not> rooted \<and> cleaned rooted ws else list_all plain_part (w # ws))"

lemma cleaned_iff:
  "cleaned rooted ws \<longleftrightarrow>
     (\<exists>n ps. ws = replicate n ''..'' @ ps \<and> list_all plain_part ps \<and> (rooted \<longrightarrow> n = 0))"
proof
  show "\<exists>n ps. ws = replicate n ''..'' @ ps \<and> list_all plain_part ps \<and> (rooted \<longrightarrow> n = 0)"
    if "cleaned rooted ws"
    using that
  proof (induction rooted ws rule: cleaned.induct)
    case (2 rooted w ws)
    show ?case
    proof (cases "w = ''..''")
      case True
      then obtain n ps where "ws = replicate n ''..'' @ ps" "list_all plain_part ps" "\<not> rooted"
        using 2 by auto
      with True show ?thesis
        by (intro exI [of _ "Suc n"] exI [of _ ps]) simp
    next
      case False
      with 2 show ?thesis
        by (intro exI [of _ 0] exI [of _ "w # ws"]) simp
    qed
  qed simp
  show "cleaned rooted ws"
    if split: "\<exists>n ps. ws = replicate n ''..'' @ ps \<and> list_all plain_part ps \<and> (rooted \<longrightarrow> n = 0)"
  proof -
    obtain n ps where *: "ws = replicate n ''..'' @ ps" "list_all plain_part ps" "rooted \<longrightarrow> n = 0"
      using split by blast
    have "cleaned rooted (replicate n ''..'' @ ps)"
      using *(2,3) by (induction n) (cases ps; auto simp: plain_part_def)+
    with *(1) show ?thesis
      by simp
  qed
qed

lemma clean_parts_cleaned:
  assumes "list_all (\<lambda>w. CHR ''/'' \<notin> set w) ws" and "cleaned rooted (rev acc)"
  shows "cleaned rooted (clean_parts rooted acc ws)"
  using assms
proof (induction rooted acc ws rule: clean_parts.induct)
  case (2 rooted acc w ws)
  obtain n ps where acc: "rev acc = replicate n ''..'' @ ps" "list_all plain_part ps" "rooted \<longrightarrow> n = 0"
    using 2(5) unfolding cleaned_iff by blast
  show ?case
  proof (cases "w = [] \<or> w = ''.''")
    case True
    with 2 show ?thesis
      by auto
  next
    case False
    note nodot = False
    show ?thesis
    proof (cases "w = ''..''")
      case True
      let ?acc = "case acc of [] \<Rightarrow> if rooted then [] else [''..'']
           | a # as \<Rightarrow> if a = ''..'' then ''..'' # acc else as"
      have "cleaned rooted (rev ?acc)"
      proof (cases ps rule: rev_cases)
        case Nil
        then have "acc = replicate n ''..''"
          using acc(1) by (metis append_Nil2 rev_replicate rev_rev_ident)
        then show ?thesis
          using acc(3) unfolding cleaned_iff
          by (cases n) (auto intro!: exI [of _ "Suc n"] exI [of _ "[]"] simp: replicate_app_Cons_same)
      next
        case (snoc qs q)
        then have "acc = q # rev qs @ replicate n ''..''"
          using acc(1) by (metis append.assoc rev_append rev_replicate rev_rev_ident rev_singleton_conv
            append_Cons append_Nil rev.simps(2) rev_eq_Cons_iff)
        with snoc acc(2,3) show ?thesis
          unfolding cleaned_iff by (auto simp: plain_part_def)
      qed
      with True nodot 2 show ?thesis
        by simp
    next
      case False
      have "cleaned rooted (rev (w # acc))"
        using acc False nodot 2(4) unfolding cleaned_iff
        by (intro exI [of _ n] exI [of _ "ps @ [w]"]) (simp add: plain_part_def)
      with False nodot 2 show ?thesis
        by simp
    qed
  qed
qed simp

lemma clean_parts_rest: "list_all plain_part ws \<Longrightarrow> clean_parts rooted acc ws = rev acc @ ws"
  by (induction ws arbitrary: acc) (simp_all add: plain_part_def)

lemma clean_parts_up:
  "list_all plain_part ps \<Longrightarrow>
     clean_parts False (replicate m ''..'') (replicate n ''..'' @ ps) = replicate m ''..'' @ replicate n ''..'' @ ps"
proof (induction n arbitrary: m)
  case 0
  then show ?case
    by (simp add: clean_parts_rest)
next
  case (Suc n)
  have "clean_parts False (replicate m ''..'') (replicate (Suc n) ''..'' @ ps)
      = clean_parts False (replicate (Suc m) ''..'') (replicate n ''..'' @ ps)"
    by (cases m) simp_all
  also have "\<dots> = replicate (Suc m) ''..'' @ replicate n ''..'' @ ps"
    by (rule Suc.IH [OF Suc.prems])
  also have "\<dots> = replicate m ''..'' @ replicate (Suc n) ''..'' @ ps"
    by (simp add: replicate_app_Cons_same)
  finally show ?case .
qed

lemma clean_parts_id: "cleaned rooted ws \<Longrightarrow> clean_parts rooted [] ws = ws"
proof -
  assume "cleaned rooted ws"
  then obtain n ps where ws: "ws = replicate n ''..'' @ ps" "list_all plain_part ps" "rooted \<longrightarrow> n = 0"
    unfolding cleaned_iff by blast
  show "clean_parts rooted [] ws = ws"
    using clean_parts_rest [OF ws(2), of rooted "[]"] clean_parts_up [OF ws(2), of 0 n] ws(1,3)
    by (cases rooted) simp_all
qed

lemma cleaned_path_parts: "cleaned (rooted_path p) (path_parts p)"
  unfolding path_parts_def by (rule clean_parts_cleaned) (simp_all add: split_on_parts)

lemma cleaned_no_slash: "cleaned rooted ws \<Longrightarrow> list_all (\<lambda>w. w \<noteq> [] \<and> CHR ''/'' \<notin> set w) ws"
proof -
  assume "cleaned rooted ws"
  then obtain n ps where ws: "ws = replicate n ''..'' @ ps" "list_all plain_part ps"
    unfolding cleaned_iff by blast
  have "list_all (\<lambda>w. w \<noteq> [] \<and> CHR ''/'' \<notin> set w) (replicate n ''..'')"
    by (induction n) simp_all
  moreover have "list_all (\<lambda>w. w \<noteq> [] \<and> CHR ''/'' \<notin> set w) ps"
    using ws(2) by (rule list.pred_mono_strong) (simp add: plain_part_def)
  ultimately show "list_all (\<lambda>w. w \<noteq> [] \<and> CHR ''/'' \<notin> set w) ws"
    unfolding ws(1) list_all_append by simp
qed

lemma hd_join_with: "w \<noteq> [] \<Longrightarrow> hd (join_with sep (w # ws)) = hd w \<and> join_with sep (w # ws) \<noteq> []"
  by (cases ws) simp_all

text \<open>A cleaned path is read back as its elements.\<close>

lemma path_parts_unsplit:
  assumes "cleaned rooted ps"
  shows "rooted_path (unsplit_path rooted ps) = rooted" and "path_parts (unsplit_path rooted ps) = ps"
proof -
  have all: "list_all (\<lambda>w. w \<noteq> [] \<and> CHR ''/'' \<notin> set w) ps"
    using assms by (rule cleaned_no_slash)
  then have part: "list_all (\<lambda>w. CHR ''/'' \<notin> set w) ps"
    by (simp add: list_all_iff)
  show r: "rooted_path (unsplit_path rooted ps) = rooted"
    using all hd_join_with [of "hd ps" "''/''" "tl ps"]
    by (cases ps) (auto simp: rooted_path_def unsplit_path_def dest: hd_in_set)
  show "path_parts (unsplit_path rooted ps) = ps"
  proof (cases "ps = []")
    case True
    then show ?thesis
      unfolding path_parts_def r by (simp add: unsplit_path_def)
  next
    case False
    then have "split_on (CHR ''/'') (join_with ''/'' ps) = ps"
      by (rule split_join [OF part])
    with False show ?thesis
      unfolding path_parts_def r using clean_parts_id [OF assms]
      by (cases rooted) (simp_all add: unsplit_path_def)
  qed
qed

text \<open>Cleaning a clean path changes nothing, and keeps the elements.\<close>

theorem clean_path_idem:
  "clean_path (clean_path p) = clean_path p \<and> path_parts (clean_path p) = path_parts p"
  using path_parts_unsplit [OF cleaned_path_parts, of p] unfolding clean_path_def by simp

lemma path_parts_join:
  assumes "d \<noteq> []" and "plain_part n"
  shows "path_parts (join_path [d, n]) = path_parts d @ [n]"
    and "rooted_path (join_path [d, n]) = rooted_path d"
proof -
  let ?p = "d @ CHR ''/'' # n"
  have j: "join_path [d, n] = clean_path ?p"
    using assms(1) by (simp add: join_path_def)
  have r: "rooted_path ?p = rooted_path d"
    using assms(1) by (simp add: rooted_path_def)
  have "path_parts ?p = path_parts d @ [n]"
    using assms(2) unfolding path_parts_def r
    by (simp add: split_on_append split_on_plain plain_part_def clean_parts_plain)
  with r show "path_parts (join_path [d, n]) = path_parts d @ [n]"
      and "rooted_path (join_path [d, n]) = rooted_path d"
    unfolding j clean_path_def using path_parts_unsplit [OF cleaned_path_parts, of ?p] by simp_all
qed

text \<open>Without \<^verbatim>\<open>-ws-identity\<close> the identity is kept in the log directory, whatever way that is written; and no
  log has its name.\<close>

theorem wsIdentityPath_default:
  "if logDir = [] then wsIdentityPath [] logDir = ''ws-identity.json''
   else path_parts (wsIdentityPath [] logDir) = path_parts logDir @ [''ws-identity.json'']
     \<and> rooted_path (wsIdentityPath [] logDir) = rooted_path logDir
     \<and> wsIdentityPath [] logDir \<noteq> debug_log logDir"
proof (cases "logDir = []")
  case True
  have "wsIdentityPath [] [] = ''ws-identity.json''"
    by code_simp
  with True show ?thesis
    by simp
next
  case False
  have p: "plain_part ''ws-identity.json''" "plain_part ''debug.log''"
    by code_simp+
  note j = path_parts_join [OF False p(1)] path_parts_join [OF False p(2)]
  have "wsIdentityPath [] logDir \<noteq> debug_log logDir"
    using j(1,3) by (auto simp: wsIdentityPath_def debug_log_def)
  with False j show ?thesis
    by (simp add: wsIdentityPath_def)
qed

end
