(* ===== verification/Platform.thy ===== *)
theory Platform
  imports Go_Path
begin

text \<open>
  What the program takes from the system below it: random bytes (\<^verbatim>\<open>rand_linux.go\<close>, \<^verbatim>\<open>rand_other.go\<close>), the trusted
  root certificates (\<^verbatim>\<open>ca.go\<close>), the fields of \<^verbatim>\<open>/proc\<close> it reports, and the stubs for systems other than
  Linux (\<^verbatim>\<open>port_other.go\<close>).
\<close>

section \<open>Random bytes\<close>

text \<open>
  An open file is the list of what its next reads bring, \<open>None\<close> for an error. \<^verbatim>\<open>io.ReadFull\<close> reads until the
  buffer of \<open>n\<close> bytes is full.
\<close>

type_synonym reads = "byte list option list"

fun read_fully :: "nat \<Rightarrow> reads \<Rightarrow> byte list option \<times> reads" where
  "read_fully n rs =
     (if n = 0 then (Some [], rs)
      else case rs of
          [] \<Rightarrow> (None, [])
        | None # rs \<Rightarrow> (None, rs)
        | Some bs # rs \<Rightarrow>
            let got = take n bs; (r, rs) = read_fully (n - length got) rs
            in (map_option ((@) got) r, rs))"

text \<open>
  The state of the package: whether \<^verbatim>\<open>urandomOnce\<close> has run, the file it opened, how often \<^verbatim>\<open>os.Open\<close> and
  \<^verbatim>\<open>crypto/rand\<close> were called. \<open>open_result\<close> is what opening \<^verbatim>\<open>/dev/urandom\<close> gives, \<open>stock\<close> what
  \<^verbatim>\<open>crypto/rand\<close> returns for a buffer of a length.
\<close>

record rand_state =
  onceDone :: bool
  urandomFile :: "reads option"
  opens :: nat
  stock_calls :: nat

definition rand_init :: rand_state where
  "rand_init = \<lparr>onceDone = False, urandomFile = None, opens = 0, stock_calls = 0\<rparr>"

definition open_once :: "reads option \<Rightarrow> rand_state \<Rightarrow> rand_state" where
  "open_once open_result st =
     (if onceDone st then st
      else st\<lparr>onceDone := True, urandomFile := open_result, opens := opens st + 1\<rparr>)"

definition stockRead :: "(nat \<Rightarrow> byte list option) \<Rightarrow> nat \<Rightarrow> rand_state \<Rightarrow> byte list option \<times> rand_state" where
  "stockRead stock n st = (stock n, st\<lparr>stock_calls := stock_calls st + 1\<rparr>)"

definition randRead ::
    "reads option \<Rightarrow> (nat \<Rightarrow> byte list option) \<Rightarrow> nat \<Rightarrow> rand_state \<Rightarrow> byte list option \<times> rand_state" where
  "randRead open_result stock n st =
     (let st = open_once open_result st in
      case urandomFile st of
        None \<Rightarrow> stockRead stock n st
      | Some f \<Rightarrow>
          let (r, f') = read_fully n f; st = st\<lparr>urandomFile := Some f'\<rparr> in
          (case r of Some b \<Rightarrow> (Some b, st) | None \<Rightarrow> stockRead stock n st))"

text \<open>On other systems there is only \<^verbatim>\<open>crypto/rand\<close>.\<close>

definition randRead_other :: "(nat \<Rightarrow> byte list option) \<Rightarrow> nat \<Rightarrow> rand_state \<Rightarrow> byte list option \<times> rand_state" where
  "randRead_other stock n st = stockRead stock n st"

primrec rand_run ::
    "reads option \<Rightarrow> (nat \<Rightarrow> byte list option) \<Rightarrow> nat list \<Rightarrow> rand_state \<Rightarrow> byte list option list \<times> rand_state" where
  "rand_run opened stock [] st = ([], st)"
| "rand_run opened stock (n # ns) st =
     (let (r, st) = randRead opened stock n st; (rs, st) = rand_run opened stock ns st in (r # rs, st))"

section \<open>Root certificates\<close>

text \<open>
  A pool is a set of certificates. \<open>certs\<close> gives those a PEM file holds; \<^verbatim>\<open>AppendCertsFromPEM\<close> adds them all and
  reports whether there was one. \<open>sys\<close> is the pool of the system, if it has one.
\<close>

datatype 'c pool_error = BadEmbedded | CaUnreadable string | CaEmpty string

definition append_pem :: "(string \<Rightarrow> 'c list) \<Rightarrow> string \<Rightarrow> 'c set \<Rightarrow> bool \<times> 'c set" where
  "append_pem certs pem pool = (certs pem \<noteq> [], pool \<union> set (certs pem))"

definition rootPool ::
    "(string \<Rightarrow> 'c list) \<Rightarrow> 'c set option \<Rightarrow> string \<Rightarrow> (string \<Rightarrow> string option) \<Rightarrow> string \<Rightarrow> 'c pool_error + 'c set" where
  "rootPool certs sys embedded files caFile =
     (let pool = (case sys of None \<Rightarrow> {} | Some p \<Rightarrow> p);
          (ok, pool) = append_pem certs embedded pool in
      if \<not> ok then Inl BadEmbedded
      else if caFile \<noteq> [] then
        (case files caFile of
           None \<Rightarrow> Inl (CaUnreadable caFile)
         | Some pem \<Rightarrow>
             let (ok, pool) = append_pem certs pem pool in
             if \<not> ok then Inl (CaEmpty caFile) else Inr pool)
      else Inr pool)"

section \<open>Fields of /proc\<close>

definition line_feed :: char where "line_feed = CHR 0x0A"

primrec find_field :: "string \<Rightarrow> string list \<Rightarrow> string" where
  "find_field pre [] = ''?''"
| "find_field pre (l # ls) =
     (if has_prefix l pre then join_with '' '' (go_fields (drop (length pre) l)) else find_field pre ls)"

text \<open>\<open>status\<close> is the content of \<^verbatim>\<open>/proc/self/status\<close>, if it can be read.\<close>

definition procStatusField :: "string option \<Rightarrow> string \<Rightarrow> string" where
  "procStatusField status pre =
     (case status of None \<Rightarrow> ''?'' | Some b \<Rightarrow> find_field pre (split_on line_feed b))"

definition procThreads :: "string option \<Rightarrow> string" where
  "procThreads status = procStatusField status ''Threads:''"

definition procRSS :: "string option \<Rightarrow> string" where
  "procRSS status = procStatusField status ''VmRSS:''"

text \<open>
  The threads whose state is D: \<open>tasks\<close> lists the content of each thread's \<^verbatim>\<open>stat\<close>, if it can be read; the
  command name in it may hold spaces and parentheses, so the state follows the last one.
\<close>

definition in_D_state :: "string \<Rightarrow> bool" where
  "in_D_state st =
     (case last_index st (CHR '')'') of
        None \<Rightarrow> False
      | Some i \<Rightarrow> (case go_fields (drop (i + 1) st) of [] \<Rightarrow> False | f # _ \<Rightarrow> f = ''D''))"

primrec count_D :: "string option list \<Rightarrow> int" where
  "count_D [] = 0"
| "count_D (e # es) = (case e of None \<Rightarrow> 0 | Some st \<Rightarrow> if in_D_state st then 1 else 0) + count_D es"

definition countDThreads :: "string option list option \<Rightarrow> int" where
  "countDThreads tasks = (case tasks of None \<Rightarrow> - 1 | Some es \<Rightarrow> count_D es)"

section \<open>Systems other than Linux\<close>

definition stub_error :: string where
  "stub_error = ''raw rpm30 device transport is only supported on Linux modems''"

definition stub_openPort :: "string \<Rightarrow> string + 'p" where
  "stub_openPort devPath = Inl stub_error"

text \<open>Closing, draining and writing do nothing.\<close>

definition stub_close :: "'p \<Rightarrow> 'p" where "stub_close p = p"
definition stub_drain :: "'p \<Rightarrow> 'p" where "stub_drain p = p"
definition stub_write :: "string \<Rightarrow> 'p \<Rightarrow> 'p" where "stub_write s p = p"

definition stub_waitFor :: "string list \<Rightarrow> int \<Rightarrow> string" where
  "stub_waitFor tokens wait = []"

definition stub_cmd :: "string \<Rightarrow> int \<Rightarrow> string" where
  "stub_cmd s wait = []"

definition stub_sendPDU :: "string \<Rightarrow> string \<Rightarrow> int \<Rightarrow> bool \<Rightarrow> bool \<times> string" where
  "stub_sendPDU devPath pduHex tpduLen report = (False, stub_error)"

definition stub_countDThreads :: int where
  "stub_countDThreads = 0"

section \<open>Properties\<close>

lemma read_fully_once: "n \<le> length b \<Longrightarrow> 0 < n \<Longrightarrow> read_fully n (Some b # rs) = (Some (take n b), rs)"
  by (subst read_fully.simps) (simp add: Let_def)

lemma read_fully_zero: "read_fully 0 rs = (Some [], rs)"
  by (subst read_fully.simps) simp

declare read_fully.simps [simp del]

definition supplies :: "nat \<Rightarrow> byte list option \<Rightarrow> bool" where
  "supplies m r \<longleftrightarrow> (case r of None \<Rightarrow> False | Some b \<Rightarrow> m \<le> length b)"

lemma read_fully_supplied:
  assumes "list_all (supplies m) f" and "n \<le> m" and "f \<noteq> []"
  shows "\<exists>b f'. read_fully n f = (Some b, f') \<and> length b = n \<and> (f' = f \<or> f' = tl f)"
proof (cases "n = 0")
  case False
  then show ?thesis
    using assms by (cases f) (auto simp: supplies_def read_fully_once split: option.splits)
qed (simp add: read_fully_zero)

lemma rand_run_supplied:
  assumes "list_all (\<lambda>n. n \<le> m) ns" and "list_all (supplies m) f" and "length ns \<le> length f"
    and "onceDone st \<Longrightarrow> urandomFile st = Some f" and "onceDone st \<or> opened = Some f"
  shows "let (rs, st') = rand_run opened stock ns st in
     stock_calls st' = stock_calls st \<and> opens st' \<le> opens st + (if onceDone st then 0 else 1)
     \<and> map (map_option length) rs = map Some ns"
  using assms
proof (induction ns arbitrary: f st)
  case (Cons n ns)
  let ?st = "open_once opened st"
  have st: "urandomFile ?st = Some f" "stock_calls ?st = stock_calls st" "onceDone ?st"
    "opens ?st = opens st + (if onceDone st then 0 else 1)"
    using Cons.prems(4,5) by (auto simp: open_once_def)
  obtain b f' where r: "read_fully n f = (Some b, f')" "length b = n" "f' = f \<or> f' = tl f"
    using read_fully_supplied [of m f n] Cons.prems by (cases f) auto
  let ?st1 = "?st\<lparr>urandomFile := Some f'\<rparr>"
  have one: "randRead opened stock n st = (Some b, ?st1)"
    by (simp add: randRead_def Let_def st(1) r(1))
  have "list_all (supplies m) f'" and "length ns \<le> length f'"
    using Cons.prems r(3) by (cases f; auto)+
  then show ?case
    using Cons.IH [of f' ?st1] Cons.prems(1) st r(2) one by (simp add: Let_def case_prod_beta)
qed simp

text \<open>C40: As long as \<^verbatim>\<open>/dev/urandom\<close> can be opened and read, every request gets its bytes from it and \<^verbatim>\<open>crypto/rand\<close>,
  which on the modem overwrites memory behind the buffer, is never called; the file is opened once.\<close>

theorem randRead_avoids_stock:
  assumes "list_all (\<lambda>n. n \<le> m) ns" and "list_all (supplies m) f" and "length ns \<le> length f"
  shows "let (rs, st) = rand_run (Some f) stock ns rand_init in
     stock_calls st = 0 \<and> opens st \<le> 1 \<and> map (map_option length) rs = map Some ns"
  using rand_run_supplied [OF assms, of rand_init "Some f" stock] by (simp add: rand_init_def)

theorem randRead_avoids_stock_witness:
  "let (rs, st) = rand_run (Some [Some (replicate 16 7), Some (replicate 16 9)]) (\<lambda>n. None) [8, 16] rand_init in
     stock_calls st = 0 \<and> opens st \<le> 1 \<and> map (map_option length) rs = [Some 8, Some 16]"
  using randRead_avoids_stock [of 16 "[8, 16]" "[Some (replicate 16 7), Some (replicate 16 9)]" "\<lambda>n. None"]
  by (simp add: supplies_def)

lemma index_byte_rev_last: "x \<notin> set b \<Longrightarrow> last_index (a @ x # b) x = Some (length a)"
  using index_byte_append [of x "rev b" "rev a"] by (simp add: last_index_def)

text \<open>A thread counts as uninterruptible exactly when the state in its \<^verbatim>\<open>stat\<close> line is D, whatever its name holds:
  spaces, parentheses, or a text that looks like another state.\<close>

theorem in_D_state_name:
  assumes "CHR '')'' \<notin> set rest" and "visible state" and "state \<noteq> CHR '')''"
  shows "in_D_state (pid @ '' ('' @ name @ '') '' @ state # CHR '' '' # rest) = (state = CHR ''D'')"
proof -
  let ?pre = "pid @ '' ('' @ name"
  have "last_index ((pid @ '' ('' @ name) @ CHR '')'' # '' '' @ state # CHR '' '' # rest) (CHR '')'')
      = Some (length (pid @ '' ('' @ name))"
    using assms by (intro index_byte_rev_last) simp
  moreover have "go_fields ('' '' @ state # CHR '' '' # rest) = [state] # go_fields rest"
    using go_fields_word [of "[state]" "CHR '' ''" rest] assms(2) by (simp add: go_fields_space)
  moreover have "drop (length ?pre + 1) (?pre @ CHR '')'' # '' '' @ state # CHR '' '' # rest)
      = '' '' @ state # CHR '' '' # rest"
    by (simp only: drop_append) simp
  ultimately show ?thesis
    by (simp add: in_D_state_def)
qed

theorem in_D_state_name_witness:
  "in_D_state ''7 (a) S b) D 1'' \<and> \<not> in_D_state ''7 (x) D y) S 1''"
  using in_D_state_name [of "''1''" "CHR ''D''" "''7''" "''a) S b''"]
    in_D_state_name [of "''1''" "CHR ''S''" "''7''" "''x) D y''"]
  by (simp add: visible_def)

end
