(* ===== verification/Housekeeping.thy ===== *)
theory Housekeeping
  imports Http Send_Worker Platform
begin

text \<open>
  What the program does beside relaying (\<^verbatim>\<open>main.go\<close>): the start-up with its modes, the accept loop of the
  webhook, the self test over both transports, the watchdog that restarts atserver, and the memory log.
  A \<open>host\<close> is what the system answers: its clock, \<^verbatim>\<open>/proc\<close>, the programs it runs; a pause is time that
  passes for it.
\<close>

record 'w host =
  clock :: "'w \<Rightarrow> int"
  pause :: "int \<Rightarrow> 'w \<Rightarrow> 'w"
  proc :: "'w \<Rightarrow> proc_fs"
  status_file :: "'w \<Rightarrow> string option"
  exec :: "string list \<Rightarrow> 'w \<Rightarrow> string option \<times> 'w"

section \<open>The watchdog\<close>

definition start_command :: "string \<Rightarrow> string list" where
  "start_command atBin = [''/bin/sh'', ''-c'', ''('' @ atBin @ '' >/dev/null 2>&1 &)'']"

text \<open>\<open>Some e\<close> is the error of \<^verbatim>\<open>Run\<close>.\<close>

definition startATServer :: "'w host \<Rightarrow> string \<Rightarrow> 'w \<Rightarrow> string option \<times> 'w" where
  "startATServer h atBin w = exec h (start_command atBin) w"

definition atserver_alive :: "'w host \<Rightarrow> string \<Rightarrow> 'w \<Rightarrow> bool" where
  "atserver_alive h atBin w \<longleftrightarrow> atServerPID atBin (proc h w) \<noteq> 0"

definition watchdog_record :: "int \<Rightarrow> string \<Rightarrow> string \<Rightarrow> log_record" where
  "watchdog_record now result at = [(''ts'', JTime now), (''result'', JStr result), (''at'', JStr at)]"

text \<open>One turn of \<^verbatim>\<open>watchdogLoop\<close>.\<close>

definition watchdog_turn :: "'w host \<Rightarrow> string \<Rightarrow> int \<Rightarrow> 'w \<times> relay \<Rightarrow> 'w \<times> relay" where
  "watchdog_turn h atBin interval s =
     (let (w, st) = s; w = pause h interval w in
      if atServerPID atBin (proc h w) \<noteq> 0 then (w, st)
      else (case startATServer h atBin w of
          (Some e, w) \<Rightarrow> (w, logJSON (watchdog_record (clock h w) ''atserver-restart-failed'' e) st)
        | (None, w) \<Rightarrow>
            let w = pause h (4 * second) w; pid = atServerPID atBin (proc h w)
            in (w, logJSON (watchdog_record (clock h w)
                  (ifStr (pid \<noteq> 0) ''atserver-restarted'' ''atserver-restart-failed'')
                  (''pid='' @ show_int pid)) st)))"

primrec watchdogLoop :: "'w host \<Rightarrow> string \<Rightarrow> int \<Rightarrow> nat \<Rightarrow> 'w \<times> relay \<Rightarrow> 'w \<times> relay" where
  "watchdogLoop h atBin interval 0 s = s"
| "watchdogLoop h atBin interval (Suc n) s = watchdogLoop h atBin interval n (watchdog_turn h atBin interval s)"

section \<open>The memory log\<close>

definition memlog_turn :: "'w host \<Rightarrow> int \<Rightarrow> 'w \<times> relay \<Rightarrow> 'w \<times> relay" where
  "memlog_turn h interval s =
     (let (w, st) = s; w = pause h interval w;
          rss = procRSS (status_file h w);
          peak = procStatusField (status_file h w) ''VmHWM:'';
          threads = procThreads (status_file h w)
      in (w, logJSON [(''ts'', JTime (clock h w)), (''result'', JStr ''memstat''), (''rss'', JStr rss),
                (''peak_rss'', JStr peak), (''threads'', JStr threads)] st))"

primrec memlogLoop :: "'w host \<Rightarrow> int \<Rightarrow> nat \<Rightarrow> 'w \<times> relay \<Rightarrow> 'w \<times> relay" where
  "memlogLoop h interval 0 s = s"
| "memlogLoop h interval (Suc n) s = memlogLoop h interval n (memlog_turn h interval s)"

section \<open>The self test\<close>

text \<open>
  The cycles over the device node from the \<open>i\<close>-th, \<open>k\<close> of them left: the port is opened anew in each, asked
  \<open>AT\<close> and \<open>AT+CSQ\<close>, and closed. A cycle leaves what it prints of the answers.
\<close>

datatype node_cycle = NotOpened nat string | Answered nat string string

fun node_cycles ::
    "('w, 'd) radio \<Rightarrow> nat \<Rightarrow> nat \<Rightarrow> nat \<Rightarrow> ('w, 'd) modem_world \<Rightarrow>
       (node_cycle list \<times> nat) \<times> ('w, 'd) modem_world" where
  "node_cycles r i 0 okCount w = (([], okCount), w)"
| "node_cycles r i (Suc k) okCount w =
     (case node_error r (node_state w) of
        Some e \<Rightarrow>
          (let ((cs, okCount), w) = node_cycles r (Suc i) k okCount w in ((NotOpened i e # cs, okCount), w))
      | None \<Rightarrow>
          (let d = node_state w;
               (at, p) = port_cmd (node r) ''AT'' (3 * second) (fresh_port d);
               (csq, p) = port_cmd (node r) ''AT+CSQ'' (3 * second) p;
               p = port_close (node_ends r d) p;
               w = w\<lparr>node_state := dev p, node_writes := node_writes w @ sent p\<rparr>;
               okCount = (if contains (oneLine at) ''OK'' then okCount + 1 else okCount);
               ((cs, okCount), w) = node_cycles r (Suc i) k okCount w
           in ((Answered i (oneLine at) (oneLine csq) # cs, okCount), w)))"

datatype selftest_report = ByServer selftest_result | ByNode "node_cycle list" nat bool

text \<open>\<open>pick\<close> is \<^verbatim>\<open>pickTransport\<close> in the present state, \<open>tasks\<close> what \<^verbatim>\<open>/proc/self/task\<close> shows at the end.\<close>

definition runSelfTest ::
    "('w, 'd) radio \<Rightarrow> (('w, 'd) modem_world \<Rightarrow> string) \<Rightarrow> ('w \<Rightarrow> int) \<Rightarrow> string option list option \<Rightarrow> nat \<Rightarrow>
       ('w, 'd) modem_world \<Rightarrow> selftest_report \<times> ('w, 'd) modem_world" where
  "runSelfTest r pick pid tasks n w =
     (if pick w = ''atsrv''
      then let (res, io) = runSelfTestATSrv (at_srv r) pid n (at_io w) in (ByServer res, w\<lparr>at_io := io\<rparr>)
      else let ((cs, okCount), w) = node_cycles r 1 n 0 w
           in (ByNode cs okCount (countDThreads tasks = 0), w))"

section \<open>Start-up\<close>

record flags =
  fl_secret :: string
  fl_selftest :: int
  fl_mode :: string
  fl_allowTo :: string
  fl_cooldown :: int
  fl_logURL :: bool
  fl_reqlog :: bool
  fl_memlog :: int
  fl_watchdog :: int

datatype background = MemlogLoop | WatchdogLoop

datatype front = SelfTest nat | HttpFront | WsFront | UnknownMode string

text \<open>What \<^verbatim>\<open>main\<close> decides: the secret, the allowlist, the goroutines it starts, and what it then runs. \<open>env\<close> is
  the environment variable \<^verbatim>\<open>SMS_RELAY_SECRET\<close>.\<close>

definition main_start :: "flags \<Rightarrow> string \<Rightarrow> string \<times> string list \<times> background list \<times> front" where
  "main_start fl env =
     (let sec = (if fl_secret fl = [] then env else fl_secret fl) in
      if fl_selftest fl > 0 then (sec, [], [], SelfTest (nat (fl_selftest fl)))
      else
        let allowed = parseAllowList (fl_allowTo fl);
            bg = (if fl_memlog fl > 0 then [MemlogLoop] else [])
               @ (if fl_watchdog fl > 0 then [WatchdogLoop] else [])
        in (sec, allowed, bg,
            if fl_mode fl = ''http'' then HttpFront
            else if fl_mode fl = ''ws'' then WsFront
            else UnknownMode (fl_mode fl)))"

text \<open>The accept loop: an error sleeps, a connection is served by its own goroutine.\<close>

datatype 'c accept_step = Sleep int | Serve 'c

fun accept_loop :: "int \<Rightarrow> 'c option list \<Rightarrow> 'c accept_step list" where
  "accept_loop tempDelay [] = []"
| "accept_loop tempDelay (None # as) =
     (let tempDelay = accept_delay tempDelay in Sleep tempDelay # accept_loop tempDelay as)"
| "accept_loop tempDelay (Some c # as) = Serve c # accept_loop 0 as"

datatype 'c http_run = Exits int | Accepts "'c accept_step list"

definition runHTTP :: "string \<Rightarrow> string option \<Rightarrow> 'c option list \<Rightarrow> 'c http_run" where
  "runHTTP sec listen_error accepts =
     (if sec = [] then Exits 2
      else case listen_error of
          Some e \<Rightarrow> Exits 1
        | None \<Rightarrow> Accepts (accept_loop 0 accepts))"

text \<open>
  The program in webhook mode. A connection comes with its instants, the peer, and the bytes that arrive; the
  connections are served one after the other.
\<close>

fun served :: "'c accept_step list \<Rightarrow> 'c list" where
  "served [] = []"
| "served (Sleep d # steps) = served steps"
| "served (Serve c # steps) = c # served steps"

type_synonym connection = "clocks \<times> string \<times> string"

definition http_config :: "flags \<Rightarrow> string \<Rightarrow> string list \<Rightarrow> config" where
  "http_config fl sec allowed =
     \<lparr>secret = sec, logURL = fl_logURL fl, reqlog = fl_reqlog fl, allowedDest = allowed, cooldown = fl_cooldown fl\<rparr>"

primrec serve_each :: "config \<Rightarrow> string option \<Rightarrow> connection list \<Rightarrow> relay \<Rightarrow> relay" where
  "serve_each cfg today [] st = st"
| "serve_each cfg today (c # cs) st =
     (let (cl, peer, conn) = c in serve_each cfg today cs (snd (serve cfg today cl peer conn st)))"

definition http_program ::
    "flags \<Rightarrow> string \<Rightarrow> string option \<Rightarrow> string option \<Rightarrow> connection option list \<Rightarrow> relay \<Rightarrow> relay" where
  "http_program fl env listen_error today accepts st =
     (let (sec, allowed, bg, front) = main_start fl env in
      if front \<noteq> HttpFront then st
      else case runHTTP sec listen_error accepts of
          Exits n \<Rightarrow> st
        | Accepts steps \<Rightarrow> serve_each (http_config fl sec allowed) today (served steps) st)"

section \<open>Properties\<close>

lemma accept_loop_errors:
  "accept_loop (accept_errors n) (replicate k None @ as) =
     map (\<lambda>i. Sleep (accept_errors (Suc i))) [n..<n + k] @ accept_loop (accept_errors (n + k)) as"
proof (induction k arbitrary: n)
  case (Suc k)
  then show ?case
    using Suc [of "Suc n"] by (simp add: upt_conv_Cons del: upt_Suc)
qed simp

text \<open>The accept loop serves every connection, in order, and between two connections it sleeps 5 ms, then twice as
  long per further error, never longer than a second.\<close>

theorem accept_loop_schedule:
  "accept_loop 0 (replicate k None @ Some c # as) =
     map (\<lambda>i. Sleep (min (5 * millisecond * 2 ^ i) (1 * second))) [0..<k] @ Serve c # accept_loop 0 as"
  using accept_loop_errors [of 0 k "Some c # as"] by (simp add: accept_errors_closed del: accept_errors.simps(2))

lemma served_accept_loop: "served (accept_loop d as) = List.map_filter id as"
  by (induction d as rule: accept_loop.induct) (simp_all add: Let_def List.map_filter_simps)

definition hook_post :: "config \<Rightarrow> connection \<Rightarrow> bool" where
  "hook_post cfg c =
     (let (cl, peer, conn) = c in
      case read_http (reqlog cfg) peer (at_open cl) (at_headers cl) (at_body cl) conn of
        None \<Rightarrow> False
      | Some req \<Rightarrow> rq_method req = ''POST'' \<and> rq_path req = ''/hook/'' @ secret cfg)"

lemma serve_each_posts:
  "(jobs (serve_each cfg today cs st) = jobs st \<and> ddp (serve_each cfg today cs st) = ddp st
      \<and> logs (serve_each cfg today cs st) = logs st)
   \<or> list_ex (hook_post cfg) cs"
proof (induction cs arbitrary: st)
  case (Cons c cs)
  obtain cl peer conn where c: "c = (cl, peer, conn)"
    by (cases c)
  show ?case
    using serve_only_posts [unfolded Let_def, of cfg today cl peer conn st] Cons [of "snd (serve cfg today cl peer conn st)"]
    by (auto simp: c hook_post_def)
qed simp

text \<open>C34: In webhook mode nothing is ever sent without a secret, from the flag or the environment, and a POST to its
  path among the connections; in the other modes, or in the self test, the webhook does not run.\<close>

theorem http_program_authenticated:
  "let (sec, allowed, bg, front) = main_start fl env; cs = List.map_filter id accepts;
       st' = http_program fl env listen_error today accepts st in
     (jobs st' = jobs st \<and> ddp st' = ddp st \<and> logs st' = logs st)
     \<or> (front = HttpFront \<and> (if fl_secret fl = [] then env else fl_secret fl) = sec \<and> sec \<noteq> []
          \<and> fl_selftest fl \<le> 0 \<and> allowed = parseAllowList (fl_allowTo fl)
          \<and> list_ex (hook_post (http_config fl sec allowed)) cs)"
proof -
  let ?sec = "if fl_secret fl = [] then env else fl_secret fl"
  let ?cfg = "http_config fl ?sec (parseAllowList (fl_allowTo fl))"
  show ?thesis
    using serve_each_posts [of ?cfg today "List.map_filter id accepts" st]
    by (auto simp: http_program_def main_start_def runHTTP_def Let_def served_accept_loop split: option.splits)
qed

lemma atSrvCmd_no_submission:
  assumes "atSrvCmd srv cmd timeout io = (res, io')" and "\<not> contains (atSrvText cmd) ''>'' \<or> \<not> contains (to_upper (atSrvText cmd)) ''+CMGS=''"
  shows "submissions_in (trace io') = submissions_in (trace io)"
proof -
  have "\<not> is_submission req" if "atSrvFrame cmd timeout = Inr req" for req
    using frames_of_submission [of req cmd timeout] that assms(2) by (auto simp: frames_of_def)
  then show ?thesis
    using atSrvCmd_trace(1) [OF assms(1)] by (auto simp: submissions_in_def sent_requests_def)
qed

lemma submissions_nap [simp]: "submissions_in [Nap d] = 0"
  by (simp add: submissions_in_def sent_requests_def)

lemma selftest_commands:
  "\<not> contains (to_upper (atSrvText ''AT'')) ''+CMGS=''"
  "\<not> contains (to_upper (atSrvText ''AT+CSQ'')) ''+CMGS=''"
  "\<not> contains (to_upper (atSrvText ''AT+CMGF=0'')) ''+CMGS=''"
  "\<not> contains (to_upper (atSrvText (''AT+CMGW='' @ show_nat 14 @ ''>'' @ testPDU))) ''+CMGS=''"
  by code_simp+

lemma atSrvText_without: "c \<notin> set cmd \<Longrightarrow> c \<notin> set crlf \<Longrightarrow> c \<notin> set (atSrvText cmd)"
  by (auto simp: atSrvText_def trim_right_def Let_def dest: set_dropWhileD)

lemma selftest_cycles_submissions:
  "selftest_cycles srv pid i k n io = (res, io') \<Longrightarrow> submissions_in (trace io') = submissions_in (trace io)"
proof (induction k arbitrary: i n io)
  case (Suc k)
  let ?io = "if i > 1 then nap atSrvGap io else io"
  obtain at io1 where 1: "atSrvCmd srv ''AT'' (5 * second) ?io = (at, io1)"
    by fastforce
  obtain csq io2 where 2: "atSrvCmd srv ''AT+CSQ'' (5 * second) (nap atSrvGap io1) = (csq, io2)"
    by fastforce
  have "submissions_in (trace io2) = submissions_in (trace io)"
    using atSrvCmd_no_submission [OF 1] atSrvCmd_no_submission [OF 2] selftest_commands by simp
  moreover obtain m where "(if pid (server io2) = 0 then (Inl i, io2) else selftest_cycles srv pid (Suc i) k m io2) = (res, io')"
    using Suc.prems by (simp only: selftest_cycles.simps Let_def 1 2 prod.case)
  ultimately show ?case
    using Suc.IH [of "Suc i" m io2] by (auto split: if_splits)
qed simp

definition dry_index :: "dry_outcome \<Rightarrow> string" where
  "dry_index d = (case d of Deleted idx \<Rightarrow> idx | NotDeleted idx \<Rightarrow> idx | _ \<Rightarrow> [])"

text \<open>An index that turns the command that deletes it into a submission.\<close>

definition smuggles :: "string \<Rightarrow> bool" where
  "smuggles idx \<longleftrightarrow> contains (to_upper (atSrvText (''AT+CMGD='' @ idx))) ''+CMGS='' \<and> CHR ''>'' \<in> set idx"

lemma atSrvCmd_submission:
  "atSrvCmd srv cmd timeout io = (res, io') \<Longrightarrow>
     submissions_in (trace io') = submissions_in (trace io) \<or> submissions_in (trace io') = Suc (submissions_in (trace io))"
  by (auto simp: atSrvCmd_def submissions_in_def sent_requests_def split: sum.splits prod.splits reply.splits)

lemma delete_submissions:
  assumes "atSrvCmd srv (''AT+CMGD='' @ idx) timeout io = (res, io')"
  shows "submissions_in (trace io') = submissions_in (trace io)
    \<or> smuggles idx \<and> submissions_in (trace io') = Suc (submissions_in (trace io))"
proof (cases "smuggles idx")
  case True
  with atSrvCmd_submission [OF assms] show ?thesis
    by blast
next
  case False
  have "\<not> contains (atSrvText (''AT+CMGD='' @ idx)) ''>''" if "CHR ''>'' \<notin> set idx"
    using atSrvText_without [of "CHR ''>''" "''AT+CMGD='' @ idx"] that by (simp add: contains_single crlf_def)
  with False atSrvCmd_no_submission [OF assms] show ?thesis
    by (auto simp: smuggles_def)
qed

lemma dryRunCMGS_submissions:
  assumes "dryRunCMGS srv io = (d, io')"
  shows "submissions_in (trace io') = submissions_in (trace io)
    \<or> smuggles (dry_index d) \<and> submissions_in (trace io') = Suc (submissions_in (trace io))"
proof -
  obtain r0 io0 where 0: "atSrvCmd srv ''AT+CMGF=0'' (5 * second) io = (r0, io0)"
    by fastforce
  obtain r1 io1 where 1: "atSrvCmd srv (''AT+CMGW='' @ show_nat 14 @ ''>'' @ testPDU) (15 * second) (nap atSrvGap io0) = (r1, io1)"
    by fastforce
  have s: "submissions_in (trace io0) = submissions_in (trace io)" "submissions_in (trace io1) = submissions_in (trace io)"
    using atSrvCmd_no_submission [OF 0] atSrvCmd_no_submission [OF 1] selftest_commands by simp_all
  have "io' = io0 \<or> io' = io1 \<or> (\<exists>r2. atSrvCmd srv (''AT+CMGD='' @ dry_index d) (10 * second) (nap atSrvGap io1) = (r2, io'))"
    using assms unfolding dryRunCMGS_def 0 1 prod.case
    by (auto simp: dry_index_def split: prod.splits sum.splits if_splits option.splits list.splits)
  then show ?thesis
    using s delete_submissions [of srv "dry_index d" "10 * second" "nap atSrvGap io1" _ io'] by auto
qed

lemma runSelfTestATSrv_submissions:
  assumes "runSelfTestATSrv srv pid n io = (res, io')"
  shows "submissions_in (trace io') = submissions_in (trace io)
    \<or> (\<exists>k ok d. res = Finished k ok d \<and> smuggles (dry_index d)) \<and> submissions_in (trace io') = Suc (submissions_in (trace io))"
  using assms by (auto simp: runSelfTestATSrv_def Let_def split: if_splits prod.splits sum.splits
      dest!: selftest_cycles_submissions dryRunCMGS_submissions)

lemma node_cycles_writes:
  "node_cycles r i k okCount w = ((cs, m), w') \<Longrightarrow>
     at_io w' = at_io w \<and> filter submits (node_writes w') = filter submits (node_writes w)
     \<and> length cs = k \<and> okCount \<le> m \<and> m \<le> okCount + k"
proof (induction k arbitrary: i okCount w cs m)
  case (Suc k)
  show ?case
  proof (cases "node_error r (node_state w)")
    case (Some e)
    with Suc show ?thesis
      by (fastforce simp: Let_def split: prod.splits)
  next
    case None
    let ?d = "node_state w"
    obtain at p1 where 1: "port_cmd (node r) ''AT'' (3 * second) (fresh_port ?d) = (at, p1)"
      by fastforce
    obtain csq p2 where 2: "port_cmd (node r) ''AT+CSQ'' (3 * second) p1 = (csq, p2)"
      by fastforce
    have s: "sent p2 = [''AT'' @ [CHR 0x0D], ''AT+CSQ'' @ [CHR 0x0D]]"
      using port_cmd_sent [of "node r" "''AT''" "3 * second" "fresh_port ?d"]
        port_cmd_sent [of "node r" "''AT+CSQ''" "3 * second" p1] unfolding 1 2 by (simp add: fresh_port_def)
    let ?p = "port_close (node_ends r ?d) p2"
    let ?w = "w\<lparr>node_state := dev ?p, node_writes := node_writes w @ sent ?p\<rparr>"
    let ?n = "if contains (oneLine at) ''OK'' then okCount + 1 else okCount"
    obtain cs2 where "node_cycles r (Suc i) k ?n ?w = ((cs2, m), w')" "length cs = Suc (length cs2)"
      using Suc.prems None 1 2 by (auto simp: Let_def split: prod.splits)
    moreover have "filter submits (node_writes ?w) = filter submits (node_writes w)"
      by (simp add: port_close_def s submits_def)
    ultimately show ?thesis
      using Suc.IH [of "Suc i" ?n ?w cs2 m] by (simp split: if_splits)
  qed
qed simp

definition deleted_index :: "selftest_report \<Rightarrow> string" where
  "deleted_index rep = (case rep of ByServer (Finished k ok d) \<Rightarrow> dry_index d | _ \<Rightarrow> [])"

text \<open>C37: The self test sends no SMS over either transport and runs the number of cycles asked for, with one exception,
  which sends at most one: it pastes the index that atserver reports for the stored test record unchecked
  into the command that deletes the record, and an index with both \<^verbatim>\<open>+CMGS=\<close> and a prompt makes that command a submission.\<close>

theorem runSelfTest_sends_nothing:
  "let (rep, w') = runSelfTest r pick pid tasks n w in
     (modem_submissions w' = modem_submissions w
       \<or> pick w = ''atsrv'' \<and> contains (to_upper (atSrvText (''AT+CMGD='' @ deleted_index rep))) ''+CMGS=''
         \<and> CHR ''>'' \<in> set (deleted_index rep) \<and> modem_submissions w' = Suc (modem_submissions w))
     \<and> (case rep of ByNode cs okCount clean \<Rightarrow> length cs = n \<and> okCount \<le> n | ByServer res \<Rightarrow> node_writes w' = node_writes w)"
proof (cases "pick w = ''atsrv''")
  case True
  obtain res io where io: "runSelfTestATSrv (at_srv r) pid n (at_io w) = (res, io)"
    by fastforce
  show ?thesis
    using runSelfTestATSrv_submissions [OF io] True
    by (auto simp: runSelfTest_def io modem_submissions_def deleted_index_def smuggles_def split: selftest_result.splits)
next
  case False
  obtain cs m w' where c: "node_cycles r (Suc 0) n 0 w = ((cs, m), w')"
    by (metis prod.exhaust)
  show ?thesis
    using node_cycles_writes [OF c] False by (simp add: runSelfTest_def c modem_submissions_def)
qed

text \<open>The exception is real: a server that answers every command with such an index is handed a submission.\<close>

definition smuggling_answer :: string where
  "smuggling_answer = ''+CMGW: 1;+CMGS=14>00 OK''"

definition smuggling_server :: "unit atserver" where
  "smuggling_server req w =
     (Response (to_le 2 (length smuggling_answer) @ replicate 6 0 @ bytes_of_string smuggling_answer) [], w)"

lemma atSrvCmd_smuggling:
  assumes "length (atSrvText cmd) \<le> atSrvTextMax"
  shows "\<exists>f \<in> set (frames_of cmd timeout).
    atSrvCmd smuggling_server cmd timeout io = (Inr smuggling_answer, io\<lparr>trace := trace io @ [Request f]\<rparr>)"
proof -
  have "length smuggling_answer \<le> 0x2800"
    by (simp add: smuggling_answer_def)
  then show ?thesis
    using assms by (simp add: frames_of_def atSrvCmd_def atSrvFrame_cases smuggling_server_def parse_response_whole)
qed

lemma dry_run_smuggled: "submissions_in (trace (snd (dryRunCMGS smuggling_server io))) = Suc (submissions_in (trace io))"
proof -
  let ?del = "''AT+CMGD='' @ ''1;+CMGS=14>00''"
  have fit: "length (atSrvText ''AT+CMGF=0'') \<le> atSrvTextMax" "length (atSrvText ?del) \<le> atSrvTextMax"
      "length (atSrvText (''AT+CMGW='' @ show_nat 14 @ ''>'' @ testPDU)) \<le> atSrvTextMax"
    by code_simp+
  obtain io0 where 0: "atSrvCmd smuggling_server ''AT+CMGF=0'' (5 * second) io = (Inr smuggling_answer, io0)"
    using atSrvCmd_smuggling [OF fit(1)] by blast
  obtain io1 where 1: "atSrvCmd smuggling_server (''AT+CMGW='' @ show_nat 14 @ ''>'' @ testPDU) (15 * second) (nap atSrvGap io0)
      = (Inr smuggling_answer, io1)"
    using atSrvCmd_smuggling [OF fit(3)] by blast
  obtain f where f: "f \<in> set (frames_of ?del (10 * second))"
      and 2: "atSrvCmd smuggling_server ?del (10 * second) (nap atSrvGap io1)
        = (Inr smuggling_answer, (nap atSrvGap io1)\<lparr>trace := trace (nap atSrvGap io1) @ [Request f]\<rparr>)"
    using atSrvCmd_smuggling [OF fit(2)] by blast
  have texts: "contains smuggling_answer ''+CMGW''" "after_first ''+CMGW:'' (oneLine smuggling_answer) = Some '' 1;+CMGS=14>00 OK''"
      "go_fields '' 1;+CMGS=14>00 OK'' = [''1;+CMGS=14>00'', ''OK'']"
      "contains (to_upper (atSrvText ?del)) ''+CMGS=''" "contains (atSrvText ?del) ''>''"
    by code_simp+
  have "dryRunCMGS smuggling_server io
      = (if contains smuggling_answer ''OK'' then Deleted ''1;+CMGS=14>00'' else NotDeleted ''1;+CMGS=14>00'',
         (nap atSrvGap io1)\<lparr>trace := trace (nap atSrvGap io1) @ [Request f]\<rparr>)"
    unfolding dryRunCMGS_def
    by (simp only: 0 1 2 texts prod.case sum.case option.case list.case if_True not_True_eq_False if_False)
  moreover have "is_submission f"
    using frames_of_submission [OF f] texts by simp
  moreover have "submissions_in (trace io1) = submissions_in (trace io)"
    using atSrvCmd_no_submission [OF 0] atSrvCmd_no_submission [OF 1] selftest_commands by simp
  ultimately show ?thesis
    by (simp add: submissions_in_def sent_requests_def nap_def)
qed

lemma result_watchdog_record [simp]: "result_of (watchdog_record now result at) = Some (JStr result)"
  by (simp add: watchdog_record_def result_of_def)

text \<open>What one turn of the watchdog does: a process that runs is left alone; otherwise one record is written, and it
  reports a restart exactly when the start command ran and the process is there afterwards.\<close>

theorem watchdog_turn_outcome:
  "let w1 = pause h interval w; (w', st') = watchdog_turn h atBin interval (w, st) in
     if atserver_alive h atBin w1 then w' = w1 \<and> st' = st
     else ddp st' = ddp st \<and> hlth st' = hlth st \<and> jobs st' = jobs st \<and>
       (\<exists>r. logs st' = logs st @ [r] \<and>
         (if fst (exec h (start_command atBin) w1) = None \<and> atserver_alive h atBin w'
          then result_of r = Some (JStr ''atserver-restarted'')
          else result_of r = Some (JStr ''atserver-restart-failed'')))"
proof (cases "exec h (start_command atBin) (pause h interval w)")
  case (Pair e w2)
  then show ?thesis
    by (cases e; cases "atserver_alive h atBin (pause h (4 * second) w2)"; cases "atserver_alive h atBin (pause h interval w)")
      (auto simp: watchdog_turn_def startATServer_def atserver_alive_def ifStr_def Let_def)
qed

lemma watchdogLoop_last:
  "watchdogLoop h atBin interval (Suc n) s = watchdog_turn h atBin interval (watchdogLoop h atBin interval n s)"
  by (induction n arbitrary: s) simp_all

text \<open>C38: Whatever the system does, the records of the watchdog are exactly one per turn that found atserver gone, in the
  order of the turns, and each says whether the start command ran and the process was there after it; a
  process that runs is left alone. So after any turn atserver runs, unless the last record reports that the
  restart failed. The watchdog touches nothing else.\<close>

theorem watchdogLoop_revives:
  "let W = (\<lambda>k. fst (watchdogLoop h atBin interval k (w, st))); st' = snd (watchdogLoop h atBin interval n (w, st));
       gone = (\<lambda>k. \<not> atserver_alive h atBin (pause h interval (W k)));
       started = (\<lambda>k. fst (exec h (start_command atBin) (pause h interval (W k))) = None \<and> atserver_alive h atBin (W (Suc k)))
   in \<exists>rs. logs st' = logs st @ rs
        \<and> map result_of rs = map (\<lambda>k. Some (JStr (if started k then ''atserver-restarted'' else ''atserver-restart-failed'')))
            (filter gone [0..<n])
        \<and> (\<forall>k < n. \<not> gone k \<longrightarrow> W (Suc k) = pause h interval (W k))
        \<and> (0 < n \<longrightarrow> atserver_alive h atBin (W n) \<or> rs \<noteq> [] \<and> result_of (last rs) = Some (JStr ''atserver-restart-failed''))
        \<and> ddp st' = ddp st \<and> hlth st' = hlth st \<and> jobs st' = jobs st"
proof (induction n)
  case (Suc n)
  let ?W = "\<lambda>k. fst (watchdogLoop h atBin interval k (w, st))" and ?st = "snd (watchdogLoop h atBin interval n (w, st))"
  let ?gone = "\<lambda>k. \<not> atserver_alive h atBin (pause h interval (?W k))"
  let ?started = "\<lambda>k. fst (exec h (start_command atBin) (pause h interval (?W k))) = None \<and> atserver_alive h atBin (?W (Suc k))"
  let ?say = "\<lambda>k. Some (JStr (if ?started k then ''atserver-restarted'' else ''atserver-restart-failed''))"
  obtain rs where rs: "logs ?st = logs st @ rs" "map result_of rs = map ?say (filter ?gone [0..<n])"
      "\<forall>k < n. \<not> ?gone k \<longrightarrow> ?W (Suc k) = pause h interval (?W k)"
      "ddp ?st = ddp st" "hlth ?st = hlth st" "jobs ?st = jobs st"
    using Suc unfolding Let_def by blast
  obtain w1 st1 where turn: "watchdog_turn h atBin interval (?W n, ?st) = (w1, st1)"
    by fastforce
  have turned: "watchdogLoop h atBin interval (Suc n) (w, st) = (w1, st1)"
    unfolding watchdogLoop_last using turn by simp
  have W: "?W (Suc n) = w1"
    by (simp only: turned fst_conv)
  note out = watchdog_turn_outcome [where h = h and interval = interval and w = "?W n" and atBin = atBin and st = ?st,
      unfolded turn Let_def prod.case]
  show ?case
  proof (cases "?gone n")
    case False
    then have "w1 = pause h interval (?W n)" and "st1 = ?st"
      using out by auto
    with False rs W turned show ?thesis
      unfolding Let_def by (intro exI [of _ rs]) (auto simp: less_Suc_eq simp del: watchdogLoop.simps)
  next
    case True
    obtain r where r: "logs st1 = logs ?st @ [r]" "result_of r = ?say n"
        "ddp st1 = ddp ?st" "hlth st1 = hlth ?st" "jobs st1 = jobs ?st"
      using out True unfolding W by (auto split: if_splits)
    with True rs W turned show ?thesis
      unfolding Let_def by (intro exI [of _ "rs @ [r]"]) (auto simp: less_Suc_eq simp del: watchdogLoop.simps)
  qed
qed simp

text \<open>A system on which atserver dies in every interval and can be started.\<close>

definition frail_host :: "bool host" where
  "frail_host = \<lparr>clock = (\<lambda>w. 0), pause = (\<lambda>d w. if d = 4 * second then w else False),
     proc = (\<lambda>w. Some (if w then [(''7'', Some (bytes_of_string ''/bin/atserver''))] else [])),
     status_file = (\<lambda>w. None), exec = (\<lambda>cmd w. (None, True))\<rparr>"

lemma cstr_text: "CHR 0x00 \<notin> set s \<Longrightarrow> cstr (bytes_of_string s) = bytes_of_string s"
proof (induction s)
  case (Cons c s)
  have "char_of (0 :: nat) = CHR 0x00"
    by code_simp
  then have "byte_of_char c = 0 \<Longrightarrow> c = CHR 0x00"
    using char_of_byte_of_char [of c] by (simp add: char_of_byte_def)
  with Cons show ?case
    by (auto simp: bytes_of_string_def)
qed (simp add: bytes_of_string_def)

theorem watchdogLoop_revives_witness:
  "let st' = snd (watchdogLoop frail_host ''/bin/atserver'' (60 * second) 3 (True, init_relay)) in
     map result_of (logs st') = replicate 3 (Some (JStr ''atserver-restarted''))"
proof -
  have "show_nat 7 = ''7''"
    by code_simp
  then have seven: "atoi ''7'' = (7, True)"
    using atoi_show_nat [of 7] by (simp add: int_max_def)
  have alive: "atserver_alive frail_host ''/bin/atserver'' w \<longleftrightarrow> w" for w
  proof -
    have "bytes_of_string ''/bin/atserver'' \<noteq> []"
      by (simp flip: length_greater_0_conv)
    then show ?thesis
      using seven
      by (simp add: atserver_alive_def frail_host_def atServerPID_def cstr_text has_prefix_def)
  qed
  have host: "exec frail_host cmd w = (None, True)" "pause frail_host d w = (if d = 4 * second then w else False)" for cmd d w
    by (simp_all add: frail_host_def)
  have turn: "fst (watchdog_turn frail_host ''/bin/atserver'' (60 * second) (w, st)) = True" for w st
  proof -
    have "pause frail_host (60 * second) w = False" and "pause frail_host (4 * second) True = True"
      by (simp_all add: host)
    then show ?thesis
      using alive [unfolded atserver_alive_def] host(1)
      by (simp add: watchdog_turn_def startATServer_def Let_def split: prod.split option.split)
  qed
  have W: "fst (watchdogLoop frail_host ''/bin/atserver'' (60 * second) (Suc k) (True, init_relay)) = True" for k
    unfolding watchdogLoop_last
    using turn [of "fst (watchdogLoop frail_host ''/bin/atserver'' (60 * second) k (True, init_relay))"
        "snd (watchdogLoop frail_host ''/bin/atserver'' (60 * second) k (True, init_relay))"] by simp
  have "pause frail_host (60 * second) w = False" for w
    by (simp add: host)
  with watchdogLoop_revives [of frail_host "''/bin/atserver''" "60 * second" True init_relay 3, unfolded Let_def W]
  show ?thesis
    by (auto simp: alive host(1) init_relay_def numeral_3_eq_3 Let_def simp del: watchdogLoop.simps)
qed

text \<open>
  The goroutines beside the front end append records to the log at any time. As events of the front end, they
  keep its laws.
\<close>

definition with_background :: "(int \<Rightarrow> 'r \<Rightarrow> relay \<Rightarrow> relay) \<Rightarrow> int \<Rightarrow> 'r + log_record \<Rightarrow> relay \<Rightarrow> relay" where
  "with_background h now e st = (case e of Inl r \<Rightarrow> h now r st | Inr rec \<Rightarrow> logJSON rec st)"

interpretation hook_background: front_end "with_background (hook_handler cfg)" "cooldown cfg" "destinationAllowed (allowedDest cfg)"
  for cfg
proof
  fix now st and e :: "request + log_record"
  show "hlth (with_background (hook_handler cfg) now e st) = hlth st"
    using hook.keeps_health [of cfg] by (cases e) (simp_all add: with_background_def)
  show "jobs (with_background (hook_handler cfg) now e st) = jobs st \<and> ddp (with_background (hook_handler cfg) now e st) = ddp st
      \<or> (\<exists>j. jobs (with_background (hook_handler cfg) now e st) = jobs st @ [j]
           \<and> may_send (destinationAllowed (allowedDest cfg)) j
           \<and> claimPDU (cooldown cfg) now (job_pdu j) (ddp st) = (True, ddp (with_background (hook_handler cfg) now e st)))"
    using hook.accepts [of cfg now _ st] by (cases e) (auto simp: with_background_def)
qed

lemma hook_ignores_log:
  assumes "jobs st1 = jobs st2" and "ddp st1 = ddp st2"
  shows "jobs (hook_handler cfg now req st1) = jobs (hook_handler cfg now req st2)
    \<and> ddp (hook_handler cfg now req st1) = ddp (hook_handler cfg now req st2)"
  using handleHook_verdict [of cfg now req st1] handleHook_verdict [of cfg now req st2] assms
  by (cases "hook_verdict cfg now req (ddp st2)") (simp_all add: Let_def case_prod_beta)

definition requests_of :: "(int \<times> ('r + log_record)) list \<Rightarrow> (int \<times> 'r) list" where
  "requests_of es = List.map_filter (\<lambda>(t, e). case e of Inl r \<Rightarrow> Some (t, r) | Inr _ \<Rightarrow> None) es"

lemma requests_of_simps [simp]:
  "requests_of [] = []" "requests_of ((t, Inl r) # es) = (t, r) # requests_of es"
  "requests_of ((t, Inr rec) # es) = requests_of es"
  by (simp_all add: requests_of_def List.map_filter_simps)

lemma background_ignored:
  assumes "jobs st1 = jobs st2" and "ddp st1 = ddp st2"
  shows "jobs (handle_all (with_background (hook_handler cfg)) es st1) = jobs (handle_all (hook_handler cfg) (requests_of es) st2)
    \<and> ddp (handle_all (with_background (hook_handler cfg)) es st1) = ddp (handle_all (hook_handler cfg) (requests_of es) st2)"
  using assms
proof (induction es arbitrary: st1 st2)
  case (Cons e es)
  obtain t x where e: "e = (t, x)"
    by (cases e)
  show ?case
  proof (cases x)
    case (Inl r)
    then show ?thesis
      using Cons.IH hook_ignores_log [OF Cons.prems] by (simp add: e with_background_def)
  next
    case (Inr rec)
    then show ?thesis
      using Cons.IH Cons.prems by (simp add: e with_background_def)
  qed
qed simp

text \<open>Wherever the watchdog and the memory log write their records among the requests, the webhook accepts the same
  jobs in the same order.\<close>

theorem background_neutral:
  "jobs (handle_all (with_background (hook_handler cfg)) es st) = jobs (handle_all (hook_handler cfg) (requests_of es) st)"
  using background_ignored [of st st cfg es] by simp

end
