(* ===== verification/Base64_Sha1.thy ===== *)
theory Base64_Sha1
  imports Relay_Prelude
begin

text \<open>
  The two encodings of the WebSocket handshake: \<^verbatim>\<open>base64.StdEncoding\<close> and \<^verbatim>\<open>sha1.Sum\<close>, on bytes and 32-bit
  words.
\<close>

section \<open>Base64\<close>

definition b64_alphabet :: string where
  "b64_alphabet = ''ABCDEFGHIJKLMNOPQRSTUVWXYZabcdefghijklmnopqrstuvwxyz0123456789+/''"

definition b64_char :: "nat \<Rightarrow> char" where
  "b64_char n = b64_alphabet ! n"

fun base64 :: "byte list \<Rightarrow> string" where
  "base64 [] = []"
| "base64 [a] = [b64_char (unat a div 4), b64_char (unat a mod 4 * 16), CHR ''='', CHR ''='']"
| "base64 [a, b] =
     [b64_char (unat a div 4), b64_char (unat a mod 4 * 16 + unat b div 16), b64_char (unat b mod 16 * 4), CHR ''='']"
| "base64 (a # b # c # s) =
     [b64_char (unat a div 4), b64_char (unat a mod 4 * 16 + unat b div 16),
      b64_char (unat b mod 16 * 4 + unat c div 64), b64_char (unat c mod 64)] @ base64 s"

text \<open>A decoder, to show that the text determines the bytes.\<close>

definition b64_val :: "char \<Rightarrow> nat" where
  "b64_val c = length (takeWhile (\<lambda>d. d \<noteq> c) b64_alphabet)"

fun unbase64 :: "string \<Rightarrow> byte list" where
  "unbase64 (p # q # r # s # t) =
     (if r = CHR ''='' then [of_nat (b64_val p * 4 + b64_val q div 16)]
      else if s = CHR ''='' then
        [of_nat (b64_val p * 4 + b64_val q div 16), of_nat (b64_val q mod 16 * 16 + b64_val r div 4)]
      else [of_nat (b64_val p * 4 + b64_val q div 16), of_nat (b64_val q mod 16 * 16 + b64_val r div 4),
            of_nat (b64_val r mod 4 * 64 + b64_val s)] @ unbase64 t)"
| "unbase64 _ = []"

definition printable :: "char \<Rightarrow> bool" where
  "printable c \<longleftrightarrow> 0x20 < (of_char c :: nat) \<and> of_char c < (0x7F :: nat)"

lemma takeWhile_distinct: "distinct xs \<Longrightarrow> n < length xs \<Longrightarrow> takeWhile (\<lambda>x. x \<noteq> xs ! n) xs = take n xs"
proof (induction xs arbitrary: n)
  case (Cons x xs)
  then show ?case
    by (cases n) (auto simp: in_set_conv_nth)
qed simp

lemma b64_alphabet: "distinct b64_alphabet" "length b64_alphabet = 64"
  by (simp_all add: b64_alphabet_def)

lemma b64_val_char: "n < 64 \<Longrightarrow> b64_val (b64_char n) = n"
  using takeWhile_distinct [OF b64_alphabet(1), of n] by (simp add: b64_val_def b64_char_def b64_alphabet)

lemma b64_char_printable: "n < 64 \<Longrightarrow> printable (b64_char n)" "n < 64 \<Longrightarrow> b64_char n \<noteq> CHR ''=''"
proof -
  have "\<forall>c \<in> set b64_alphabet. printable c \<and> c \<noteq> CHR ''=''"
    by (simp add: b64_alphabet_def printable_def)
  then show "n < 64 \<Longrightarrow> printable (b64_char n)" "n < 64 \<Longrightarrow> b64_char n \<noteq> CHR ''=''"
    by (simp_all add: b64_char_def b64_alphabet)
qed

text \<open>The bit fields of the bytes, and the bytes put together from them.\<close>

lemma byte_fields:
  "unat (a :: byte) div 4 < 64" "unat (a :: byte) mod 4 * 16 + unat (b :: byte) div 16 < 64"
  "unat (b :: byte) mod 16 * 4 + unat (c :: byte) div 64 < 64" "unat (a :: byte) mod 4 * 16 < 64"
  "unat (b :: byte) mod 16 * 4 < 64" "unat (c :: byte) mod 64 < 64"
  "(unat a mod 4 * 16 + unat b div 16) div 16 = unat a mod 4"
  "(unat a mod 4 * 16 + unat b div 16) mod 16 = unat b div 16"
  "(unat b mod 16 * 4 + unat c div 64) div 4 = unat b mod 16"
  "(unat b mod 16 * 4 + unat c div 64) mod 4 = unat c div 64" "unat c div 64 mod 4 = unat c div 64"
proof -
  have d: "unat a div 4 < 64" "unat b div 16 < 16" "unat c div 64 < 4"
    using unat_byte_less [of a] unat_byte_less [of b] unat_byte_less [of c]
    by (simp_all add: less_mult_imp_div_less)
  have m: "unat a mod 4 < 4" "unat b mod 16 < 16" "unat c mod 64 < 64"
    by simp_all
  show "unat a div 4 < 64" "unat a mod 4 * 16 + unat b div 16 < 64" "unat b mod 16 * 4 + unat c div 64 < 64"
    "unat a mod 4 * 16 < 64" "unat b mod 16 * 4 < 64" "unat c mod 64 < 64"
    using d m by linarith+
  show "(unat a mod 4 * 16 + unat b div 16) div 16 = unat a mod 4"
    "(unat a mod 4 * 16 + unat b div 16) mod 16 = unat b div 16"
    "(unat b mod 16 * 4 + unat c div 64) div 4 = unat b mod 16"
    "(unat b mod 16 * 4 + unat c div 64) mod 4 = unat c div 64" "unat c div 64 mod 4 = unat c div 64"
    using d by simp_all
qed

lemma byte_join: "of_nat (unat (a :: byte) div k * k + unat a mod k) = a"
  by simp

lemma unbase64_base64: "unbase64 (base64 s) = s"
proof (induction s rule: base64.induct)
  case (2 a)
  then show ?case
    using byte_join [of a 4] by (simp add: b64_val_char b64_char_printable byte_fields)
next
  case (3 a b)
  then show ?case
    using byte_join [of a 4] byte_join [of b 16] by (simp add: b64_val_char b64_char_printable byte_fields)
next
  case (4 a b c s)
  then show ?case
    using byte_join [of a 4] byte_join [of b 16] byte_join [of c 64] by (simp add: b64_val_char b64_char_printable byte_fields)
qed simp

lemma base64_eq_Nil [simp]: "base64 s = [] \<longleftrightarrow> s = []"
  by (cases s rule: base64.cases) simp_all

lemma base64_inj: "base64 s = base64 t \<Longrightarrow> s = t"
  by (metis unbase64_base64)

lemma base64_printable: "list_all printable (base64 s)"
proof -
  have "printable (CHR ''='')"
    by (simp add: printable_def)
  then show ?thesis
    by (induction s rule: base64.induct)
      (simp_all only: base64.simps append.simps list.pred_inject b64_char_printable(1) byte_fields simp_thms)
qed

section \<open>SHA-1\<close>

unbundle bit_operations_syntax

type_synonym word32 = "32 word"

definition rotl :: "nat \<Rightarrow> word32 \<Rightarrow> word32" where
  "rotl n x = push_bit n x OR drop_bit (32 - n) x"

definition word_be :: "byte list \<Rightarrow> word32" where
  "word_be bs = foldl (\<lambda>w b. push_bit 8 w OR ucast b) 0 bs"

definition sha1_pad :: "byte list \<Rightarrow> byte list" where
  "sha1_pad msg = msg @ 0x80 # replicate ((119 - length msg mod 64) mod 64) 0 @ to_be 8 (8 * length msg)"

fun schedule :: "nat \<Rightarrow> word32 list \<Rightarrow> word32 list" where
  "schedule 0 ws = rev ws"
| "schedule (Suc n) ws = schedule n (rotl 1 (ws ! 2 XOR ws ! 7 XOR ws ! 13 XOR ws ! 15) # ws)"

type_synonym sha_state = "word32 \<times> word32 \<times> word32 \<times> word32 \<times> word32"

definition sha_f :: "nat \<Rightarrow> word32 \<Rightarrow> word32 \<Rightarrow> word32 \<Rightarrow> word32" where
  "sha_f t b c d =
     (if t < 20 then (b AND c) OR (NOT b AND d)
      else if t < 40 then b XOR c XOR d
      else if t < 60 then (b AND c) OR (b AND d) OR (c AND d)
      else b XOR c XOR d)"

definition sha_k :: "nat \<Rightarrow> word32" where
  "sha_k t = (if t < 20 then 0x5A827999 else if t < 40 then 0x6ED9EBA1 else if t < 60 then 0x8F1BBCDC else 0xCA62C1D6)"

fun sha_rounds :: "nat \<Rightarrow> word32 list \<Rightarrow> sha_state \<Rightarrow> sha_state" where
  "sha_rounds t [] s = s"
| "sha_rounds t (w # ws) (a, b, c, d, e) =
     sha_rounds (Suc t) ws (rotl 5 a + sha_f t b c d + e + sha_k t + w, a, rotl 30 b, c, d)"

definition sha_block :: "word32 list \<Rightarrow> sha_state \<Rightarrow> sha_state" where
  "sha_block ws s =
     (let (a, b, c, d, e) = s; (a', b', c', d', e') = sha_rounds 0 (schedule 64 (rev ws)) s
      in (a + a', b + b', c + c', d + d', e + e'))"

text \<open>A list cut into pieces of \<open>n\<close>.\<close>

function chunks :: "nat \<Rightarrow> 'a list \<Rightarrow> 'a list list" where
  "chunks n xs = (if n = 0 \<or> xs = [] then [] else take n xs # chunks n (drop n xs))"
  by pat_completeness auto
termination
  by (relation "measure (length \<circ> snd)") auto

definition sha1 :: "byte list \<Rightarrow> byte list" where
  "sha1 msg =
     (let (a, b, c, d, e) = fold (\<lambda>ch. sha_block (map word_be (chunks 4 ch))) (chunks 64 (sha1_pad msg))
            (0x67452301, 0xEFCDAB89, 0x98BADCFE, 0x10325476, 0xC3D2E1F0)
      in concat (map (\<lambda>w. map (\<lambda>k. ucast (drop_bit k w)) [24, 16, 8, 0]) [a, b, c, d, e]))"

declare chunks.simps [simp del]

lemma length_sha1 [simp]: "length (sha1 msg) = 20"
  by (simp add: sha1_def case_prod_beta)

lemma sha1_nonempty [simp]: "sha1 msg \<noteq> []"
  using length_sha1 [of msg] by force

end
