(* ===== verification/Ws_Handshake.thy ===== *)
theory Ws_Handshake
  imports Ws_Session Base64_Sha1 "HOL-Library.List_Lexorder" "HOL-Library.Char_ord"
begin

text \<open>
  \<^verbatim>\<open>wsDial\<close> (\<^verbatim>\<open>ws.go\<close>): the address that is dialled, the request with the device's identity in its query, and the
  check of the server's answer. The parser of \<^verbatim>\<open>net/url\<close>, the network and TLS are parameters.
\<close>

section \<open>Hosts and ports\<close>

definition joinHostPort :: "string \<Rightarrow> string \<Rightarrow> string" where
  "joinHostPort host port =
     (if index_byte host (CHR '':'') \<noteq> None then ''['' @ host @ '']:'' @ port else host @ '':'' @ port)"

text \<open>Whether \<^verbatim>\<open>net.SplitHostPort\<close> returns no error.\<close>

definition has_port :: "string \<Rightarrow> bool" where
  "has_port s =
     (case last_index s (CHR '':'') of
        None \<Rightarrow> False
      | Some i \<Rightarrow>
          if s \<noteq> [] \<and> hd s = CHR ''['' then
            (case index_byte s (CHR '']'') of
               None \<Rightarrow> False
             | Some e \<Rightarrow> e + 1 = i
                 \<and> index_byte (drop 1 s) (CHR ''['') = None \<and> index_byte (drop (e + 1) s) (CHR '']'') = None)
          else index_byte (take i s) (CHR '':'') = None
            \<and> index_byte s (CHR ''['') = None \<and> index_byte s (CHR '']'') = None)"

record url =
  u_scheme :: string
  u_opaque :: string
  u_host :: string
  u_path :: string
  u_query :: string

text \<open>\<^verbatim>\<open>u.Hostname()\<close> and \<^verbatim>\<open>u.Port()\<close>: a colon counts only before an empty or decimal port.\<close>

definition split_host :: "string \<Rightarrow> string \<times> string" where
  "split_host h =
     (case last_index h (CHR '':'') of
        None \<Rightarrow> (h, [])
      | Some i \<Rightarrow> if list_all is_digit (drop (i + 1) h) then (take i h, drop (i + 1) h) else (h, []))"

definition hostname :: "url \<Rightarrow> string" where
  "hostname u =
     (let h = fst (split_host (u_host u)) in
      if has_prefix h ''['' \<and> last h = CHR '']'' then butlast (tl h) else h)"

definition url_port :: "url \<Rightarrow> string" where
  "url_port u = snd (split_host (u_host u))"

section \<open>Queries\<close>

text \<open>\<^verbatim>\<open>url.QueryEscape\<close> and \<^verbatim>\<open>url.QueryUnescape\<close>.\<close>

definition unreserved :: "char \<Rightarrow> bool" where
  "unreserved c \<longleftrightarrow>
     (let n = code c in 48 \<le> n \<and> n \<le> 57 \<or> 65 \<le> n \<and> n \<le> 90 \<or> 97 \<le> n \<and> n \<le> 122)
     \<or> c \<in> {CHR ''-'', CHR ''_'', CHR ''.'', CHR ''~''}"

definition query_escape :: "string \<Rightarrow> string" where
  "query_escape s =
     concat (map (\<lambda>c. if unreserved c then [c] else if c = CHR '' '' then ''+''
        else [CHR ''%'', hex_upper (code c div 16), hex_upper (code c mod 16)]) s)"

fun query_unescape :: "string \<Rightarrow> string option" where
  "query_unescape [] = Some []"
| "query_unescape (c # s) =
     (if c = CHR ''%'' then
        (case s of
           a # b # t \<Rightarrow>
             (case (from_hex_char a, from_hex_char b) of
                (Some x, Some y) \<Rightarrow> map_option ((#) (char_of (16 * x + y))) (query_unescape t)
              | _ \<Rightarrow> None)
         | _ \<Rightarrow> None)
      else map_option ((#) (if c = CHR ''+'' then CHR '' '' else c)) (query_unescape s))"

text \<open>\<^verbatim>\<open>strings.Cut\<close> at a byte.\<close>

definition cut :: "char \<Rightarrow> string \<Rightarrow> string \<times> string" where
  "cut x s = (case index_byte s x of None \<Rightarrow> (s, []) | Some i \<Rightarrow> (take i s, drop (i + 1) s))"

text \<open>
  \<^verbatim>\<open>u.Query()\<close>: the values per key, an association list in the order of the first occurrence; what cannot be
  read is left out.
\<close>

type_synonym query = "(string \<times> string list) list"

definition query_add :: "string \<Rightarrow> string \<Rightarrow> query \<Rightarrow> query" where
  "query_add k v q = AList.update k ((case map_of q k of None \<Rightarrow> [] | Some vs \<Rightarrow> vs) @ [v]) q"

definition query_item :: "string \<Rightarrow> query \<Rightarrow> query" where
  "query_item s q =
     (if s = [] \<or> CHR '';'' \<in> set s then q
      else let (k, v) = cut (CHR ''='') s in
        case (query_unescape k, query_unescape v) of
          (Some k, Some v) \<Rightarrow> query_add k v q
        | _ \<Rightarrow> q)"

definition parse_query :: "string \<Rightarrow> query" where
  "parse_query s = fold query_item (split_on (CHR ''&'') s) []"

text \<open>\<^verbatim>\<open>q.Encode()\<close>: sorted by key.\<close>

definition encode_query :: "query \<Rightarrow> string" where
  "encode_query q =
     join_with ''&'' (concat (map (\<lambda>(k, vs). map (\<lambda>v. query_escape k @ CHR ''='' # query_escape v) vs) (sort_key fst q)))"

definition request_uri :: "url \<Rightarrow> string" where
  "request_uri u =
     (let r = (if u_opaque u = [] then (if u_path u = [] then ''/'' else u_path u)
               else if has_prefix (u_opaque u) ''//'' then u_scheme u @ '':'' @ u_opaque u else u_opaque u)
      in if u_query u \<noteq> [] then r @ ''?'' @ u_query u else r)"

section \<open>The dial\<close>

definition wsGUID :: string where "wsGUID = ''258EAFA5-E914-47DA-95CA-C5AB0DC85B11''"

definition accept_key :: "string \<Rightarrow> string" where
  "accept_key key = base64 (sha1 (bytes_of_string (key @ wsGUID)))"

definition with_device :: "string \<Rightarrow> url \<Rightarrow> url" where
  "with_device deviceID u = u\<lparr>u_query := encode_query (AList.update ''device_id'' [deviceID] (parse_query (u_query u)))\<rparr>"

text \<open>The address: the one of the URL with its default port, unless \<^verbatim>\<open>-ws-connect-to\<close> gives another.\<close>

definition dial_addr :: "string \<Rightarrow> url \<Rightarrow> string" where
  "dial_addr wsConnTo u =
     (let port = (if url_port u = [] then ifStr (u_scheme u = ''wss'') ''443'' ''80'' else url_port u) in
      if wsConnTo \<noteq> [] then if has_port wsConnTo then wsConnTo else joinHostPort wsConnTo port
      else joinHostPort (hostname u) port)"

definition upgrade_request :: "url \<Rightarrow> string \<Rightarrow> string" where
  "upgrade_request u key =
     ''GET '' @ request_uri u @ '' HTTP/1.1'' @ crlf @ ''Host: '' @ u_host u @ crlf @ ''Upgrade: websocket'' @ crlf
     @ ''Connection: Upgrade'' @ crlf @ ''Sec-WebSocket-Key: '' @ key @ crlf @ ''Sec-WebSocket-Version: 13'' @ crlf
     @ ''User-Agent: sms-relay'' @ crlf @ crlf"

text \<open>The loop over the headers of the answer: the value of the last accept header, and what follows the blank line.\<close>

function read_accept :: "string \<Rightarrow> string \<Rightarrow> (string \<times> string) option" where
  "read_accept accept s =
     (case read_line s of
        None \<Rightarrow> None
      | Some (line, s') \<Rightarrow>
          if is_blank_line line then Some (accept, s')
          else read_accept
            (case index_byte line (CHR '':'') of
               None \<Rightarrow> accept
             | Some i \<Rightarrow>
                 if i > 0 \<and> equal_fold (trim_space (take i line)) ''Sec-WebSocket-Accept''
                 then trim_space (drop (i + 1) line) else accept) s')"
  by pat_completeness auto
termination
  by (relation "measure (\<lambda>(a, s). length s)") (auto dest: read_line_shorter)

declare read_accept.simps [simp del]

datatype dial_error =
    BadURL | BadScheme string | NoConnection string | BadRoots string | TlsFailed string | NoRandom | NotSent string
  | NoStatus | UpgradeRefused string | NoHeaders | BadAccept string

text \<open>What \<^verbatim>\<open>wsDial\<close> does to the connection, in order.\<close>

datatype dial_event = Dialled string | Secured string | Sent string | Closed

text \<open>
  The outcomes of the calls: the parsed URL, an error of the TCP dial, of \<^verbatim>\<open>rootPool\<close>, of the TLS handshake (with
  the hint), the sixteen bytes of \<^verbatim>\<open>randRead\<close>, an error of the write, and what the server sends until
  it closes or the deadline passes.
\<close>

record dial_env =
  de_parse :: "string \<Rightarrow> url option"
  de_tcp :: "string \<Rightarrow> string option"
  de_roots :: "string option"
  de_tls :: "string \<Rightarrow> string option"
  de_nonce :: "byte list option"
  de_write :: "string \<Rightarrow> string option"
  de_reply :: "string \<Rightarrow> string"

definition check_answer :: "string \<Rightarrow> string \<Rightarrow> dial_error + string" where
  "check_answer key reply =
     (case read_line reply of
        None \<Rightarrow> Inl NoStatus
      | Some (status, s) \<Rightarrow>
          if \<not> has_prefix status ''HTTP/1.1 101'' then Inl (UpgradeRefused (trim_space status))
          else (case read_accept [] s of
              None \<Rightarrow> Inl NoHeaders
            | Some (accept, rest) \<Rightarrow> if accept \<noteq> accept_key key then Inl (BadAccept accept) else Inr rest))"

definition upgrade :: "dial_env \<Rightarrow> url \<Rightarrow> dial_event list \<Rightarrow> (dial_error + string) \<times> dial_event list" where
  "upgrade env u t =
     (case de_nonce env of
        None \<Rightarrow> (Inl NoRandom, t @ [Closed])
      | Some nonce \<Rightarrow>
          let key = base64 nonce; req = upgrade_request u key in
          (case de_write env req of
             Some e \<Rightarrow> (Inl (NotSent e), t @ [Closed])
           | None \<Rightarrow>
               (case check_answer key (de_reply env req) of
                  Inl e \<Rightarrow> (Inl e, t @ [Sent req, Closed])
                | Inr rest \<Rightarrow> (Inr rest, t @ [Sent req]))))"

text \<open>\<open>Inr rest\<close>: the connection is up, and \<open>rest\<close> is what the server has sent beyond its answer.\<close>

definition wsDial :: "dial_env \<Rightarrow> string \<Rightarrow> string \<Rightarrow> string \<Rightarrow> (dial_error + string) \<times> dial_event list" where
  "wsDial env wsConnTo rawURL deviceID =
     (case de_parse env rawURL of
        None \<Rightarrow> (Inl BadURL, [])
      | Some u0 \<Rightarrow>
          if u_scheme u0 \<noteq> ''wss'' \<and> u_scheme u0 \<noteq> ''ws'' then (Inl (BadScheme (u_scheme u0)), [])
          else
            let u = with_device deviceID u0; addr = dial_addr wsConnTo u in
            (case de_tcp env addr of
               Some e \<Rightarrow> (Inl (NoConnection e), [])
             | None \<Rightarrow>
                 if u_scheme u = ''wss'' then
                   (case de_roots env of
                      Some e \<Rightarrow> (Inl (BadRoots e), [Dialled addr, Closed])
                    | None \<Rightarrow>
                        (case de_tls env (hostname u) of
                           Some e \<Rightarrow> (Inl (TlsFailed e), [Dialled addr, Closed])
                         | None \<Rightarrow> upgrade env u [Dialled addr, Secured (hostname u)]))
                 else upgrade env u [Dialled addr]))"

section \<open>Facts about queries\<close>

lemma query_unescape_escape: "query_unescape (query_escape s @ t) = map_option ((@) s) (query_unescape t)"
proof (induction s)
  case (Cons c s)
  have hex: "16 * (code c div 16) + code c mod 16 = code c" "code c div 16 < 16"
    by (simp_all add: less_mult_imp_div_less)
  have plus: "unreserved c \<Longrightarrow> c \<noteq> CHR ''%'' \<and> c \<noteq> CHR ''+''"
    by (auto simp: unreserved_def Let_def)
  show ?case
    using Cons hex plus
    by (cases "query_unescape t") (auto simp: query_escape_def)
qed (simp add: query_escape_def option.map_ident)

lemma query_escape_back: "query_unescape (query_escape s) = Some s"
  using query_unescape_escape [of s "[]"] by simp

lemma hex_upper_code: "n < 16 \<Longrightarrow> code (hex_upper n) = (if n < 10 then 48 + n else 55 + n)"
  by (simp add: hex_upper_def)

lemma query_escape_set: "c \<in> set (query_escape s) \<Longrightarrow> unreserved c \<or> c = CHR ''+'' \<or> c = CHR ''%''"
proof (induction s)
  case (Cons d s)
  have "unreserved (hex_upper n)" if "n < 16" for n
    using hex_upper_code [OF that] that by (simp add: unreserved_def Let_def)
  note digit = this
  have "unreserved (hex_upper (code d div 16))" and "unreserved (hex_upper (code d mod 16))"
    by (rule digit, simp add: less_mult_imp_div_less)+
  moreover have "c \<in> set (if unreserved d then [d] else if d = CHR '' '' then ''+''
      else [CHR ''%'', hex_upper (code d div 16), hex_upper (code d mod 16)]) \<or> c \<in> set (query_escape s)"
    using Cons.prems by (simp add: query_escape_def)
  ultimately show ?case
    using Cons.IH by (auto simp del: hex_upper_code split: if_splits)
qed (simp add: query_escape_def)

lemma query_escape_free:
  "CHR ''&'' \<notin> set (query_escape s)" "CHR '';'' \<notin> set (query_escape s)" "CHR ''='' \<notin> set (query_escape s)"
proof -
  have "\<not> unreserved (CHR ''&'')" "\<not> unreserved (CHR '';'')" "\<not> unreserved (CHR ''='')"
    by (simp_all add: unreserved_def)
  then show "CHR ''&'' \<notin> set (query_escape s)" "CHR '';'' \<notin> set (query_escape s)" "CHR ''='' \<notin> set (query_escape s)"
    using query_escape_set [of "CHR ''&''" s] query_escape_set [of "CHR '';''" s] query_escape_set [of "CHR ''=''" s]
    by auto
qed

lemma cut_at: "x \<notin> set a \<Longrightarrow> cut x (a @ x # b) = (a, b)"
  by (simp add: cut_def index_byte_append)

lemma query_item_text: "query_item (query_escape k @ CHR ''='' # query_escape v) = query_add k v"
  by (rule ext) (simp add: query_item_def cut_at query_escape_free query_escape_back)

definition query_pairs :: "query \<Rightarrow> (string \<times> string) list" where
  "query_pairs q = concat (map (\<lambda>(k, vs). map (Pair k) vs) q)"

lemma map_query_pairs: "map (\<lambda>(k, v). f k v) (query_pairs q) = concat (map (\<lambda>(k, vs). map (f k) vs) q)"
  by (induction q) (auto simp: query_pairs_def)

lemma parse_encoded_pairs: "parse_query (encode_query q) = fold (\<lambda>(k, v). query_add k v) (query_pairs (sort_key fst q)) []"
proof -
  let ?ws = "map (\<lambda>(k, v). query_escape k @ CHR ''='' # query_escape v) (query_pairs (sort_key fst q))"
  have enc: "encode_query q = join_with ''&'' ?ws"
    by (simp only: encode_query_def map_query_pairs)
  have "parse_query (encode_query q) = fold query_item ?ws []"
  proof (cases "?ws = []")
    case True
    then show ?thesis
      unfolding enc parse_query_def by (simp add: query_item_def)
  next
    case False
    have "list_all (\<lambda>w. CHR ''&'' \<notin> set w) ?ws"
      by (auto simp: list_all_iff query_escape_free)
    then have "split_on (CHR ''&'') (join_with ''&'' ?ws) = ?ws"
      by (rule split_join) (rule False)
    then show ?thesis
      by (simp only: enc parse_query_def)
  qed
  also have "\<dots> = fold (\<lambda>(k, v). query_add k v) (query_pairs (sort_key fst q)) []"
    by (simp add: fold_map comp_def split_def query_item_text)
  finally show ?thesis .
qed

text \<open>The values a key has in a list of pairs, and in what \<open>query_add\<close> makes of it.\<close>

definition values_of :: "query \<Rightarrow> string \<Rightarrow> string list" where
  "values_of q k = (case map_of q k of None \<Rightarrow> [] | Some vs \<Rightarrow> vs)"

lemma values_of_add: "values_of (query_add k v q) k' = values_of q k' @ (if k' = k then [v] else [])"
  by (simp add: values_of_def query_add_def update_conv)

lemma values_of_fold:
  "values_of (fold (\<lambda>(k, v). query_add k v) ps q) k = values_of q k @ map snd (filter (\<lambda>p. fst p = k) ps)"
  by (induction ps arbitrary: q) (auto simp: values_of_add)

lemma query_pairs_values:
  "distinct (map fst q) \<Longrightarrow> map snd (filter (\<lambda>p. fst p = k) (query_pairs q)) = values_of q k"
proof (induction q)
  case (Cons e q)
  have "values_of q (fst e) = []" if "fst e \<notin> fst ` set q"
    using that map_of_eq_None_iff [of q "fst e"] by (simp add: values_of_def)
  with Cons show ?case
    by (cases e) (auto simp: query_pairs_def values_of_def filter_concat filter_map comp_def)
qed (simp add: query_pairs_def values_of_def)

lemma values_of_encoded:
  assumes "distinct (map fst q)"
  shows "values_of (parse_query (encode_query q)) k = values_of q k"
proof -
  have d: "distinct (map fst (sort_key fst q))"
    using assms by (metis distinct_map distinct_sort set_sort)
  have "map_of (sort_key fst q) k = map_of q k"
    using map_of_eq_Some_iff [OF d, of k] map_of_eq_Some_iff [OF assms, of k]
    by (metis not_None_eq set_sort)
  then show ?thesis
    unfolding parse_encoded_pairs values_of_fold query_pairs_values [OF d]
    by (simp add: values_of_def)
qed

lemma parse_query_distinct: "distinct (map fst (parse_query s))"
proof -
  have "distinct (map fst (fold query_item ws q))" if "distinct (map fst q)" for ws q
    using that
  proof (induction ws arbitrary: q)
    case (Cons w ws)
    then show ?case
      by (simp add: query_item_def query_add_def distinct_update case_prod_beta Let_def split: option.split)
  qed simp
  then show ?thesis
    by (simp add: parse_query_def)
qed

text \<open>The query names the device once, whatever the URL says of it, and leaves every other parameter as it was.\<close>

theorem with_device_query:
  "values_of (parse_query (u_query (with_device deviceID u))) k =
     (if k = ''device_id'' then [deviceID] else values_of (parse_query (u_query u)) k)"
  using values_of_encoded [OF distinct_update [OF parse_query_distinct]]
  by (simp add: with_device_def values_of_def update_conv)

section \<open>The answer and the protocol\<close>

definition last_accept :: "(string \<times> string) list \<Rightarrow> string \<Rightarrow> string" where
  "last_accept hs a = fold (\<lambda>h a. if equal_fold (fst h) ''Sec-WebSocket-Accept'' then snd h else a) hs a"

lemma read_accept_line:
  "read_line s = Some (line, s') \<Longrightarrow> read_accept a s =
     (if is_blank_line line then Some (a, s')
      else read_accept
        (case index_byte line (CHR '':'') of
           None \<Rightarrow> a
         | Some i \<Rightarrow>
             if i > 0 \<and> equal_fold (trim_space (take i line)) ''Sec-WebSocket-Accept''
             then trim_space (drop (i + 1) line) else a) s')"
  by (subst read_accept.simps) simp

lemma read_accept_text:
  "list_all good_header hs \<Longrightarrow> read_accept a (concat (map header_text hs) @ crlf @ rest) = Some (last_accept hs a, rest)"
proof (induction hs arbitrary: a)
  case Nil
  have "read_line (crlf @ rest) = Some (crlf, rest)"
    using read_line_append [of "[CHR 0x0D]" rest] by (simp add: crlf_def)
  then show ?case
    by (simp add: read_accept_line is_blank_line_def last_accept_def)
next
  case (Cons h hs)
  obtain k v where h: "h = (k, v)"
    by (cases h)
  have good: "good_header (k, v)" and hs: "list_all good_header hs"
    using Cons.prems by (simp_all add: h)
  have i: "index_byte (header_text h) (CHR '':'') = Some (length k)"
    using good by (simp add: h header_text_def good_header_def index_byte_append)
  have "trim_space k = k"
    using good trim_space_padded [of k "[]" "[]"] by (simp add: good_header_def list_all_iff)
  moreover have "trim_space ('' '' @ v @ crlf) = v"
    using good by (intro trim_space_padded) (simp_all add: good_header_def crlf_def)
  moreover have "k \<noteq> []"
    using good by (simp add: good_header_def)
  moreover have "take (length k) (header_text h) = k" "drop (length k + 1) (header_text h) = '' '' @ v @ crlf"
    by (simp_all add: h header_text_def)
  moreover have "\<not> is_blank_line (header_text h)"
    using read_line_header(2) [OF good] by (simp add: h)
  moreover have "read_line (header_text h @ concat (map header_text hs) @ crlf @ rest)
      = Some (header_text h, concat (map header_text hs) @ crlf @ rest)"
    using read_line_header(1) [OF good] by (simp add: h)
  note read_accept_line [OF this, of a]
  ultimately show ?case
    using Cons.IH [OF hs] i by (simp add: last_accept_def h del: equal_fold.simps)
qed

text \<open>C36: The server's answer: the connection is up exactly when the status is 101 and the last accept header is the
  base64 text of the SHA-1 of the key and the fixed salt; what the server sends after the blank line is
  then left for the frames, byte for byte.\<close>

theorem check_answer_text:
  assumes "CHR 0x0A \<notin> set status" and "list_all good_header hs"
  shows "check_answer key (status @ crlf @ concat (map header_text hs) @ crlf @ rest) =
    (if \<not> has_prefix (status @ crlf) ''HTTP/1.1 101'' then Inl (UpgradeRefused (trim_space (status @ crlf)))
     else if last_accept hs [] = accept_key key then Inr rest else Inl (BadAccept (last_accept hs [])))"
proof -
  have "read_line (status @ crlf @ s) = Some (status @ crlf, s)" for s
    using assms(1) read_line_append [of "status @ [CHR 0x0D]" s] by (simp add: crlf_def)
  then show ?thesis
    using read_accept_text [OF assms(2)]
    by (auto simp: check_answer_def)
qed

lemma good_accept_header: "good_header (''sec-websocket-accept'', accept_key key)"
proof -
  have "list_all printable (accept_key key)" and "accept_key key \<noteq> []"
    using base64_printable by (simp_all add: accept_key_def)
  then show ?thesis
    by (auto simp: good_header_def list_all_iff printable_def visible_def)
qed

theorem check_answer_text_witness:
  "check_answer ''dGhlIHNhbXBsZSBub25jZQ=='' (''HTTP/1.1 101 Switching Protocols'' @ crlf
     @ concat (map header_text [(''Upgrade'', ''websocket''), (''sec-websocket-accept'', accept_key ''dGhlIHNhbXBsZSBub25jZQ=='')])
     @ crlf @ ''xy'') = Inr ''xy''"
proof -
  let ?hs = "[(''Upgrade'', ''websocket''), (''sec-websocket-accept'', accept_key ''dGhlIHNhbXBsZSBub25jZQ=='')]"
  have "list_all good_header ?hs"
    using good_accept_header by (simp add: good_header_def visible_def)
  moreover have "equal_fold ''sec-websocket-accept'' ''Sec-WebSocket-Accept''"
    by code_simp
  then have "last_accept ?hs [] = accept_key ''dGhlIHNhbXBsZSBub25jZQ==''"
    by (simp add: last_accept_def del: equal_fold.simps)
  moreover have "has_prefix (''HTTP/1.1 101 Switching Protocols'' @ crlf) ''HTTP/1.1 101''"
    by (simp add: has_prefix_def)
  ultimately show ?thesis
    using check_answer_text [of "''HTTP/1.1 101 Switching Protocols''" ?hs "''dGhlIHNhbXBsZSBub25jZQ==''" "''xy''"]
    by simp
qed

text \<open>What a dial may have done when it returns: with the connection up, one request and the answer that was checked;
  with an error, nothing, or some of the same steps and a close.\<close>

definition dial_ok :: "dial_env \<Rightarrow> url \<Rightarrow> dial_event list \<Rightarrow> (dial_error + string) \<Rightarrow> dial_event list \<Rightarrow> bool" where
  "dial_ok env u start r t \<longleftrightarrow>
     (case r of
        Inr rest \<Rightarrow>
          (\<exists>nonce. t = start @ [Sent (upgrade_request u (base64 nonce))]
             \<and> check_answer (base64 nonce) (de_reply env (upgrade_request u (base64 nonce))) = Inr rest)
      | Inl e \<Rightarrow> t = [] \<or>
          (\<exists>p nonce. prefix p (start @ [Sent (upgrade_request u (base64 nonce))]) \<and> hd p = hd start \<and> t = p @ [Closed]))"

lemma dial_ok_closed:
  assumes "prefix p start" and "p \<noteq> []"
  shows "dial_ok env u start (Inl e) (p @ [Closed])"
proof -
  have "hd p = hd start" and "prefix p (start @ q)" for q
    using assms by (auto simp: prefix_def)
  then show ?thesis
    unfolding dial_ok_def sum.case by blast
qed

lemma upgrade_ok:
  assumes "start \<noteq> []"
  shows "dial_ok env u start (fst (upgrade env u start)) (snd (upgrade env u start))"
proof -
  have "dial_ok env u start (Inl e) (start @ [Sent (upgrade_request u (base64 n)), Closed])" for e n
    unfolding dial_ok_def sum.case
    by (intro disjI2 exI [of _ "start @ [Sent (upgrade_request u (base64 n))]"] exI [of _ n]) (use assms in simp)
  moreover have "dial_ok env u start (Inl e) (start @ [Closed])" for e
    using assms by (intro dial_ok_closed) simp_all
  moreover have "dial_ok env u start (Inr rest) (start @ [Sent (upgrade_request u (base64 n))])"
    if "check_answer (base64 n) (de_reply env (upgrade_request u (base64 n))) = Inr rest" for n rest
    using that by (auto simp: dial_ok_def)
  ultimately show ?thesis
    by (auto simp: upgrade_def Let_def split: option.split sum.split)
qed

text \<open>C35: The dial, whatever the outcomes of its calls: the connection goes to the address of the URL or the pinned one,
  is secured for the URL's own host name before anything is written, carries one upgrade request for
  that URL with the device in its query; and every failure after the connection was made closes it.\<close>

theorem wsDial_protocol:
  "let (r, t) = wsDial env wsConnTo rawURL deviceID in
   case de_parse env rawURL of
     None \<Rightarrow> r = Inl BadURL \<and> t = []
   | Some u0 \<Rightarrow>
       let u = with_device deviceID u0;
           start = Dialled (dial_addr wsConnTo u) # (if u_scheme u0 = ''wss'' then [Secured (hostname u0)] else [])
       in case r of
         Inr rest \<Rightarrow> u_scheme u0 \<in> {''ws'', ''wss''} \<and>
           (\<exists>nonce. t = start @ [Sent (upgrade_request u (base64 nonce))]
              \<and> check_answer (base64 nonce) (de_reply env (upgrade_request u (base64 nonce))) = Inr rest)
       | Inl e \<Rightarrow> t = [] \<or>
           (\<exists>p nonce. prefix p (start @ [Sent (upgrade_request u (base64 nonce))]) \<and> hd p = hd start \<and> t = p @ [Closed])"
proof (cases "de_parse env rawURL")
  case None
  then show ?thesis
    by (simp add: wsDial_def)
next
  case (Some u0)
  let ?u = "with_device deviceID u0" and ?W = "wsDial env wsConnTo rawURL deviceID"
  let ?start = "Dialled (dial_addr wsConnTo ?u) # (if u_scheme u0 = ''wss'' then [Secured (hostname u0)] else [])"
  have sel: "u_scheme ?u = u_scheme u0" "hostname ?u = hostname u0"
    by (simp_all add: with_device_def hostname_def)
  have early: "dial_ok env ?u ?start (Inl e) ([Dialled (dial_addr wsConnTo ?u)] @ [Closed])" for e
    by (rule dial_ok_closed) simp_all
  have late: "dial_ok env ?u ?start (fst (upgrade env ?u ?start)) (snd (upgrade env ?u ?start))"
    by (rule upgrade_ok) simp
  have "dial_ok env ?u ?start (fst ?W) (snd ?W) \<and> (case fst ?W of Inr rest \<Rightarrow> u_scheme u0 \<in> {''ws'', ''wss''} | Inl e \<Rightarrow> True)"
    using early late
    by (cases "u_scheme u0 = ''wss''"; cases "u_scheme u0 = ''ws''")
      (auto simp: wsDial_def Some sel Let_def dial_ok_def [of _ _ _ "Inl _" "[]"] split: option.split sum.split)
  then show ?thesis
    unfolding dial_ok_def by (simp only: Let_def case_prod_beta option.case Some) (auto split: sum.splits)
qed

end
