(* ===== verification/Ws_Program.thy ===== *)
theory Ws_Program
  imports Housekeeping Ws_Handshake Ws_Session
begin

text \<open>
  The program in WebSocket mode (\<^verbatim>\<open>ws.go\<close>: \<^verbatim>\<open>runWS\<close>, from \<^verbatim>\<open>main\<close>): the identity is loaded or the program ends;
  then each pass dials with that identity, and a connection whose handshake succeeded is served under the identity's
  key. Everything the calls of a pass return is given per attempt.
\<close>

record ws_flags =
  wf_url :: string
  wf_idFile :: string
  wf_logDir :: string
  wf_hello :: string
  wf_connTo :: string

text \<open>What \<^verbatim>\<open>loadWSIdentity\<close> meets: the files, two draws of \<^verbatim>\<open>randRead\<close>, and whether the file can be written.\<close>

record id_env =
  ie_file :: "string \<Rightarrow> string option"
  ie_device :: "byte list option"
  ie_key :: "byte list option"
  ie_writable :: bool

text \<open>An attempt: the outcomes of the dial, those of the writes on the connection, and how long it lasts.\<close>

type_synonym attempt = "dial_env \<times> write_result list \<times> int"

definition attempt_pass :: "ws_flags \<Rightarrow> (dial_error \<Rightarrow> string) \<Rightarrow> string \<Rightarrow> attempt \<Rightarrow> pass" where
  "attempt_pass wfl err device a =
     (let (env, ws, lasted) = a in
      case fst (wsDial env (wf_connTo wfl) (wf_url wfl) device) of
        Inl e \<Rightarrow> DialFailed (err e)
      | Inr rest \<Rightarrow> Connected \<lparr>input = bytes_of_string rest, frames_out = [], write_results = ws\<rparr> lasted)"

datatype ws_result = WsExits int | WsRuns "int list"

record ws_setting =
  ws_cipher :: session_env
  ws_rss :: string
  ws_error_text :: "ws_error \<Rightarrow> string"
  ws_dial_text :: "dial_error \<Rightarrow> string"

definition identity_of :: "ws_flags \<Rightarrow> id_env \<Rightarrow> id_error + wsIdentity \<times> byte list" where
  "identity_of wfl ie =
     fst (loadWSIdentity (ie_file ie (wsIdentityPath (wf_idFile wfl) (wf_logDir wfl)))
            (ie_device ie) (ie_key ie) (ie_writable ie))"

definition runWS :: "config \<Rightarrow> ws_flags \<Rightarrow> ws_setting \<Rightarrow> id_env \<Rightarrow> int \<Rightarrow> attempt list \<Rightarrow> relay \<Rightarrow> ws_result \<times> relay" where
  "runWS cfg wfl s ie now attempts st =
     (case identity_of wfl ie of
        Inl e \<Rightarrow> (WsExits 1, st)
      | Inr (i, key) \<Rightarrow>
          let env = \<lparr>re_cfg = cfg, re_session = ws_cipher s, re_hello = wf_hello wfl, re_key = key,
                     re_rss = ws_rss s, re_error = ws_error_text s\<rparr>;
              (delays, st) = run_ws env now (map (attempt_pass wfl (ws_dial_text s) (DeviceID i)) attempts) (0, st)
          in (WsRuns delays, st))"

definition ws_program ::
    "flags \<Rightarrow> string \<Rightarrow> ws_flags \<Rightarrow> ws_setting \<Rightarrow> id_env \<Rightarrow> int \<Rightarrow> attempt list \<Rightarrow> relay \<Rightarrow> relay" where
  "ws_program fl env wfl s ie now attempts st =
     (let (sec, allowed, bg, front) = main_start fl env in
      if front \<noteq> WsFront then st
      else snd (runWS (http_config fl sec allowed) wfl s ie now attempts st))"

section \<open>The requests of a run\<close>

text \<open>What a pass decrypts, in order; nothing if the greeting cannot be sent.\<close>

definition pass_requests :: "session_env \<Rightarrow> string \<Rightarrow> byte list \<Rightarrow> pass \<Rightarrow> (int \<times> byte list) list" where
  "pass_requests env hello key p =
     (case p of
        DialFailed e \<Rightarrow> []
      | Connected c l \<Rightarrow>
          if hello = [] then session_requests env key c
          else (case writeFrame opText (bytes_of_string hello) c of
              (Some e, c) \<Rightarrow> []
            | (None, c) \<Rightarrow> session_requests env key c))"

definition run_requests :: "ws_flags \<Rightarrow> ws_setting \<Rightarrow> wsIdentity \<times> byte list \<Rightarrow> attempt list \<Rightarrow> (int \<times> byte list) list" where
  "run_requests wfl s ident attempts =
     concat (map (\<lambda>a. pass_requests (ws_cipher s) (wf_hello wfl) (snd ident)
       (attempt_pass wfl (ws_dial_text s) (DeviceID (fst ident)) a)) attempts)"

lemma handle_all_append: "handle_all h (rs @ ss) st = handle_all h ss (handle_all h rs st)"
  by (induction rs arbitrary: st) simp_all

lemma same_sending_refl [simp]: "same_sending st st"
  by (simp add: same_sending_def)

lemma same_sending_trans: "same_sending a b \<Longrightarrow> same_sending b c \<Longrightarrow> same_sending a c"
  by (simp add: same_sending_def)

lemma same_sending_log [simp]: "same_sending (logJSON x a) b = same_sending a b"
  by (simp add: same_sending_def)

lemma wsServe_refines:
  "same_sending st st2 \<Longrightarrow> same_sending (snd (snd (wsServe cfg env hello key c st)))
     (handle_all (handleWSRequest cfg) (pass_requests env hello key (Connected c l)) st2)"
  by (auto simp: wsServe_def pass_requests_def serve_loop_refines split: prod.split option.split)

lemma run_ws_refines:
  "same_sending st st2 \<Longrightarrow> same_sending (snd (run_ws env now ps (n, st)))
     (handle_all (handleWSRequest (re_cfg env)) (concat (map (pass_requests (re_session env) (re_hello env) (re_key env)) ps)) st2)"
proof (induction ps arbitrary: now n st st2)
  case (Cons p ps)
  show ?case
  proof (cases p)
    case (DialFailed e)
    with Cons show ?thesis
      by (simp add: run_pass_def Let_def case_prod_beta pass_requests_def)
  next
    case (Connected c l)
    with Cons show ?thesis
      by (simp add: run_pass_def Let_def case_prod_beta handle_all_append wsServe_refines)
  qed
qed simp

lemma session_requests_decrypted:
  "(t, plain) \<in> set (session_requests env key c) \<Longrightarrow> \<exists>payload. wsDecrypt (se_cipher env) payload key = Inr plain"
proof (induction env key c rule: session_requests.induct)
  case (1 env key c)
  obtain r c1 where r: "readMessage c = (r, c1)"
    by fastforce
  show ?case
  proof (cases r)
    case (Inl e)
    with r "1.prems" show ?thesis
      by (subst (asm) session_requests.simps) simp
  next
    case (Inr m)
    obtain op payload where m: "m = (op, payload)"
      by (cases m)
    note IH = "1.IH" [OF r [symmetric] Inr [unfolded m] refl]
    have step: "session_requests env key c =
        (if op = opText then session_requests env key c1
         else case wsDecrypt (se_cipher env) payload key of
             Inl e \<Rightarrow> session_requests env key c1
           | Inr p \<Rightarrow> (se_clock env c1, p) # session_requests env key c1)"
      using r Inr m by (subst session_requests.simps) simp
    show ?thesis
    proof (cases "op = opText")
      case True
      with step "1.prems" IH(1) show ?thesis
        by simp
    next
      case False
      with step "1.prems" IH(2,3) show ?thesis
        by (cases "wsDecrypt (se_cipher env) payload key") auto
    qed
  qed
qed

lemma run_requests_secured:
  assumes "(t, plain) \<in> set (run_requests wfl s (i, key) attempts)"
  shows "\<exists>a payload rest. a \<in> set attempts \<and> fst (wsDial (fst a) (wf_connTo wfl) (wf_url wfl) (DeviceID i)) = Inr rest
    \<and> wsDecrypt (se_cipher (ws_cipher s)) payload key = Inr plain"
proof -
  obtain a where a: "a \<in> set attempts"
      "(t, plain) \<in> set (pass_requests (ws_cipher s) (wf_hello wfl) key (attempt_pass wfl (ws_dial_text s) (DeviceID i) a))"
    using assms by (auto simp: run_requests_def)
  obtain c l where c: "attempt_pass wfl (ws_dial_text s) (DeviceID i) a = Connected c l"
    using a(2) by (cases "attempt_pass wfl (ws_dial_text s) (DeviceID i) a") (auto simp: pass_requests_def)
  have "\<exists>c. (t, plain) \<in> set (session_requests (ws_cipher s) key c)"
    using a(2) unfolding c by (auto simp: pass_requests_def split: if_splits prod.splits option.splits)
  then have "\<exists>payload. wsDecrypt (se_cipher (ws_cipher s)) payload key = Inr plain"
    using session_requests_decrypted by blast
  moreover have "\<exists>rest. fst (wsDial (fst a) (wf_connTo wfl) (wf_url wfl) (DeviceID i)) = Inr rest"
    using c by (auto simp: attempt_pass_def Let_def case_prod_beta split: sum.splits)
  ultimately show ?thesis
    using a(1) by blast
qed

section \<open>Properties\<close>

text \<open>C21: In WebSocket mode nothing happens without an identity, and in the other modes the gateway does not run. With one,
  a run of any passes starts exactly what the requests it decrypts start one after the other: each a message
  that decrypts under the identity's key, from a connection whose handshake succeeded for the identity's device;
  every job goes to a destination of the flags' list, and repeated PDUs keep the cooldown across reconnects.\<close>

theorem ws_program_authenticated:
  assumes "fl_cooldown fl \<le> max_duration"
  shows "let (sec, allowed, bg, front) = main_start fl env; st' = ws_program fl env wfl s ie now attempts st in
     if front \<noteq> WsFront then st' = st
     else case identity_of wfl ie of
         Inl e \<Rightarrow> st' = st
       | Inr (i, key) \<Rightarrow>
           let h = handleWSRequest (http_config fl sec allowed); reqs = run_requests wfl s (i, key) attempts; acc = accepted h reqs st in
           same_sending st' (handle_all h reqs st) \<and> jobs st' = jobs st @ map snd acc
           \<and> list_all (\<lambda>a. may_send (destinationAllowed (parseAllowList (fl_allowTo fl))) (snd a)) acc
           \<and> spaced (fl_cooldown fl) (map (map_prod id job_pdu) acc)
           \<and> list_all (\<lambda>(t, plain). \<exists>a payload rest. a \<in> set attempts
                \<and> fst (wsDial (fst a) (wf_connTo wfl) (wf_url wfl) (DeviceID i)) = Inr rest
                \<and> wsDecrypt (se_cipher (ws_cipher s)) payload key = Inr plain) reqs"
proof -
  obtain sec allowed bg front where m: "main_start fl env = (sec, allowed, bg, front)"
    by (cases "main_start fl env")
  let ?cfg = "http_config fl sec allowed"
  show ?thesis
  proof (cases "identity_of wfl ie")
    case (Inl e)
    then show ?thesis
      by (simp add: m ws_program_def runWS_def)
  next
    case (Inr r)
    obtain i key where r: "r = (i, key)"
      by (cases r)
    let ?reqs = "run_requests wfl s (i, key) attempts" and ?st = "ws_program fl env wfl s ie now attempts st"
    have cool: "cooldown ?cfg \<le> max_duration" "cooldown ?cfg = fl_cooldown fl"
      using assms by (simp_all add: http_config_def)
    show ?thesis
    proof (cases "front = WsFront")
      case True
      then have al: "allowedDest ?cfg = parseAllowList (fl_allowTo fl)"
        using m by (auto simp: main_start_def Let_def http_config_def split: if_splits)
      have ref: "same_sending ?st (handle_all (handleWSRequest ?cfg) ?reqs st)"
        using True Inr r m run_ws_refines [OF same_sending_refl, of
            "\<lparr>re_cfg = ?cfg, re_session = ws_cipher s, re_hello = wf_hello wfl, re_key = key,
               re_rss = ws_rss s, re_error = ws_error_text s\<rparr>" now "map (attempt_pass wfl (ws_dial_text s) (DeviceID i)) attempts" 0 st]
        by (auto simp: ws_program_def runWS_def Let_def case_prod_beta run_requests_def comp_def)
      have "list_all (\<lambda>(t, plain). \<exists>a payload rest. a \<in> set attempts
                \<and> fst (wsDial (fst a) (wf_connTo wfl) (wf_url wfl) (DeviceID i)) = Inr rest
                \<and> wsDecrypt (se_cipher (ws_cipher s)) payload key = Inr plain) ?reqs"
        unfolding list_all_iff using run_requests_secured by fast
      with True Inr r m ref al show ?thesis
        using gateway.handle_all_jobs [of ?cfg ?reqs st] gateway.accepted_may_send [of ?cfg ?reqs st]
          gateway.accepted_spaced [OF cool(1), of ?reqs st] cool(2)
        by (simp add: Let_def same_sending_def)
    next
      case False
      then show ?thesis
        by (simp add: m ws_program_def)
    qed
  qed
qed


section \<open>A run\<close>

text \<open>A server that answers the handshake and then sends the bytes \<open>b\<close>.\<close>

definition answering :: "byte list \<Rightarrow> dial_env" where
  "answering b = \<lparr>
     de_parse = (\<lambda>_. Some \<lparr>u_scheme = ''ws'', u_opaque = [], u_host = ''panel'', u_path = ''/ws/'', u_query = []\<rparr>),
     de_tcp = (\<lambda>_. None), de_roots = None, de_tls = (\<lambda>_. None), de_nonce = Some (replicate 16 0), de_write = (\<lambda>_. None),
     de_reply = (\<lambda>_. ''HTTP/1.1 101 Switching Protocols'' @ crlf
       @ header_text (''sec-websocket-accept'', accept_key (base64 (replicate 16 0))) @ crlf @ string_of_bytes b)\<rparr>"

lemma accepted_answer:
  "check_answer key (''HTTP/1.1 101 Switching Protocols'' @ crlf
     @ header_text (''sec-websocket-accept'', accept_key key) @ crlf @ rest) = Inr rest"
proof -
  let ?status = "''HTTP/1.1 101 Switching Protocols''"
  have "read_line (?status @ crlf @ s) = Some (?status @ crlf, s)" for s
    using read_line_append [of "?status @ [CHR 0x0D]" s] by (simp add: crlf_def)
  moreover have "has_prefix (?status @ crlf) ''HTTP/1.1 101''"
    by (simp add: has_prefix_def)
  moreover have "equal_fold ''sec-websocket-accept'' ''Sec-WebSocket-Accept''"
    by code_simp
  then have "last_accept [(''sec-websocket-accept'', accept_key key)] [] = accept_key key"
    by (simp add: last_accept_def del: equal_fold.simps)
  ultimately show ?thesis
    using read_accept_text [of "[(''sec-websocket-accept'', accept_key key)]" "[]" rest] good_accept_header
    by (simp add: check_answer_def del: append_Cons)
qed

lemma dial_answering: "fst (wsDial (answering b) connTo url device) = Inr (string_of_bytes b)"
  using accepted_answer [of "base64 (replicate 16 0)" "string_of_bytes b"]
  by (simp add: wsDial_def answering_def Let_def with_device_def upgrade_def del: append_Cons)

definition ws_test_flags :: flags where
  "ws_test_flags = \<lparr>fl_secret = [], fl_selftest = 0, fl_mode = ''ws'', fl_allowTo = [], fl_cooldown = 90 * second,
     fl_logURL = False, fl_reqlog = False, fl_memlog = 0, fl_watchdog = 0\<rparr>"

definition ws_test_urls :: ws_flags where
  "ws_test_urls = \<lparr>wf_url = ''ws://panel/ws/'', wf_idFile = ''id.json'', wf_logDir = ''/log'', wf_hello = [], wf_connTo = []\<rparr>"

definition ws_test_setting :: ws_setting where
  "ws_test_setting = \<lparr>ws_cipher = test_env, ws_rss = [], ws_error_text = (\<lambda>_. []), ws_dial_text = (\<lambda>_. [])\<rparr>"

definition ws_test_id :: id_env where
  "ws_test_id = \<lparr>ie_file = (\<lambda>_. None), ie_device = Some (replicate 8 0xA5), ie_key = Some (replicate 16 7), ie_writable = True\<rparr>"

theorem ws_program_authenticated_witness:
  "length (jobs (ws_program ws_test_flags [] ws_test_urls ws_test_setting ws_test_id 0
     [(answering (input test_conn), [], 60 * second), (answering (input test_conn), [], 60 * second)] init_relay)) = 1"
proof -
  let ?as = "[(answering (input test_conn), [], 60 * second), (answering (input test_conn), [], 60 * second)] :: attempt list"
  let ?i = "\<lparr>DeviceID = hex_encode (replicate 8 0xA5), Key = hex_encode (replicate 16 7)\<rparr>"
  let ?cfg = "http_config ws_test_flags [] []"
  have start: "main_start ws_test_flags [] = ([], [], [], WsFront)"
    by code_simp
  have ident: "identity_of ws_test_urls ws_test_id = Inr (?i, replicate 16 7)"
    by (simp add: identity_of_def ws_test_id_def loadWSIdentity_def Let_def)
  have conn: "\<lparr>input = input test_conn, frames_out = [], write_results = []\<rparr> = test_conn"
    by (simp add: test_conn_def)
  have reqs: "run_requests ws_test_urls ws_test_setting (?i, replicate 16 7) ?as = [(0, test_plain), (0, test_plain)]"
    by (simp add: run_requests_def attempt_pass_def dial_answering pass_requests_def ws_test_urls_def ws_test_setting_def
      conn test_requests)
  have acc: "length (accepted (handleWSRequest ?cfg) [(0, test_plain), (0, test_plain)] init_relay) = 1"
    by code_simp
  have "fl_cooldown ws_test_flags \<le> max_duration"
    by (simp add: ws_test_flags_def max_duration_def)
  from ws_program_authenticated [OF this, of "[]" ws_test_urls ws_test_setting ws_test_id 0 ?as init_relay]
  have "jobs (ws_program ws_test_flags [] ws_test_urls ws_test_setting ws_test_id 0 ?as init_relay)
      = jobs init_relay @ map snd (accepted (handleWSRequest ?cfg) [(0, test_plain), (0, test_plain)] init_relay)"
    unfolding start ident Let_def prod.case sum.case reqs by simp
  with acc show ?thesis
    by (simp add: init_relay_def)
qed

end
