(* ===== verification/Json_Encode.thy ===== *)
theory Json_Encode
  imports Json_Print
begin

text \<open>
  Strings as \<^verbatim>\<open>encoding/json\<close> writes them: quotes, backslashes and control characters escaped, the characters
  that matter in HTML and JavaScript too, and bytes that are no UTF-8 replaced. Whatever the string, its
  encoding is one line, and the decoder reads back the string with those bytes replaced.
\<close>

definition escape_html :: "char \<Rightarrow> string" where
  "escape_html c =
     (if c = CHR 0x22 \<or> c = CHR 0x5C then [CHR 0x5C, c]
      else if c = CHR 8 then [CHR 0x5C, CHR ''b'']
      else if c = CHR 12 then [CHR 0x5C, CHR ''f'']
      else if c = CHR 10 then [CHR 0x5C, CHR ''n'']
      else if c = CHR 13 then [CHR 0x5C, CHR ''r'']
      else if c = CHR 9 then [CHR 0x5C, CHR ''t'']
      else if code c < 0x20 \<or> c \<in> {CHR ''<'', CHR ''>'', CHR 0x26}
      then [CHR 0x5C] @ ''u00'' @ [hex_lower (code c div 16), hex_lower (code c mod 16)]
      else [c])"

text \<open>U+2028 and U+2029.\<close>

definition line_separator :: string where "line_separator = map char_of [0xE2, 0x80, 0xA8 :: nat]"
definition paragraph_separator :: string where "paragraph_separator = map char_of [0xE2, 0x80, 0xA9 :: nat]"

function go_escape :: "string \<Rightarrow> string" where
  "go_escape [] = []"
| "go_escape (c # t) =
     (if code c < 0x80 then escape_html c @ go_escape t
      else if utf8_len (c # t) = 0 then CHR 0x5C # ''ufffd'' @ go_escape t
      else if take (utf8_len (c # t)) (c # t) = line_separator
      then CHR 0x5C # ''u2028'' @ go_escape (drop (utf8_len (c # t)) (c # t))
      else if take (utf8_len (c # t)) (c # t) = paragraph_separator
      then CHR 0x5C # ''u2029'' @ go_escape (drop (utf8_len (c # t)) (c # t))
      else take (utf8_len (c # t)) (c # t) @ go_escape (drop (utf8_len (c # t)) (c # t)))"
  by pat_completeness auto
termination
  by (relation "measure length") auto

declare go_escape.simps(2) [simp del]

definition go_quote :: "string \<Rightarrow> string" where
  "go_quote s = CHR 0x22 # go_escape s @ [CHR 0x22]"

text \<open>The string with every byte that is no UTF-8 replaced by U+FFFD.\<close>

function to_valid :: "string \<Rightarrow> string" where
  "to_valid [] = []"
| "to_valid (c # t) =
     (if utf8_len (c # t) = 0 then replacement @ to_valid t
      else take (utf8_len (c # t)) (c # t) @ to_valid (drop (utf8_len (c # t)) (c # t)))"
  by pat_completeness auto
termination
  by (relation "measure length") auto

declare to_valid.simps(2) [simp del]

section \<open>Reading back\<close>

lemma scan_escape_html:
  assumes "code c < 0x80"
  shows "scan_string (escape_html c @ r) = map_option (apfst ((#) c)) (scan_string r)"
proof -
  have u: "scan_string ([CHR 0x5C] @ ''u00'' @ [hex_lower (code c div 16), hex_lower (code c mod 16)] @ r)
      = map_option (apfst ((#) c)) (scan_string r)"
  proof -
    have "from_hex_char (CHR ''0'') = Some 0"
      by (simp add: from_hex_char_def)
    then have "hex4 (''00'' @ hex_lower (code c div 16) # hex_lower (code c mod 16) # r) = Some (code c, r)"
      using assms by (simp add: hex4_def)
    then have "scan_escape (''u00'' @ hex_lower (code c div 16) # hex_lower (code c mod 16) # r) = Some ([c], r)"
      using assms by (simp add: scan_escape_def utf16_escape_def utf8_encode_def)
    then show ?thesis
      by (simp add: append_single)
  qed
  have plain: "scan_string (c # r) = map_option (apfst ((#) c)) (scan_string r)"
    if "c \<noteq> CHR 0x22" "c \<noteq> CHR 0x5C" "\<not> code c < 0x20"
    using that assms by (simp add: scan_string_other append_single)
  show ?thesis
    using u plain by (auto simp: escape_html_def scan_escape_def append_single)
qed

lemma scan_unicode:
  assumes "map from_hex_char [a, b, d, e] = map Some ds" and "ds = [n1, n2, n3, n4]"
    and "n = 4096 * n1 + 256 * n2 + 16 * n3 + n4" and "n < 0xD800 \<or> 0xE000 \<le> n"
  shows "scan_string (CHR 0x5C # CHR ''u'' # a # b # d # e # r) = map_option (apfst ((@) (utf8_encode n))) (scan_string r)"
  using assms by (simp add: scan_escape_def hex4_def utf16_escape_def)

lemma scan_fixed_escapes:
  "scan_string (CHR 0x5C # ''ufffd'' @ r) = map_option (apfst ((@) replacement)) (scan_string r)"
  "scan_string (CHR 0x5C # ''u2028'' @ r) = map_option (apfst ((@) line_separator)) (scan_string r)"
  "scan_string (CHR 0x5C # ''u2029'' @ r) = map_option (apfst ((@) paragraph_separator)) (scan_string r)"
proof -
  have hex: "map from_hex_char ''fffd'' = [Some 15, Some 15, Some 15, Some 13]"
    "map from_hex_char ''2028'' = [Some 2, Some 0, Some 2, Some 8]"
    "map from_hex_char ''2029'' = [Some 2, Some 0, Some 2, Some 9]"
    by code_simp+
  have enc: "utf8_encode 0xFFFD = replacement" "utf8_encode 0x2028 = line_separator"
    "utf8_encode 0x2029 = paragraph_separator"
    by (simp_all add: utf8_encode_def replacement_def line_separator_def paragraph_separator_def)
  show "scan_string (CHR 0x5C # ''ufffd'' @ r) = map_option (apfst ((@) replacement)) (scan_string r)"
    "scan_string (CHR 0x5C # ''u2028'' @ r) = map_option (apfst ((@) line_separator)) (scan_string r)"
    "scan_string (CHR 0x5C # ''u2029'' @ r) = map_option (apfst ((@) paragraph_separator)) (scan_string r)"
    using scan_unicode [of _ _ _ _ "[15, 15, 15, 13]" 15 15 15 13 "0xFFFD"]
      scan_unicode [of _ _ _ _ "[2, 0, 2, 8]" 2 0 2 8 "0x2028"] scan_unicode [of _ _ _ _ "[2, 0, 2, 9]" 2 0 2 9 "0x2029"] hex enc
    by simp_all
qed

lemma scan_go_escape: "scan_string (go_escape s @ CHR 0x22 # r) = Some (to_valid s, r)"
proof (induction s rule: go_escape.induct)
  case (2 c t)
  let ?s = "c # t"
  show ?case
  proof (cases "code c < 0x80")
    case True
    with 2 show ?thesis
      by (simp add: go_escape.simps to_valid.simps scan_escape_html)
  next
    case False
    note high = False
    show ?thesis
    proof (cases "utf8_len ?s = 0")
      case True
      with high 2 show ?thesis
        using scan_fixed_escapes(1) [of "go_escape t @ CHR 0x22 # r"]
        by (simp add: go_escape.simps(2) [of c t] to_valid.simps(2) [of c t])
    next
      case False
      then obtain w q where w: "?s = w @ q" "length w = utf8_len ?s" "utf8_seq (map code w)"
        by (rule utf8_len_seq)
      then have split: "take (utf8_len ?s) ?s = w" "drop (utf8_len ?s) ?s = q"
        unfolding w(2) [symmetric] by (simp_all add: w(1))
      have hd: "0x80 \<le> code (hd w)"
        using w(1) high utf8_seq_size [OF w(3)] by (cases w) auto
      have IH: "scan_string (go_escape q @ CHR 0x22 # r) = Some (to_valid q, r)"
        using 2 high False unfolding split by (cases "w = line_separator"; cases "w = paragraph_separator") auto
      have "go_escape ?s = (if w = line_separator then CHR 0x5C # ''u2028'' else if w = paragraph_separator then CHR 0x5C # ''u2029'' else w)
          @ go_escape q" and "to_valid ?s = w @ to_valid q"
        using high False split by (simp_all add: go_escape.simps(2) [of c t] to_valid.simps(2) [of c t])
      then show ?thesis
        using IH scan_fixed_escapes(2,3) [of "go_escape q @ CHR 0x22 # r"] scan_string_seq [OF w(3) hd, of "go_escape q @ CHR 0x22 # r"]
        by simp
    qed
  qed
qed simp

lemma to_valid_id: "utf8_ok s \<Longrightarrow> to_valid s = s"
proof (induction s rule: to_valid.induct)
  case (2 c t)
  then show ?case
    by (subst (asm) (3) utf8_ok.simps) (auto simp: to_valid.simps split: if_splits)
qed simp

lemma to_valid_ok: "utf8_ok (to_valid s)"
  using scan_string_ok [OF scan_go_escape [of s "[]"]] .

text \<open>No control character is left, so the encoding never breaks a line.\<close>

lemma escape_html_printable: "code c < 0x80 \<Longrightarrow> list_all (\<lambda>x. 0x20 \<le> code x) (escape_html c)"
proof -
  assume c: "code c < 0x80"
  have "0x20 \<le> code (hex_lower (code c div 16))" and "0x20 \<le> code (hex_lower (code c mod 16))"
    using hex_lower_literal [of "code c div 16"] hex_lower_literal [of "code c mod 16"] c
    by (simp_all add: literal_char_def)
  then show "list_all (\<lambda>x. 0x20 \<le> code x) (escape_html c)"
    unfolding escape_html_def by (simp del: of_char_of)
qed

lemma go_escape_printable: "list_all (\<lambda>x. 0x20 \<le> code x) (go_escape s)"
proof (induction s rule: go_escape.induct)
  case (2 c t)
  let ?s = "c # t"
  show ?case
  proof (cases "code c < 0x80")
    case True
    with 2 escape_html_printable [OF True] show ?thesis
      by (simp add: go_escape.simps(2) [of c t])
  next
    case False
    note high = False
    show ?thesis
    proof (cases "utf8_len ?s = 0")
      case True
      with high 2 show ?thesis
        by (simp add: go_escape.simps(2) [of c t])
    next
      case False
      then obtain w q where w: "?s = w @ q" "length w = utf8_len ?s" "utf8_seq (map code w)"
        by (rule utf8_len_seq)
      then have split: "take (utf8_len ?s) ?s = w"
        unfolding w(2) [symmetric] by (simp add: w(1))
      have "0x80 \<le> hd (map code w)"
        using w(1) high utf8_seq_size [OF w(3)] by (cases w) auto
      then have "list_all (\<lambda>x. 0x20 \<le> code x) w"
        using utf8_seq_high [OF w(3)] by (auto simp: list_all_iff)
      with 2 high False split show ?thesis
        by (simp add: go_escape.simps(2) [of c t])
    qed
  qed
qed simp

lemma go_quote_printable: "list_all (\<lambda>x. 0x20 \<le> code x) (go_quote s)"
  using go_escape_printable [of s] by (simp add: go_quote_def)

text \<open>Whatever the bytes of a string, \<^verbatim>\<open>encoding/json\<close> writes it on one line, and reading that back gives the string
  with the bytes that are no UTF-8 replaced: the string itself, if it is UTF-8.\<close>

theorem go_quote_roundtrip:
  "parse_json (go_quote s) = Some (Text (to_valid s)) \<and> CHR 0x0A \<notin> set (go_quote s)
   \<and> (if utf8_ok s then to_valid s = s else utf8_ok (to_valid s))"
proof -
  have "scan_string (go_escape s @ [CHR 0x22]) = Some (to_valid s, [])"
    using scan_go_escape [of s "[]"] by simp
  then have "parse_json (go_quote s) = Some (Text (to_valid s))"
    unfolding parse_json_def go_quote_def by (subst scan_value.simps) (simp add: is_blank_def)
  moreover have "CHR 0x0A \<notin> set (go_quote s)"
    using go_quote_printable [of s] by (force simp: list_all_iff)
  ultimately show ?thesis
    using to_valid_id to_valid_ok by simp
qed

end
