(* ===== verification/Overlay.thy ===== *)
theory Overlay
  imports Json_Encode Go_Path "HOL-Library.AList" "HOL-Library.List_Lexorder" "HOL-Library.Char_ord"
begin

text \<open>
  The build tool \<^verbatim>\<open>toolchain/mkoverlay\<close>: it copies two files of the Go standard library with edits that are
  anchored to text fragments, and writes the file \<^verbatim>\<open>overlay.json\<close> that makes \<^verbatim>\<open>go build\<close> use the copies.
  A disk maps the paths of readable files to their contents. To write a file is to create it, which
  truncates it, and then to write its text, of which an error leaves only a beginning on the disk.
\<close>

section \<open>Text replacement\<close>

text \<open>\<^verbatim>\<open>strings.Count\<close>: occurrences that do not overlap; of the empty string one more than there are runes.\<close>

function rune_count :: "string \<Rightarrow> nat" where
  "rune_count [] = 0"
| "rune_count (c # s) = Suc (rune_count (drop (max 1 (utf8_len (c # s))) (c # s)))"
  by pat_completeness auto
termination
  by (relation "measure length") auto

lemma after_first_shorter: "after_first sep s = Some r \<Longrightarrow> length sep + length r \<le> length s"
proof (induction s)
  case Nil
  then show ?case
    by (subst (asm) after_first.simps) (auto split: if_splits)
next
  case (Cons c s)
  then show ?case
    by (subst (asm) (2) after_first.simps) (auto dest: prefix_length_le split: if_splits)
qed

function count_text :: "string \<Rightarrow> string \<Rightarrow> nat" where
  "count_text sep s =
     (if sep = [] then Suc (rune_count s)
      else case after_first sep s of None \<Rightarrow> 0 | Some r \<Rightarrow> Suc (count_text sep r))"
  by pat_completeness auto
termination
  by (relation "measure (\<lambda>(sep, s). length s)")
    (auto dest!: after_first_shorter simp flip: length_greater_0_conv)

declare count_text.simps [simp del]

text \<open>\<^verbatim>\<open>strings.Replace\<close> with the limit 1.\<close>

fun replace_first :: "string \<Rightarrow> string \<Rightarrow> string \<Rightarrow> string" where
  "replace_first old new s =
     (if prefix old s then new @ drop (length old) s
      else case s of [] \<Rightarrow> [] | c # s' \<Rightarrow> c # replace_first old new s')"

declare replace_first.simps [simp del]

section \<open>The edits\<close>

record edit =
  old_text :: string
  new_text :: string

record target =
  rel :: string
  edits :: "edit list"

text \<open>The edits of a file from the \<open>i\<close>-th; \<open>Inl i\<close> if the \<open>i\<close>-th fragment is not there exactly once.\<close>

primrec apply_edits :: "nat \<Rightarrow> edit list \<Rightarrow> string \<Rightarrow> nat + string" where
  "apply_edits i [] s = Inr s"
| "apply_edits i (e # es) s =
     (if count_text (old_text e) s \<noteq> 1 then Inl i
      else apply_edits (Suc i) es (replace_first (old_text e) (new_text e) s))"

definition nl :: string where "nl = [CHR 0x0A]"
definition tab :: string where "tab = [CHR 0x09]"

definition quoted :: "string \<Rightarrow> string" where
  "quoted s = CHR 0x22 # s @ [CHR 0x22]"

definition import_block :: "string list \<Rightarrow> string" where
  "import_block names =
     ''import ('' @ nl @ concat (map (\<lambda>n. tab @ quoted n @ nl) names) @ '')''"

definition getrandom_guard :: string where
  "getrandom_guard = join_with nl
    [''// getrandomUnavailable records that syscall 384 here is not a working'',
     ''// getrandom(2). On vendor kernels older than 3.17 this number is not getrandom:'',
     ''// on this custom ZTE kernel (Linux 3.4.110) it is sys_get_flashtestinfo, which'',
     ''// writes 32 zero bytes at the passed pointer and only then reports EFAULT, i.e.'',
     ''// it silently corrupts what lies past the caller's buffer. We probe once, into'',
     ''// our own oversized buffer, so that damage cannot reach anyone else's data.'',
     ''var ('',
     tab @ ''getrandomUnavailable atomic.Bool'',
     tab @ ''getrandomProbe       sync.Once'',
     '')'',
     [],
     ''func probeGetRandom() {'',
     tab @ ''var scratch [128]byte'',
     tab @ ''if _, err := unix.GetRandom(scratch[:8], 0); err != nil {'',
     tab @ tab @ ''getrandomUnavailable.Store(true)'',
     tab @ ''}'',
     ''}'',
     [],
     ''func read(b []byte) error {'',
     tab @ ''getrandomProbe.Do(probeGetRandom)'',
     tab @ ''if getrandomUnavailable.Load() {'',
     tab @ tab @ ''return urandomRead(b)'',
     tab @ ''}'',
     []]"

definition targets :: "target list" where
  "targets =
    [\<lparr>rel = ''crypto/internal/sysrand/rand_getrandom.go'',
      edits =
       [\<lparr>old_text = import_block [''errors'', ''internal/syscall/unix'', ''math'', ''runtime'', ''syscall''],
         new_text = import_block [''errors'', ''internal/syscall/unix'', ''math'', ''runtime'', ''sync'', ''sync/atomic'', ''syscall'']\<rparr>,
        \<lparr>old_text = ''func read(b []byte) error {'', new_text = getrandom_guard\<rparr>,
        \<lparr>old_text = tab @ tab @ ''if errors.Is(err, syscall.ENOSYS) {'',
         new_text = tab @ tab @ ''if errors.Is(err, syscall.ENOSYS) || errors.Is(err, syscall.EFAULT) {'' @ nl
           @ tab @ tab @ tab @ ''getrandomUnavailable.Store(true)''\<rparr>]\<rparr>,
     \<lparr>rel = ''crypto/internal/entropy/v1.0.0/entropy.go'',
      edits =
       [\<lparr>old_text = ''type ScratchBuffer [1 << 25]byte'',
         new_text = ''type ScratchBuffer [1 << 20]byte // 32 MiB of BSS prevents exec when CommitLimit is 27 MB''\<rparr>]\<rparr>]"

section \<open>The program\<close>

text \<open>\<open>go_env\<close> is what \<^verbatim>\<open>go env\<close> prints for a name, and whether it ran; \<open>breaks_off\<close> after how many bytes the
  write to a file ends with an error, if it does.\<close>

record tool_env =
  go_env :: "string \<Rightarrow> string \<times> bool"
  mkdir_ok :: "string \<Rightarrow> bool"
  can_create :: "string \<Rightarrow> bool"
  breaks_off :: "string \<Rightarrow> nat option"

type_synonym disk = "string \<Rightarrow> string option"

datatype stop = Usage | NoGoroot | NoOutDir | Unreadable string | Fragment string nat string | Unwritable string | NotEncoded string

definition exit_code :: "stop \<Rightarrow> int" where
  "exit_code e = (if e = Usage then 2 else 1)"

definition goEnv :: "tool_env \<Rightarrow> string \<Rightarrow> string \<times> bool" where
  "goEnv env name = (let (out, ok) = go_env env name in (trim_space out, ok))"

definition src_path :: "string \<Rightarrow> target \<Rightarrow> string" where
  "src_path goroot t = join_path [goroot, ''src'', rel t]"

definition dst_path :: "string \<Rightarrow> target \<Rightarrow> string" where
  "dst_path out t = join_path [out, base_path (rel t)]"

text \<open>\<^verbatim>\<open>os.Create\<close>; the write to the file it returns, with \<open>False\<close> for an error; and \<^verbatim>\<open>os.WriteFile\<close>, which is both.\<close>

definition create_file :: "tool_env \<Rightarrow> string \<Rightarrow> disk \<Rightarrow> disk option" where
  "create_file env p d = (if can_create env p then Some (d(p \<mapsto> [])) else None)"

definition write_text :: "tool_env \<Rightarrow> string \<Rightarrow> string \<Rightarrow> disk \<Rightarrow> bool \<times> disk" where
  "write_text env p s d =
     (case breaks_off env p of None \<Rightarrow> (True, d(p \<mapsto> s)) | Some n \<Rightarrow> (False, d(p \<mapsto> take n s)))"

definition write_file :: "tool_env \<Rightarrow> string \<Rightarrow> string \<Rightarrow> disk \<Rightarrow> bool \<times> disk" where
  "write_file env p s d = (case create_file env p d of None \<Rightarrow> (False, d) | Some d \<Rightarrow> write_text env p s d)"

definition patch_target ::
    "tool_env \<Rightarrow> string \<Rightarrow> string \<Rightarrow> string \<Rightarrow> target \<Rightarrow> disk \<Rightarrow> stop option \<times> disk" where
  "patch_target env goroot version out t d =
     (case d (src_path goroot t) of
        None \<Rightarrow> (Some (Unreadable (rel t)), d)
      | Some s \<Rightarrow>
          (case apply_edits 1 (edits t) s of
             Inl i \<Rightarrow> (Some (Fragment (rel t) i version), d)
           | Inr s \<Rightarrow>
               let (ok, d) = write_file env (dst_path out t) s d
               in (if ok then None else Some (Unwritable (dst_path out t)), d)))"

text \<open>The loop over the targets; \<open>replace\<close> is the Go map of that name, in the order of the insertions.\<close>

primrec patch_all ::
    "tool_env \<Rightarrow> string \<Rightarrow> string \<Rightarrow> string \<Rightarrow> target list \<Rightarrow> (string \<times> string) list \<Rightarrow> disk \<Rightarrow>
       (stop + (string \<times> string) list) \<times> disk" where
  "patch_all env goroot version out [] replace d = (Inr replace, d)"
| "patch_all env goroot version out (t # ts) replace d =
     (case patch_target env goroot version out t d of
        (Some e, d) \<Rightarrow> (Inl e, d)
      | (None, d) \<Rightarrow>
          patch_all env goroot version out ts
            (AList.update (src_path goroot t) (dst_path out t) replace) d)"

text \<open>The JSON text of the map, indented by one blank, its keys sorted.\<close>

definition member_line :: "string \<times> string \<Rightarrow> string" where
  "member_line m = ''  '' @ go_quote (fst m) @ '': '' @ go_quote (snd m)"

definition overlay_text :: "(string \<times> string) list \<Rightarrow> string" where
  "overlay_text ms =
     ''{'' @ nl @ '' '' @ quoted ''Replace'' @ '': ''
     @ (if ms = [] then ''{}'' else ''{'' @ nl @ join_with ('','' @ nl) (map member_line (sort_key fst ms)) @ nl @ '' }'')
     @ nl @ ''}'' @ nl"

definition overlay_path :: "string \<Rightarrow> string" where
  "overlay_path out = join_path [out, ''overlay.json'']"

definition mkoverlay :: "tool_env \<Rightarrow> target list \<Rightarrow> string \<Rightarrow> disk \<Rightarrow> (stop + string) \<times> disk" where
  "mkoverlay env ts out d =
     (if out = [] then (Inl Usage, d)
      else let (goroot, ok) = goEnv env ''GOROOT'' in
        if \<not> ok then (Inl NoGoroot, d)
        else let version = fst (goEnv env ''GOVERSION'') in
          if \<not> mkdir_ok env out then (Inl NoOutDir, d)
          else (case patch_all env goroot version out ts [] d of
              (Inl e, d) \<Rightarrow> (Inl e, d)
            | (Inr replace, d) \<Rightarrow>
                (case create_file env (overlay_path out) d of
                   None \<Rightarrow> (Inl (Unwritable (overlay_path out)), d)
                 | Some d \<Rightarrow>
                     let (ok, d) = write_text env (overlay_path out) (overlay_text replace) d
                     in (if ok then Inr (overlay_path out) else Inl (NotEncoded (overlay_path out)), d))))"

section \<open>Facts about replacement\<close>

lemma after_first_cases:
  "case after_first sep s of
     None \<Rightarrow> \<not> contains s sep \<and> replace_first sep new s = s
   | Some r \<Rightarrow> \<exists>a. s = a @ sep @ r \<and> replace_first sep new s = a @ new @ r"
proof (induction s)
  case Nil
  then show ?case
    using after_first.simps [of sep "[]"] replace_first.simps [of sep new "[]"] by (auto simp: contains_def)
next
  case (Cons c s)
  show ?case
  proof (cases "prefix sep (c # s)")
    case True
    then obtain r where r: "c # s = sep @ r"
      by (auto simp: prefix_def)
    with True show ?thesis
      by (subst after_first.simps, subst replace_first.simps) (auto intro!: exI [of _ "[]"])
  next
    case False
    then have "after_first sep (c # s) = after_first sep s"
      and "replace_first sep new (c # s) = c # replace_first sep new s"
      by (simp_all add: after_first.simps [of sep "c # s"] replace_first.simps [of sep new "c # s"])
    moreover have "contains (c # s) sep = contains s sep"
      using False by (simp add: contains_def sublist_Cons_right)
    ultimately show ?thesis
      using Cons by (auto split: option.splits intro: exI [of _ "c # _"])
  qed
qed

lemma count_text_zero: "sep \<noteq> [] \<Longrightarrow> count_text sep s = 0 \<longleftrightarrow> \<not> contains s sep"
proof -
  assume "sep \<noteq> []"
  then have "count_text sep s = (case after_first sep s of None \<Rightarrow> 0 | Some r \<Rightarrow> Suc (count_text sep r))"
    by (subst count_text.simps) simp
  then show ?thesis
    using after_first_cases [where sep = sep and s = s and new = "[]"] contains_mid [of _ sep]
    by (cases "after_first sep s") auto
qed

text \<open>A fragment that is counted once is replaced where it is, and does not occur behind it.\<close>

lemma replace_counted_once:
  assumes "old \<noteq> []" and "count_text old s = 1"
  shows "\<exists>a b. s = a @ old @ b \<and> \<not> contains b old \<and> replace_first old new s = a @ new @ b"
proof -
  obtain r where r: "after_first old s = Some r" and "count_text old r = 0"
    using assms by (subst (asm) count_text.simps) (auto split: option.splits)
  then show ?thesis
    using after_first_cases [where sep = old and s = s and new = new] count_text_zero [OF assms(1)] by auto
qed

text \<open>What the edits promise: each fragment is replaced where it stands, and it stands nowhere behind that.\<close>

primrec edited :: "edit list \<Rightarrow> string \<Rightarrow> string \<Rightarrow> bool" where
  "edited [] s s' \<longleftrightarrow> s' = s"
| "edited (e # es) s s' \<longleftrightarrow>
     (\<exists>a b. s = a @ old_text e @ b \<and> \<not> contains b (old_text e) \<and> edited es (a @ new_text e @ b) s')"

lemma apply_edits_edited:
  "apply_edits i es s = Inr s' \<Longrightarrow> list_all (\<lambda>e. old_text e \<noteq> []) es \<Longrightarrow> edited es s s'"
proof (induction es arbitrary: i s)
  case (Cons e es)
  then show ?case
    using replace_counted_once [of "old_text e" s "new_text e"] by (fastforce split: if_splits)
qed simp

definition good_targets :: "string \<Rightarrow> string \<Rightarrow> target list \<Rightarrow> bool" where
  "good_targets goroot out ts \<longleftrightarrow>
     distinct (map (dst_path out) ts) \<and> set (map (src_path goroot) ts) \<inter> set (map (dst_path out) ts) = {}
     \<and> list_all (\<lambda>t. list_all (\<lambda>e. old_text e \<noteq> []) (edits t)) ts"

definition patched :: "string \<Rightarrow> string \<Rightarrow> disk \<Rightarrow> disk \<Rightarrow> target \<Rightarrow> bool" where
  "patched goroot out d d' t \<longleftrightarrow>
     (\<exists>s s'. d (src_path goroot t) = Some s \<and> d' (dst_path out t) = Some s' \<and> edited (edits t) s s')"

definition replacements :: "string \<Rightarrow> string \<Rightarrow> target list \<Rightarrow> (string \<times> string) list" where
  "replacements goroot out ts = fold (\<lambda>t. AList.update (src_path goroot t) (dst_path out t)) ts []"

lemma patch_target_ok:
  assumes "patch_target env goroot version out t d = (None, d1)" and "list_all (\<lambda>e. old_text e \<noteq> []) (edits t)"
  shows "\<exists>s s'. d (src_path goroot t) = Some s \<and> edited (edits t) s s' \<and> d1 = d(dst_path out t \<mapsto> s')"
  using assms apply_edits_edited [of 1 "edits t"]
  by (auto simp: patch_target_def write_file_def create_file_def write_text_def Let_def
      split: option.splits sum.splits if_splits prod.splits) blast

lemma patch_target_frame: "patch_target env goroot version out t d = (e, d1) \<Longrightarrow> p \<noteq> dst_path out t \<Longrightarrow> d1 p = d p"
  by (auto simp: patch_target_def write_file_def create_file_def write_text_def Let_def
      split: option.splits sum.splits if_splits prod.splits)

lemma patch_all_spec:
  assumes "patch_all env goroot version out ts replace d = (res, d')" and "good_targets goroot out ts"
  shows "(\<forall>p. p \<notin> set (map (dst_path out) ts) \<longrightarrow> d' p = d p)
    \<and> (case res of Inl e \<Rightarrow> True
        | Inr m \<Rightarrow> m = fold (\<lambda>t. AList.update (src_path goroot t) (dst_path out t)) ts replace
            \<and> list_all (patched goroot out d d') ts)"
  using assms
proof (induction ts arbitrary: replace d)
  case (Cons t ts)
  have good: "good_targets goroot out ts"
    using Cons.prems(2) by (auto simp: good_targets_def)
  obtain e d1 where turn: "patch_target env goroot version out t d = (e, d1)"
    by fastforce
  show ?case
  proof (cases e)
    case (Some x)
    with Cons.prems(1) patch_target_frame [OF turn] show ?thesis
      by (auto simp: turn)
  next
    case None
    let ?m = "AList.update (src_path goroot t) (dst_path out t) replace"
    have run: "patch_all env goroot version out ts ?m d1 = (res, d')"
      using Cons.prems(1) None turn by simp
    obtain s s' where s: "d (src_path goroot t) = Some s" "edited (edits t) s s'" "d1 = d(dst_path out t \<mapsto> s')"
      using patch_target_ok [OF turn [unfolded None]] Cons.prems(2) by (auto simp: good_targets_def)
    note IH = Cons.IH [OF run good]
    have "dst_path out t \<notin> set (map (dst_path out) ts)"
      using Cons.prems(2) by (simp add: good_targets_def)
    then have "d' (dst_path out t) = Some s'"
      using IH s(3) by simp
    with s have t: "patched goroot out d d' t"
      by (auto simp: patched_def)
    have "d1 (src_path goroot x) = d (src_path goroot x)" if "x \<in> set ts" for x
    proof -
      have "dst_path out t \<notin> src_path goroot ` set ts"
        using Cons.prems(2) by (auto simp: good_targets_def)
      with that s(3) show ?thesis
        by (metis fun_upd_other imageI)
    qed
    then have same: "list_all (patched goroot out d1 d') ts = list_all (patched goroot out d d') ts"
      by (auto simp: list_all_iff patched_def)
    show ?thesis
      using IH t unfolding same by (auto simp: s(3) split: sum.splits)
  qed
qed auto

lemma patch_all_stop: "patch_all env goroot version out ts replace d = (Inl e, d') \<Longrightarrow> e \<noteq> NotEncoded p"
  by (induction ts arbitrary: replace d)
    (auto simp: patch_target_def Let_def split: option.splits sum.splits prod.splits if_splits)

section \<open>The text of the overlay\<close>

definition member_value :: "string \<times> string \<Rightarrow> string \<times> json" where
  "member_value m = (to_valid (fst m), Text (to_valid (snd m)))"

lemma scan_member_line:
  "scan_members d (skip (member_line m @ q)) =
     (if starts {CHR ''}''} (skip q) then Some ([member_value m], tl (skip q))
      else if starts {CHR '',''} (skip q) then map_option (apfst ((#) (member_value m))) (scan_members d (skip (tl (skip q))))
      else None)"
proof -
  have k: "scan_string (go_escape (fst m) @ CHR 0x22 # r) = Some (to_valid (fst m), r)" for r
    by (rule scan_go_escape)
  have v: "scan_value d (CHR 0x22 # go_escape (snd m) @ CHR 0x22 # r) = Some (Text (to_valid (snd m)), r)" for r
    by (subst scan_value.simps) (simp add: scan_go_escape)
  show ?thesis
    by (subst scan_members_eq) (simp add: member_line_def go_quote_def member_value_def is_blank_def k v)
qed

lemma blanks [simp]: "is_blank (CHR '' '')" "is_blank (CHR 0x0A)"
  by (simp_all add: is_blank_def)

lemma skip_nl: "skip (nl @ s) = skip s"
  by (simp add: nl_def)

lemma scan_member_lines:
  assumes "ms \<noteq> []"
  shows "scan_members d (skip (join_with ('','' @ nl) (map member_line ms) @ nl @ '' }'' @ r)) = Some (map member_value ms, r)"
  using assms
proof (induction ms rule: list_nonempty_induct)
  case (single m)
  show ?case
    unfolding list.map join_with.simps scan_member_line by (simp add: nl_def)
next
  case (cons m ms)
  obtain m1 ms1 where ms: "ms = m1 # ms1"
    using cons.hyps by (cases ms) auto
  have j: "join_with ('','' @ nl) (map member_line (m # ms)) = member_line m @ ('','' @ nl) @ join_with ('','' @ nl) (map member_line ms)"
    by (simp add: ms)
  show ?case
    unfolding j append_assoc scan_member_line using cons.IH by (simp add: skip_nl)
qed

lemma scan_replace_member:
  assumes "\<And>r. scan_value 1 (CHR ''{'' # b @ r) = Some (v, r)"
  shows "scan_members 1 (CHR 0x22 # ''Replace'' @ CHR 0x22 # '': '' @ (CHR ''{'' # b) @ CHR 0x0A # ''}'' @ r) = Some ([(''Replace'', v)], r)"
proof -
  have "scan_string (''Replace'' @ CHR 0x22 # q) = Some (''Replace'', q)" for q
    by (rule scan_string_literal) (simp add: literal_char_def)
  then show ?thesis
    using assms by (subst scan_members_eq) (simp add: is_blank_def)
qed

lemma parse_overlay_text:
  "parse_json (overlay_text ms) = Some (Object [(''Replace'', Object (map member_value (sort_key fst ms)))])"
proof -
  let ?v = "Object (map member_value (sort_key fst ms))"
  define b where "b = (if ms = [] then ''}'' else nl @ join_with ('','' @ nl) (map member_line (sort_key fst ms)) @ nl @ '' }'')"
  have v: "scan_value 1 (CHR ''{'' # b @ r) = Some (?v, r)" for r
  proof (cases "ms = []")
    case True
    then show ?thesis
      by (subst scan_value.simps) (simp add: b_def max_depth_def is_blank_def)
  next
    case False
    then have "sort_key fst ms \<noteq> []"
      by (metis length_0_conv length_sort)
    note lines = scan_member_lines [OF this, of 2 r]
    let ?ls = "skip (join_with ('','' @ nl) (map member_line (sort_key fst ms)) @ nl @ '' }'' @ r)"
    have no_end: "\<not> starts {CHR ''}''} ?ls"
    proof
      assume "starts {CHR ''}''} ?ls"
      then have "\<not> starts {CHR 0x22} ?ls"
        by (auto simp: starts_def)
      then have "scan_members 2 ?ls = None"
        by (subst scan_members_eq) simp
      with lines show False
        by simp
    qed
    have "skip (b @ r) = ?ls"
      using False by (simp add: b_def skip_nl del: dropWhile_append3)
    with no_end lines show ?thesis
      by (subst scan_value.simps) (simp add: max_depth_def)
  qed
  have "overlay_text ms = CHR ''{'' # CHR 0x0A # '' '' @ CHR 0x22 # ''Replace'' @ CHR 0x22 # '': '' @ (CHR ''{'' # b) @ CHR 0x0A # ''}'' @ nl"
    by (simp add: overlay_text_def b_def quoted_def nl_def)
  then show ?thesis
    unfolding parse_json_def using scan_replace_member [of b ?v nl, OF v]
    by (subst scan_value.simps) (simp add: is_blank_def max_depth_def nl_def)
qed

section \<open>Properties\<close>

lemma dst_names: "map (\<lambda>t. base_path (rel t)) targets = [''rand_getrandom.go'', ''entropy.go'']"
  by code_simp

lemma old_texts: "list_all (\<lambda>t. list_all (\<lambda>e. old_text e \<noteq> []) (edits t)) targets"
  by code_simp

lemma dst_paths:
  assumes "out \<noteq> []"
  shows "distinct (map (dst_path out) targets)" and "overlay_path out \<notin> set (map (dst_path out) targets)"
proof -
  have plain: "plain_part ''rand_getrandom.go''" "plain_part ''entropy.go''" "plain_part ''overlay.json''"
    by code_simp+
  have "map (dst_path out) targets = map (\<lambda>n. join_path [out, n]) (map (\<lambda>t. base_path (rel t)) targets)"
    by (simp add: dst_path_def)
  also have "\<dots> = [join_path [out, ''rand_getrandom.go''], join_path [out, ''entropy.go'']]"
    by (simp add: dst_names)
  finally have dsts: "map (dst_path out) targets = [join_path [out, ''rand_getrandom.go''], join_path [out, ''entropy.go'']]" .
  have ne: "join_path [out, a] \<noteq> join_path [out, b]" if "plain_part a" "plain_part b" "a \<noteq> b" for a b
    using path_parts_join(1) [OF assms that(1)] path_parts_join(1) [OF assms that(2)] that(3) by force
  show "distinct (map (dst_path out) targets)" and "overlay_path out \<notin> set (map (dst_path out) targets)"
    unfolding dsts overlay_path_def using ne plain by simp_all
qed

text \<open>C39: When the tool succeeds, every target was patched completely, each fragment replaced where it stands, and
  \<^verbatim>\<open>overlay.json\<close>, read as JSON, names exactly the patched copies. When it stops with an error, \<^verbatim>\<open>overlay.json\<close> is as it
  was, unless its own writing broke off: then the targets are patched and the file has a beginning of
  that text. The output directory must not be one of the source directories.\<close>

theorem mkoverlay_complete:
  assumes "set (map (src_path (fst (goEnv env ''GOROOT''))) targets) \<inter> set (map (dst_path out) targets) = {}"
  shows "let root = fst (goEnv env ''GOROOT''); (res, d') = mkoverlay env targets out d; text = overlay_text (replacements root out targets) in
     case res of
       Inl e \<Rightarrow>
         if e = NotEncoded (overlay_path out)
         then list_all (patched root out d d') targets \<and> (\<exists>n. breaks_off env (overlay_path out) = Some n \<and> d' (overlay_path out) = Some (take n text))
         else d' (overlay_path out) = d (overlay_path out)
     | Inr p \<Rightarrow> p = overlay_path out \<and> list_all (patched root out d d') targets \<and> d' p = Some text
         \<and> parse_json text = Some (Object [(''Replace'', Object (map member_value (sort_key fst (replacements root out targets))))])"
proof (cases "out = [] \<or> \<not> snd (goEnv env ''GOROOT'') \<or> \<not> mkdir_ok env out")
  case True
  then show ?thesis
    by (auto simp: mkoverlay_def Let_def case_prod_beta)
next
  case False
  let ?root = "fst (goEnv env ''GOROOT'')" and ?version = "fst (goEnv env ''GOVERSION'')"
  have dsts: "distinct (map (dst_path out) targets)" "overlay_path out \<notin> set (map (dst_path out) targets)"
    using dst_paths False by blast+
  obtain res d1 where run: "patch_all env ?root ?version out targets [] d = (res, d1)"
    by fastforce
  have "good_targets ?root out targets"
    unfolding good_targets_def using dsts(1) assms old_texts by blast
  note spec = patch_all_spec [OF run this]
  have keep: "d1 (overlay_path out) = d (overlay_path out)"
    using spec dsts(2) by blast
  have main: "mkoverlay env targets out d =
      (case res of Inl e \<Rightarrow> (Inl e, d1)
       | Inr m \<Rightarrow> (case create_file env (overlay_path out) d1 of
            None \<Rightarrow> (Inl (Unwritable (overlay_path out)), d1)
          | Some d \<Rightarrow>
              let (ok, d) = write_text env (overlay_path out) (overlay_text m) d
              in (if ok then Inr (overlay_path out) else Inl (NotEncoded (overlay_path out)), d)))"
    using False by (cases res) (auto simp: mkoverlay_def Let_def case_prod_beta run split: option.split)
  show ?thesis
  proof (cases res)
    case (Inl e)
    with main keep patch_all_stop [OF run [unfolded Inl]] show ?thesis
      by auto
  next
    case (Inr m)
    have m: "m = replacements ?root out targets" and p: "list_all (patched ?root out d d1) targets"
      using spec Inr by (simp_all add: replacements_def)
    have patched: "list_all (patched ?root out d (d1(overlay_path out \<mapsto> x))) targets" for x
    proof -
      have "dst_path out t \<noteq> overlay_path out" if "t \<in> set targets" for t
        using dsts(2) that by (metis image_eqI set_map)
      then show ?thesis
        using p by (simp add: list_all_iff patched_def)
    qed
    show ?thesis
      using main keep Inr m patched parse_overlay_text [of m]
      by (simp add: create_file_def write_text_def split: option.split)
  qed
qed

text \<open>A fragment with a character that the rest of the text does not have is found exactly once.\<close>

lemma first_mark: "x \<notin> set p \<Longrightarrow> x \<notin> set q \<Longrightarrow> p @ x # s = q @ x # t \<Longrightarrow> p = q \<and> s = t"
proof (induction p arbitrary: q)
  case Nil
  then show ?case
    by (cases q) auto
next
  case (Cons c p)
  then show ?case
    by (cases q) auto
qed

lemma marked_fragment:
  assumes "x \<in> set sep" and "x \<notin> set a" and "x \<notin> set b"
  shows "count_text sep (a @ sep @ b) = 1" and "replace_first sep new (a @ sep @ b) = a @ new @ b"
proof -
  have ne: "sep \<noteq> []"
    using assms(1) by auto
  obtain u v where sep: "sep = u @ x # v" and u: "x \<notin> set u"
    using split_list_first [OF assms(1)] by blast
  have unique: "a' = a \<and> r = b" if split: "a @ sep @ b = a' @ sep @ r" for a' r
  proof -
    have "count_list (a @ sep @ b) x = count_list (a' @ sep @ r) x"
      by (simp only: split)
    then have "count_list a' x = 0"
      using assms(2,3) by (simp add: count_list_0_iff)
    then have "x \<notin> set a'"
      by (simp add: count_list_0_iff)
    moreover have "(a @ u) @ x # (v @ b) = (a' @ u) @ x # (v @ r)"
      using split by (simp add: sep)
    ultimately have "a @ u = a' @ u \<and> v @ b = v @ r"
      using assms(2) u by (intro first_mark) auto
    then show ?thesis
      by simp
  qed
  have found: "after_first sep (a @ sep @ b) = Some b \<and> replace_first sep n (a @ sep @ b) = a @ n @ b" for n
    using after_first_cases [where sep = sep and s = "a @ sep @ b" and new = n]
    by (auto split: option.splits dest: unique)
  have "\<not> contains b sep"
    using assms(1,3) by (auto simp: contains_def sublist_def)
  then have "count_text sep b = 0"
    using count_text_zero [OF ne] by simp
  with ne found show "count_text sep (a @ sep @ b) = 1"
    by (subst count_text.simps) simp
  show "replace_first sep new (a @ sep @ b) = a @ new @ b"
    using found by blast
qed

definition demo_env :: tool_env where
  "demo_env = \<lparr>go_env = (\<lambda>n. ((if n = ''GOROOT'' then ''/go'' else ''go1.26'') @ nl, True)), mkdir_ok = (\<lambda>p. True), can_create = (\<lambda>p. True), breaks_off = (\<lambda>p. None)\<rparr>"

text \<open>Sources that hold the fragments of their target, one per line.\<close>

definition demo_source :: "target \<Rightarrow> string" where
  "demo_source t = concat (map (\<lambda>e. old_text e @ nl) (edits t))"

definition demo_disk :: disk where
  "demo_disk = [''/go/src/crypto/internal/sysrand/rand_getrandom.go'' \<mapsto> demo_source (targets ! 0),
     ''/go/src/crypto/internal/entropy/v1.0.0/entropy.go'' \<mapsto> demo_source (targets ! 1)]"

lemma demo_patch:
  "\<exists>s. apply_edits 1 (edits (targets ! 0)) (demo_source (targets ! 0)) = Inr s"
  "\<exists>s. apply_edits 1 (edits (targets ! 1)) (demo_source (targets ! 1)) = Inr s"
proof -
  let ?g = "targets ! 0" and ?e = "targets ! 1"
  obtain e1 e2 e3 where es: "edits ?g = [e1, e2, e3]"
    by (simp add: targets_def)
  have e1: "CHR 0x22 \<in> set (old_text e1)" "CHR 0x5B \<notin> set (new_text e1)" "CHR ''Y'' \<notin> set (new_text e1)"
    and e2: "CHR 0x5B \<in> set (old_text e2)" "CHR 0x22 \<notin> set (old_text e2)" "CHR ''Y'' \<notin> set (new_text e2)"
    and e3: "CHR ''Y'' \<in> set (old_text e3)" "CHR 0x5B \<notin> set (old_text e3)" "CHR 0x22 \<notin> set (old_text e3)"
    using es by (auto simp: targets_def import_block_def getrandom_guard_def quoted_def nl_def tab_def)
  have nl: "CHR 0x22 \<notin> set nl" "CHR 0x5B \<notin> set nl" "CHR ''Y'' \<notin> set nl"
    by (simp_all add: nl_def)
  let ?r1 = "nl @ old_text e2 @ nl @ old_text e3 @ nl" and ?r2 = "nl @ old_text e3 @ nl"
  have 1: "count_text (old_text e1) ([] @ old_text e1 @ ?r1) = 1"
      "replace_first (old_text e1) (new_text e1) ([] @ old_text e1 @ ?r1) = [] @ new_text e1 @ ?r1"
    by (rule marked_fragment [OF e1(1)]; simp add: e2 e3 nl)+
  have 2: "count_text (old_text e2) ((new_text e1 @ nl) @ old_text e2 @ ?r2) = 1"
      "replace_first (old_text e2) (new_text e2) ((new_text e1 @ nl) @ old_text e2 @ ?r2) = (new_text e1 @ nl) @ new_text e2 @ ?r2"
    by (rule marked_fragment [OF e2(1)]; simp add: e1 e3 nl)+
  have 3: "count_text (old_text e3) ((new_text e1 @ nl @ new_text e2 @ nl) @ old_text e3 @ nl) = 1"
    by (rule marked_fragment [OF e3(1)]; simp add: e1 e2 nl)
  show "\<exists>s. apply_edits 1 (edits ?g) (demo_source ?g) = Inr s"
    using 1 2 3 by (simp add: es demo_source_def)
  have "count_text (old_text e) ([] @ old_text e @ nl) = 1" if "CHR ''S'' \<in> set (old_text e)" for e
    by (rule marked_fragment [OF that]) (simp_all add: nl_def)
  moreover obtain e where "edits ?e = [e]" "CHR ''S'' \<in> set (old_text e)"
    by (simp add: targets_def)
  ultimately show "\<exists>s. apply_edits 1 (edits ?e) (demo_source ?e) = Inr s"
    by (simp add: demo_source_def)
qed

theorem mkoverlay_complete_witness:
  "let (res, d') = mkoverlay demo_env targets ''/tmp/ovl'' demo_disk in
     res = Inr ''/tmp/ovl/overlay.json'' \<and> list_all (patched ''/go'' ''/tmp/ovl'' demo_disk d') targets"
proof -
  have root: "goEnv demo_env n = (if n = ''GOROOT'' then ''/go'' else ''go1.26'', True)" for n
    using trim_space_padded [of "''/go''" "[]" nl] trim_space_padded [of "''go1.26''" "[]" nl]
    by (simp add: goEnv_def demo_env_def nl_def visible_def space_char_def)
  have src: "map (src_path ''/go'') targets = [''/go/src/crypto/internal/sysrand/rand_getrandom.go'', ''/go/src/crypto/internal/entropy/v1.0.0/entropy.go'']"
    by code_simp
  have dst: "map (dst_path ''/tmp/ovl'') targets = [''/tmp/ovl/rand_getrandom.go'', ''/tmp/ovl/entropy.go'']"
    by code_simp
  have path: "overlay_path ''/tmp/ovl'' = ''/tmp/ovl/overlay.json''"
    by code_simp
  have env: "mkdir_ok demo_env q" "can_create demo_env q" "breaks_off demo_env q = None" for q
    by (simp_all add: demo_env_def)
  obtain t1 t2 where ts: "targets = [t1, t2]"
    by (simp add: targets_def)
  obtain s1 s2 where s: "apply_edits 1 (edits t1) (demo_source t1) = Inr s1" "apply_edits 1 (edits t2) (demo_source t2) = Inr s2"
    using demo_patch by (auto simp: ts)
  have p: "src_path ''/go'' t1 = ''/go/src/crypto/internal/sysrand/rand_getrandom.go''"
    "src_path ''/go'' t2 = ''/go/src/crypto/internal/entropy/v1.0.0/entropy.go''"
    "dst_path ''/tmp/ovl'' t1 = ''/tmp/ovl/rand_getrandom.go''" "dst_path ''/tmp/ovl'' t2 = ''/tmp/ovl/entropy.go''"
    using src dst by (simp_all add: ts)
  have "fst (mkoverlay demo_env targets ''/tmp/ovl'' demo_disk) = Inr ''/tmp/ovl/overlay.json''"
    using s by (simp add: mkoverlay_def root ts patch_target_def p write_file_def create_file_def write_text_def path env demo_disk_def Let_def)
  moreover have "set (map (src_path (fst (goEnv demo_env ''GOROOT''))) targets) \<inter> set (map (dst_path ''/tmp/ovl'') targets) = {}"
    by (simp add: root src dst)
  then show ?thesis
    using mkoverlay_complete [of demo_env "''/tmp/ovl''" demo_disk] calculation by (auto simp: root Let_def split: sum.splits)
qed

end
