(* ===== verification/Spec2Isabelle.thy ===== *)
theory Spec2Isabelle
  imports Session_System Deliveries Ws_Writers Ws_Program Overlay
begin

text \<open>
  A verification development for \<^verbatim>\<open>opencarwings-sms-relay\<close>, a Go program that runs on a modem: it takes SMS
  requests from a panel and hands them to the modem as PDUs.

  \<^bold>\<open>The program.\<close> A request arrives over one of two front ends: an HTTP webhook (\<^verbatim>\<open>main.go\<close>: \<^verbatim>\<open>runHTTP\<close>,
  \<^verbatim>\<open>serve\<close>, \<^verbatim>\<open>route\<close>, \<^verbatim>\<open>handleHook\<close>) or an outgoing WebSocket with encrypted messages (\<^verbatim>\<open>ws.go\<close>: \<^verbatim>\<open>runWS\<close>,
  \<^verbatim>\<open>wsServe\<close>, \<^verbatim>\<open>handleWSRequest\<close>). Both decode the PDU, check the destination against the allowlist, claim
  the PDU against repetition (\<^verbatim>\<open>claimPDU\<close>), and start a goroutine per accepted job (\<^verbatim>\<open>sendWorker\<close>). A worker
  checks the backoff, chooses a transport, takes the modem lock, and submits either through the
  stock daemon's socket (\<^verbatim>\<open>sendPDUviaATSrv\<close>) or over the device node (\<^verbatim>\<open>port_linux.go\<close>: \<^verbatim>\<open>sendPDU\<close>); the
  outcome is logged and drives the backoff.

  \<^bold>\<open>The theories\<close>, in the order in which they build on each other:
  \<^item> \<open>Relay_Prelude\<close>: bytes, byte order, indexing that can panic, durations, and the interface
    \<open>stream_codec\<close> of encodings that can be read back from a stream. \<open>Go_Strings\<close> and \<open>Hex\<close>: the functions
    of Go's \<^verbatim>\<open>strings\<close>, \<^verbatim>\<open>strconv\<close>, \<^verbatim>\<open>fmt\<close> and \<^verbatim>\<open>encoding/hex\<close> that the program uses, on byte strings.
    \<open>Json\<close> and \<open>Json_Print\<close>: \<^verbatim>\<open>json.Unmarshal\<close>, and documents as they are written.
  \<^item> \<open>Pdu\<close>: \<^verbatim>\<open>decodeSubmitPDU\<close>, the allowlist and redaction (\<^verbatim>\<open>main.go\<close>). A run-time panic is \<open>None\<close>, which the
    deferred \<^verbatim>\<open>recover\<close> turns into an error value.
  \<^item> \<open>Gate\<close>: \<^verbatim>\<open>claimPDU\<close> with its state, \<^verbatim>\<open>backoffFor\<close> and \<^verbatim>\<open>wsBackoff\<close>; the interface \<open>retry_policy\<close>, of which
    the two and the accept loop of \<^verbatim>\<open>runHTTP\<close> are instances.
  \<^item> \<open>At_Server\<close>: the socket transport, the lookup of its process, the choice of the transport, and the
    self test. \<open>At_Port\<close>: the device node transport with its reader, and delivery reports.
  \<^item> \<open>Relay_State\<close>: the state the components share (deduplication, failure state, log records, jobs).
  \<^item> \<open>Send_Worker\<close>: the worker as a function and the interface \<open>transport\<close> (at most one submission per send,
    exactly one per reported success), of which the real choice between the two transports is an
    instance. \<open>Worker_System\<close>: the same worker as seven steps that interleave with others under the
    mutexes, with a schedule interpreter that evaluates. \<open>Backoff_System\<close>: the failure state under every
    interleaving, workers one after another as one of the schedules, and what the backoff does not bind.
  \<^item> \<open>Front_End\<close>: the interface of both front ends. \<open>Http\<close>: the webhook; \<open>Http_System\<close>: its handlers
    as goroutines that interleave. \<open>Ws_Frame\<close>, \<open>Ws_Crypto\<close>, \<open>Ws_Session\<close>:
    WebSocket frames and messages, decryption, and the session with its reconnect loop. \<open>Deliveries\<close>: both front ends from the
    bytes of a connection to the job of a worker.
  \<^item> \<open>Relay_System\<close>: the handlers of the webhook and the workers they start, all goroutines in any order.
    \<open>Session_System\<close>: WebSocket requests with their workers beside them, by the interface \<open>relay_program\<close>, which joins
    those of a front end and a transport.
  \<^item> \<open>Base64_Sha1\<close> and \<open>Ws_Handshake\<close>: \<^verbatim>\<open>wsDial\<close> with the address, the upgrade request and the check of the answer.
  \<^item> \<open>Go_Path\<close>: \<^verbatim>\<open>path/filepath\<close> and the file names. \<open>Platform\<close>: \<^verbatim>\<open>rand_linux.go\<close>, \<^verbatim>\<open>rand_other.go\<close>, \<^verbatim>\<open>ca.go\<close>, the fields of
    \<^verbatim>\<open>/proc\<close>, and \<^verbatim>\<open>port_other.go\<close>. \<open>Housekeeping\<close>: \<^verbatim>\<open>main\<close>, \<^verbatim>\<open>runHTTP\<close>, \<^verbatim>\<open>runSelfTest\<close>, the watchdog and the memory log; the
    webhook with these goroutines beside it is one more instance of \<open>front_end\<close>.
  \<^item> \<open>Ws_Writers\<close>: the read loop and the ping ticker of a session as goroutines that take turns under the write lock.
    \<open>Ws_Program\<close>: \<^verbatim>\<open>runWS\<close> from the flags, the identity file and the handshakes to the jobs.
  \<^item> \<open>Json_Encode\<close> and \<open>Overlay\<close>: strings as \<^verbatim>\<open>encoding/json\<close> writes them, and the build tool \<^verbatim>\<open>toolchain/mkoverlay\<close>.

  \<^bold>\<open>What the lemmas show.\<close> Every codec is read back exactly (PDU fields, hex, atserver requests, HTTP requests,
  WebSocket frames and fragmented messages, CBC with padding); every reader of foreign input is total
  and bounded (64 KiB bodies and frames, the response buffer, panics included); a job is started only
  for an authenticated request to an admitted destination outside the cooldown; the modem gets at
  most one SMS per job in every interleaving, one worker at a time, without deadlock; interleaved handlers
  start exactly the jobs whose claims were granted, and that holds with the workers beside them; the failure
  state is that of the outcomes in every interleaving, and failures back off at the documented rate as long as
  workers do not overlap. Around that: the program sends nothing without a secret in webhook mode and, but for
  one answer of atserver, nothing in its self test, the dial speaks only over the connection it
  secured and accepts only the proof of its own key, frames of the two writers of a session never mix over TLS,
  and over plain TCP not before the first failed write, a session
  ends on every input and its jobs are bounded by the bytes it consumed, random bytes come from the safe source, the watchdog
  records every restart of atserver, the fields of a request are those its tags name, and a successful overlay is complete. Where the code does less than it
  seems to promise, a theorem shows that too: the allowlist skips digits that are not decimal, the
  cooldown remembers one PDU, a worker that passed the check overtakes the backoff, two submissions
  follow each other without the pause, an echo counts as success, the reconnect threshold has no
  effect, an index atserver invents can submit during the self test, and a frame can follow part of another over
  plain TCP.

  \<^bold>\<open>Bounds.\<close> No definition has fuel: loops over input recurse on the input that is left, retries on the list of
  attempts, \<^verbatim>\<open>waitFor\<close> on the number of polls that fit into its deadline. Machine integers are words in
  the frames and the descriptor sets and \<open>int\<close> elsewhere, where the code stays in range; \<^verbatim>\<open>Atoi\<close> saturates
  at the 32 bits of the target.

  \<^bold>\<open>What is not modelled.\<close> The block cipher, the parser of \<^verbatim>\<open>net/url\<close>, TLS and certificates, the modem, atserver and
  the file system are parameters, as is everything the system answers. The text printed to the console (with
  the frame traces of \<^verbatim>\<open>-ws-trace\<close> and \<^verbatim>\<open>-ws-dump\<close>), deadlines as such, the parsing of flags and the JSON text of log records are left out; \<^verbatim>\<open>toolchain_guard.go\<close> only stops a build.
\<close>

section \<open>From requests to the modem\<close>

text \<open>C1: From the webhook to the modem: of any requests, and with the accepted jobs run by workers at any times,
  the modem is handed at most one SMS per accepted job, each for an admitted destination, and jobs
  for one PDU in direct succession were accepted at least the cooldown apart.\<close>

theorem hook_to_modem:
  assumes "cooldown cfg \<le> max_duration"
    and "map (\<lambda>(t0, t1, j). j) js = jobs (handle_all (hook_handler cfg) rs init_relay)"
  shows "let acc = accepted (hook_handler cfg) rs init_relay;
             (st', w') = run_workers pick (modem_send r) js (handle_all (hook_handler cfg) rs init_relay, w) in
     modem_submissions w' - modem_submissions w \<le> length acc \<and> length acc \<le> length rs
     \<and> list_all (\<lambda>a. may_send (destinationAllowed (allowedDest cfg)) (snd a)) acc
     \<and> spaced (cooldown cfg) (map (map_prod id job_pdu) acc)"
proof -
  let ?st = "handle_all (hook_handler cfg) rs init_relay" and ?acc = "accepted (hook_handler cfg) rs init_relay"
  have "jobs ?st = map snd ?acc"
    using hook.handle_all_jobs [of cfg rs init_relay] by (simp add: init_relay_def)
  with assms(2) have "length js = length ?acc"
    by (metis length_map)
  moreover obtain st' w' where run: "run_workers pick (modem_send r) js (?st, w) = (st', w')"
    by fastforce
  ultimately show ?thesis
    using radio.run_submits [OF run] hook.accepted_may_send hook.length_accepted hook.accepted_spaced [OF assms(1)]
    by (simp add: Let_def)
qed

theorem hook_to_modem_witness:
  "let reqs = [(0, test_request), (30 * second, test_request), (90 * second, test_request)];
       st = handle_all (hook_handler test_config) reqs init_relay;
       w' = snd (run_workers (\<lambda>_. ''rpm30'') (modem_send rejecting_radio) (map (\<lambda>j. (0, 0, j)) (jobs st)) (st, quiet_world))
   in length (jobs st) = 2 \<and> modem_submissions w' \<le> 2"
proof -
  let ?reqs = "[(0, test_request), (30 * second, test_request), (90 * second, test_request)]"
  let ?st = "handle_all (hook_handler test_config) ?reqs init_relay"
  have n: "length (jobs ?st) = 2" "length (accepted (hook_handler test_config) ?reqs init_relay) = 2"
    using arg_cong [OF test_accepted_times, of length] hook.handle_all_jobs [of test_config ?reqs init_relay]
    by (simp_all add: init_relay_def del: accepted.simps handle_all.simps)
  have "cooldown test_config \<le> max_duration"
    by (simp add: test_config_def max_duration_def)
  then have "let acc = accepted (hook_handler test_config) ?reqs init_relay;
       (st', w') = run_workers (\<lambda>_. ''rpm30'') (modem_send rejecting_radio) (map (\<lambda>j. (0, 0, j)) (jobs ?st)) (?st, quiet_world) in
     modem_submissions w' - modem_submissions quiet_world \<le> length acc \<and> length acc \<le> length ?reqs
     \<and> list_all (\<lambda>a. may_send (destinationAllowed (allowedDest test_config)) (snd a)) acc
     \<and> spaced (cooldown test_config) (map (map_prod id job_pdu) acc)"
    by (rule hook_to_modem) (simp add: comp_def)
  moreover have "modem_submissions quiet_world = 0"
    by code_simp
  ultimately show ?thesis
    using n unfolding Let_def case_prod_beta by linarith
qed

end
